(* ===== verification/Prelude.thy ===== *)
theory Prelude
  imports Main "HOL-Library.Word" "HOL-Library.Monad_Syntax"
begin

text \<open>
  Shared ground of the development: names for the machine types of the C and C++ sources,
  the collections of rules the component proofs use, and generic facts on words, lists and
  association lists.

  Conventions. \<open>uint8_t\<close>, \<open>uint32_t\<close> and \<open>uint64_t\<close> are words, so that every \<open>+\<close>, \<open>-\<close> and \<open>*\<close> wraps
  as in C. \<open>size_t\<close> values that the code obtains from a container's size are \<open>nat\<close>;
  \<open>size_t\<close> values that come from outside or take part in wrapping arithmetic are \<open>u64\<close>.
  A \<open>std::string\<close> and a \<open>std::vector\<close> of bytes are lists of bytes. The 32-byte plain structs
  (\<open>crypto::hash\<close>, \<open>crypto::public_key\<close>, \<open>crypto::key_image\<close>, \<open>crypto::secret_key\<close>) are
  256-bit words read in little-endian byte order. An output parameter of a C function is a
  component of the result. An \<open>option\<close> result stands for a function that reports failure by
  its return value, or, where the theory says so, for an execution that C leaves undefined.
\<close>

unbundle bit_operations_syntax

type_synonym u8 = "8 word"
type_synonym u16 = "16 word"
type_synonym u32 = "32 word"
type_synonym u64 = "64 word"
type_synonym blob = "u8 list"
type_synonym hash = "256 word"
type_synonym public_key = "256 word"
type_synonym secret_key = "256 word"
type_synonym key_image = "256 word"

named_theorems word_to_nat \<open>rules that move a word expression to the natural numbers\<close>
named_theorems inv_intro \<open>operations preserve their component's invariant\<close>

subsection \<open>Words\<close>

lemma unat_lt_64 [simp]: "unat (x :: u64) < 18446744073709551616"
  using unsigned_less [of x, where ?'a = nat] by simp

lemma unat_lt_32 [simp]: "unat (x :: u32) < 4294967296"
  using unsigned_less [of x, where ?'a = nat] by simp

lemma unat_lt_8 [simp]: "unat (x :: u8) < 256"
  using unsigned_less [of x, where ?'a = nat] by simp

lemma unat_drop_bit [word_to_nat]: "unat (drop_bit n (x :: 'a::len word)) = unat x div 2 ^ n"
  by (metis drop_bit_eq_div unat_drop_bit_eq)

lemma unat_push_bit [word_to_nat]:
  "unat (push_bit n (x :: 'a::len word)) = (unat x * 2 ^ n) mod 2 ^ LENGTH('a)"
  by (simp add: unsigned_push_bit_eq take_bit_eq_mod flip: push_bit_eq_mult)

lemma unat_and_mask [word_to_nat]:
  "unat (x AND mask n :: 'a::len word) = unat x mod 2 ^ n"
  by (metis take_bit_eq_mask take_bit_eq_mod unsigned_take_bit_eq)

lemma unat_add_no_overflow:
  "unat (x :: 'a::len word) + unat y < 2 ^ LENGTH('a) \<Longrightarrow> unat (x + y) = unat x + unat y"
  by (simp add: unat_word_ariths)

lemma unat_mult_no_overflow:
  "unat (x :: 'a::len word) * unat y < 2 ^ LENGTH('a) \<Longrightarrow> unat (x * y) = unat x * unat y"
  by (simp add: unat_word_ariths)

lemma unat_sub_no_underflow:
  "y \<le> (x :: 'a::len word) \<Longrightarrow> unat (x - y) = unat x - unat y"
  by (rule unat_sub)

lemma bit_word_lt: "unat (y :: 'a::len word) < 2 ^ n \<Longrightarrow> bit y k \<Longrightarrow> k < n"
proof -
  assume "unat y < 2 ^ n" and "bit y k"
  then have "unat (take_bit n y) = unat y"
    by (simp add: unsigned_take_bit_eq take_bit_nat_eq_self)
  then have "take_bit n y = y" by (simp add: word_unat_eq_iff)
  with \<open>bit y k\<close> show "k < n" by (metis bit_take_bit_iff)
qed

lemma word_push_or_add:
  assumes "unat (y :: 'a::len word) < 2 ^ n"
  shows "push_bit n x OR y = push_bit n x + y"
proof -
  have "push_bit n x AND y = 0"
    using bit_word_lt [OF assms] by (force simp: bit_eq_iff bit_simps)
  then show ?thesis by (simp add: disjunctive_add_eq_or)
qed

lemma unat_push_bit_mod:
  "n \<le> LENGTH('a) \<Longrightarrow> unat (push_bit n (x :: 'a::len word)) = (unat x mod 2 ^ (LENGTH('a) - n)) * 2 ^ n"
  using mod_mult_mult2 [of "unat x" "2 ^ n" "2 ^ (LENGTH('a) - n)"]
  by (simp add: unat_push_bit flip: power_add)

lemma unat_push_or:
  assumes "unat (y :: 'a::len word) < 2 ^ n" and "n \<le> LENGTH('a)"
  shows "unat (push_bit n x OR y) = (unat x mod 2 ^ (LENGTH('a) - n)) * 2 ^ n + unat y"
proof -
  let ?r = "unat x mod 2 ^ (LENGTH('a) - n)"
  have "(?r + 1) * 2 ^ n \<le> 2 ^ (LENGTH('a) - n) * 2 ^ n"
    by (intro mult_le_mono1) (simp add: Suc_leI)
  also have "\<dots> = 2 ^ LENGTH('a)" using assms(2) by (simp flip: power_add)
  finally have "?r * 2 ^ n + unat y < 2 ^ LENGTH('a)"
    using assms(1) by (simp add: algebra_simps)
  then show ?thesis
    using assms by (simp add: word_push_or_add unat_add_no_overflow unat_push_bit_mod)
qed

lemma unat_ucast_up:
  "LENGTH('a) \<le> LENGTH('b) \<Longrightarrow> unat (ucast (x :: 'a::len word) :: 'b::len word) = unat x"
proof -
  assume "LENGTH('a) \<le> LENGTH('b)"
  then have "unat x < 2 ^ LENGTH('b)"
    by (rule order.strict_trans2 [OF unsigned_less power_increasing]) simp
  then show ?thesis by (simp add: unsigned_ucast_eq take_bit_nat_eq_self)
qed

subsection \<open>Bytes\<close>

text \<open>
  A little-endian byte sequence as a number, and the first \<open>n\<close> bytes of a number. On words these
  are the two directions of a \<open>memcpy\<close> between an integer (or a 32-byte plain struct) and a byte
  buffer on a little-endian machine.
\<close>

fun nat_of_le :: "blob \<Rightarrow> nat" where
  "nat_of_le [] = 0"
| "nat_of_le (b # bs) = unat b + 256 * nat_of_le bs"

primrec le_of_nat :: "nat \<Rightarrow> nat \<Rightarrow> blob" where
  "le_of_nat 0 x = []"
| "le_of_nat (Suc n) x = of_nat x # le_of_nat n (x div 256)"

definition word_of_bytes :: "blob \<Rightarrow> 'a::len word" where
  "word_of_bytes bs = of_nat (nat_of_le bs)"

definition bytes_of_word :: "nat \<Rightarrow> 'a::len word \<Rightarrow> blob" where
  "bytes_of_word n w = le_of_nat n (unat w)"

lemma length_le_of_nat [simp]: "length (le_of_nat n x) = n"
  by (induction n arbitrary: x) auto

lemma length_bytes_of_word [simp]: "length (bytes_of_word n w) = n"
  by (simp add: bytes_of_word_def)

lemma nat_of_le_bound: "nat_of_le bs < 256 ^ length bs"
proof (induction bs)
  case (Cons b bs)
  then have "256 * nat_of_le bs + 256 \<le> 256 * 256 ^ length bs"
    by (metis Suc_leI mult_Suc_right mult_le_mono2 add.commute)
  then show ?case using unat_lt_8 [of b] by (simp del: unat_lt_8)
qed simp

lemma nat_of_le_append [simp]:
  "nat_of_le (xs @ ys) = nat_of_le xs + 256 ^ length xs * nat_of_le ys"
  by (induction xs) (auto simp: algebra_simps)

lemma nat_of_le_of_nat: "nat_of_le (le_of_nat n x) = x mod 256 ^ n"
proof (induction n arbitrary: x)
  case (Suc n)
  then show ?case by (simp add: unat_of_nat mod_mult2_eq)
qed simp

lemma le_of_nat_of_le: "le_of_nat (length bs) (nat_of_le bs) = bs"
proof (induction bs)
  case (Cons b bs)
  have "of_nat (unat b + 256 * nat_of_le bs) = b"
    by (simp only: word_unat_eq_iff unat_of_nat) simp
  with Cons show ?case by simp
qed simp

lemma word_of_bytes_inverse [simp]:
  assumes "2 ^ LENGTH('a) \<le> (256 :: nat) ^ n"
  shows "word_of_bytes (bytes_of_word n w) = (w :: 'a::len word)"
proof -
  have "unat w < 256 ^ n" using unsigned_less assms by (rule order.strict_trans2)
  then show ?thesis by (simp add: word_of_bytes_def bytes_of_word_def nat_of_le_of_nat)
qed

lemma bytes_of_word_inverse [simp]:
  assumes "length bs = n" and "256 ^ n \<le> (2 :: nat) ^ LENGTH('a)"
  shows "bytes_of_word n (word_of_bytes bs :: 'a::len word) = bs"
proof -
  have "nat_of_le bs < 2 ^ LENGTH('a)" using nat_of_le_bound [of bs] assms by simp
  then show ?thesis using assms le_of_nat_of_le [of bs]
    by (simp add: word_of_bytes_def bytes_of_word_def unat_of_nat)
qed

lemma bytes_of_word_inj:
  "bytes_of_word n v = bytes_of_word n w \<Longrightarrow> 2 ^ LENGTH('a) \<le> (256 :: nat) ^ n \<Longrightarrow> v = (w :: 'a::len word)"
  by (metis word_of_bytes_inverse)

lemma bytes_of_word_conv:
  "bytes_of_word n x = map (\<lambda>i. ucast (drop_bit (8 * i) x)) [0..<n]"
proof -
  have "le_of_nat n y = map (\<lambda>i. of_nat (y div 256 ^ i)) [0..<n]" for y
  proof (induction n arbitrary: y)
    case (Suc n)
    show ?case
      unfolding upt_conv_Cons [OF zero_less_Suc] map_Suc_upt [symmetric]
      by (simp add: Suc comp_def div_mult2_eq)
  qed simp
  then show ?thesis
    by (auto simp: bytes_of_word_def unat_drop_bit power_mult word_unat_eq_iff unat_of_nat unsigned_ucast_eq take_bit_eq_mod)
qed

lemma nat_lt_8: "(m :: nat) < 8 \<longleftrightarrow> m = 7 \<or> m = 6 \<or> m = 5 \<or> m = 4 \<or> m = 3 \<or> m = 2 \<or> m = 1 \<or> m = 0"
  by auto

lemma byte_eqI: "(\<And>n. n < 8 \<Longrightarrow> bit x n = bit y n) \<Longrightarrow> x = (y :: u8)"
  by (rule bit_word_eqI) simp




lemma nat_lt_4: "(n::nat) < 4 \<longleftrightarrow> n = 0 \<or> n = 1 \<or> n = 2 \<or> n = 3"
  by auto

lemma bytes_swapI:
  assumes "\<And>j k. j < n \<Longrightarrow> k < 8 \<Longrightarrow> bit y (8 * j + k) = bit x (8 * (n - 1 - j) + k)"
  shows "bytes_of_word n (y :: 'a::len word) = rev (bytes_of_word n x)"
  unfolding bytes_of_word_conv
  by (rule nth_equalityI) (auto simp: rev_nth assms bit_simps intro!: byte_eqI)

subsection \<open>Rotations and masks\<close>

lemma and_mask_31: "(r :: int) AND 31 = r mod 32"
  using take_bit_eq_mask [of 5 r] by (simp add: take_bit_eq_mod mask_eq_exp_minus_1)

lemma and_mask_63: "(r :: int) AND 63 = r mod 64"
  using take_bit_eq_mask [of 6 r] by (simp add: take_bit_eq_mod mask_eq_exp_minus_1)

lemma shifts_rotl:
  assumes "m < LENGTH('a)" and "k = (LENGTH('a) - m) mod LENGTH('a)"
  shows "push_bit m x OR drop_bit k x = word_rotl m (x :: 'a::len word)"
proof (rule bit_word_eqI)
  fix n assume n: "n < LENGTH('a)"
  show "bit (push_bit m x OR drop_bit k x) n \<longleftrightarrow> bit (word_rotl m x) n"
  proof (cases "m = 0")
    case True
    with n assms show ?thesis by (simp add: bit_or_iff bit_word_rotl_iff)
  next
    case False
    with assms have k: "k = LENGTH('a) - m" by simp
    show ?thesis
    proof (cases "m \<le> n")
      case True
      then have "(n + (LENGTH('a) - m mod LENGTH('a))) mod LENGTH('a) = n - m"
        using n assms(1) False by (simp add: le_mod_geq)
      moreover have "\<not> bit x (k + n)" using True k assms(1) by (auto dest: bit_imp_le_length)
      ultimately show ?thesis using True n assms(1) by (simp add: bit_simps)
    next
      case m: False
      then show ?thesis using n assms(1) k False by (simp add: bit_simps add.commute)
    qed
  qed
qed

lemma division_unique:
  fixes a b d r :: nat
  assumes "a * d = b * d + r" and "r < d"
  shows "a = b \<and> r = 0"
proof -
  have "r = (b * d + r) mod d" using assms(2) by simp
  also have "\<dots> = 0" unfolding assms(1) [symmetric] by simp
  finally show ?thesis using assms by simp
qed

subsection \<open>Lists in blocks\<close>

text \<open>The first \<open>n\<close> blocks of length \<open>k\<close> of a list, as the loops over fixed-size blocks address them.\<close>

definition chunks :: "nat \<Rightarrow> nat \<Rightarrow> 'a list \<Rightarrow> 'a list list" where
  "chunks k n xs = map (\<lambda>i. take k (drop (k * i) xs)) [0..<n]"

lemma length_chunks [simp]: "length (chunks k n xs) = n"
  by (simp add: chunks_def)

lemma chunks_0 [simp]: "chunks k 0 xs = []"
  by (simp add: chunks_def)

lemma chunks_Suc: "chunks k (Suc n) xs = take k xs # chunks k n (drop k xs)"
  unfolding chunks_def upt_conv_Cons [OF zero_less_Suc] map_Suc_upt [symmetric]
  by (simp add: comp_def add.commute)

lemma chunk_length: "k * n \<le> length xs \<Longrightarrow> c \<in> set (chunks k n xs) \<Longrightarrow> length c = k"
proof -
  assume len: "k * n \<le> length xs" and "c \<in> set (chunks k n xs)"
  then obtain i where i: "i < n" and c: "c = take k (drop (k * i) xs)" by (auto simp: chunks_def)
  have "k * Suc i \<le> k * n" using i by (intro mult_le_mono2) simp
  with len c show "length c = k" by simp
qed

lemma concat_chunks: "k * n \<le> length xs \<Longrightarrow> concat (chunks k n xs) = take (k * n) xs"
  by (induction n arbitrary: xs) (auto simp: chunks_Suc take_add)

lemma chunks_concat:
  "(\<And>c. c \<in> set css \<Longrightarrow> length c = k) \<Longrightarrow> chunks k (length css) (concat css @ ys) = css"
  by (induction css) (auto simp: chunks_Suc)

lemma chunks_append:
  "k * n \<le> length xs \<Longrightarrow> chunks k n (xs @ ys) = chunks k n xs"
  by (induction n arbitrary: xs) (auto simp: chunks_Suc)

lemma chunks_snoc: "chunks k (Suc n) xs = chunks k n xs @ [take k (drop (k * n) xs)]"
  by (simp add: chunks_def)

subsection \<open>Encoders and decoders\<close>

text \<open>
  The contract of an encoder and its decoder: every valid value is read back, and the decoder
  accepts nothing but encodings. It follows that encoding and decoding are injective and that
  block-wise decoding of a list of encodings gives the list of values.
\<close>

locale codec =
  fixes valid :: "'a \<Rightarrow> bool" and enc :: "'a \<Rightarrow> 'b" and dec :: "'b \<Rightarrow> 'a option"
  assumes dec_enc: "valid x \<Longrightarrow> dec (enc x) = Some x"
    and enc_dec: "dec y = Some x \<Longrightarrow> valid x \<and> enc x = y"
begin

lemma dec_iff: "dec y = Some x \<longleftrightarrow> valid x \<and> enc x = y"
  using dec_enc enc_dec by auto

lemma enc_inj: "valid x \<Longrightarrow> valid x' \<Longrightarrow> enc x = enc x' \<Longrightarrow> x = x'"
  by (metis dec_enc option.inject)

lemma dec_inj: "dec y = Some x \<Longrightarrow> dec y' = Some x \<Longrightarrow> y = y'"
  using enc_dec by blast

lemma those_map_dec: "those (map dec ys) = Some xs \<longleftrightarrow> list_all valid xs \<and> map enc xs = ys"
proof (induction ys arbitrary: xs)
  case (Cons y ys)
  show ?case
  proof (cases "dec y")
    case None
    then have "\<not> (valid x \<and> enc x = y)" for x using dec_iff [of y x] by simp
    with None show ?thesis by (cases xs) auto
  next
    case (Some x)
    then have "valid x" "enc x = y" using enc_dec by auto
    with Some Cons.IH show ?thesis by (cases xs) (auto dest: enc_inj)
  qed
qed auto

end

end
