(* ===== verification/Int_Util.thy ===== *)
theory Int_Util
  imports Prelude
begin

text \<open>
  \<open>src/common/int-util.h\<close>: rotations, 64 by 64 to 128 bit multiplication, 128 by 32 bit long
  division and byte swapping, together with the second multiplication of
  \<open>src/cryptonote_core/difficulty.cpp\<close>. The results of the arithmetic routines are related to
  multiplication and division of natural numbers; the two multiplications are equal; byte
  swapping reverses the bytes of a word.
\<close>

subsection \<open>Rotations\<close>

definition rol32 :: "u32 \<Rightarrow> int \<Rightarrow> u32" where
  "rol32 x r = push_bit (nat (r AND 31)) x OR drop_bit (nat (- r AND 31)) x"

definition rol64 :: "u64 \<Rightarrow> int \<Rightarrow> u64" where
  "rol64 x r = push_bit (nat (r AND 63)) x OR drop_bit (nat (- r AND 63)) x"

subsection \<open>Wide multiplication and division\<close>

definition hi_dword :: "u64 \<Rightarrow> u64" where
  "hi_dword val = drop_bit 32 val"

definition lo_dword :: "u64 \<Rightarrow> u64" where
  "lo_dword val = val AND 0xFFFFFFFF"

text \<open>The result is the pair of \<open>product_hi\<close> and the returned \<open>product_lo\<close>.\<close>

definition mul128 :: "u64 \<Rightarrow> u64 \<Rightarrow> u64 \<times> u64" where
  "mul128 multiplier multiplicand =
     (let a = hi_dword multiplier;
          b = lo_dword multiplier;
          c = hi_dword multiplicand;
          d = lo_dword multiplicand;
          ac = a * c;
          ad = a * d;
          bc = b * c;
          bd = b * d;
          adbc = ad + bc;
          adbc_carry = (if adbc < ad then 1 else 0);
          product_lo = bd + push_bit 32 adbc;
          product_lo_carry = (if product_lo < bd then 1 else 0);
          product_hi = ac + drop_bit 32 adbc + push_bit 32 adbc_carry + product_lo_carry
      in (product_hi, product_lo))"

text \<open>
  One step of the long division: quotient and new remainder. Division by zero, which C leaves
  undefined, is \<open>None\<close>. The remainder is computed in 64 bits and stored in 32.
\<close>

definition div_with_reminder :: "u64 \<Rightarrow> u32 \<Rightarrow> u32 \<Rightarrow> (u64 \<times> u32) option" where
  "div_with_reminder dividend divisor remainder =
     (let dividend' = dividend OR push_bit 32 (ucast remainder)
      in if divisor = 0 then None
         else Some (dividend' div ucast divisor, ucast (dividend' mod ucast divisor)))"

text \<open>The result is \<open>quotient_hi\<close>, \<open>quotient_lo\<close> and the returned remainder.\<close>

definition div128_32 :: "u64 \<Rightarrow> u64 \<Rightarrow> u32 \<Rightarrow> (u64 \<times> u64 \<times> u32) option" where
  "div128_32 dividend_hi dividend_lo divisor = do {
     (q3, r3) \<leftarrow> div_with_reminder (hi_dword dividend_hi) divisor 0;
     (q2, r2) \<leftarrow> div_with_reminder (lo_dword dividend_hi) divisor r3;
     (q1, r1) \<leftarrow> div_with_reminder (hi_dword dividend_lo) divisor r2;
     (q0, r0) \<leftarrow> div_with_reminder (lo_dword dividend_lo) divisor r1;
     Some (push_bit 32 q3 OR q2, push_bit 32 q1 OR q0, r0) }"

text \<open>
  The portable multiplication of \<open>difficulty.cpp\<close>, with its result \<open>high\<close> first as in
  \<^const>\<open>mul128\<close>.
\<close>

definition mul :: "u64 \<Rightarrow> u64 \<Rightarrow> u64 \<times> u64" where
  "mul a b =
     (let aLow = a AND 0xFFFFFFFF;
          aHigh = drop_bit 32 a;
          bLow = b AND 0xFFFFFFFF;
          bHigh = drop_bit 32 b;
          res1 = aLow * bLow;
          lowRes1 = res1 AND 0xFFFFFFFF;
          carry1 = drop_bit 32 res1;
          res2 = aHigh * bLow + carry1;
          highResHigh1 = drop_bit 32 res2;
          highResLow1 = res2 AND 0xFFFFFFFF;
          res3 = aLow * bHigh;
          lowRes2 = res3 AND 0xFFFFFFFF;
          carry2 = drop_bit 32 res3;
          res4 = aHigh * bHigh + carry2;
          highResHigh2 = drop_bit 32 res4;
          highResLow2 = res4 AND 0xFFFFFFFF;
          r1 = highResLow1 + lowRes2;
          carry3 = drop_bit 32 r1;
          low = push_bit 32 r1 OR lowRes1;
          r2 = highResHigh1 + highResLow2 + carry3;
          d3 = r2 AND 0xFFFFFFFF;
          carry4 = drop_bit 32 r2;
          r3 = highResHigh2 + carry4;
          high = d3 OR push_bit 32 r3
      in (high, low))"

subsection \<open>Byte swapping\<close>

definition swap32 :: "u32 \<Rightarrow> u32" where
  "swap32 x =
     (let x = push_bit 8 (x AND 0x00ff00ff) OR drop_bit 8 (x AND 0xff00ff00)
      in push_bit 16 x OR drop_bit 16 x)"

definition swap64 :: "u64 \<Rightarrow> u64" where
  "swap64 x =
     (let x = push_bit 8 (x AND 0x00ff00ff00ff00ff) OR drop_bit 8 (x AND 0xff00ff00ff00ff00);
          x = push_bit 16 (x AND 0x0000ffff0000ffff) OR drop_bit 16 (x AND 0xffff0000ffff0000)
      in push_bit 32 x OR drop_bit 32 x)"

text \<open>The macros \<open>SWAP32\<close> and \<open>SWAP64\<close>.\<close>

definition SWAP32 :: "u32 \<Rightarrow> u32" where
  "SWAP32 x = push_bit 24 (x AND 0x000000ff) OR push_bit 8 (x AND 0x0000ff00)
     OR drop_bit 8 (x AND 0x00ff0000) OR drop_bit 24 (x AND 0xff000000)"

definition SWAP64 :: "u64 \<Rightarrow> u64" where
  "SWAP64 x = push_bit 56 (x AND 0x00000000000000ff) OR push_bit 40 (x AND 0x000000000000ff00)
     OR push_bit 24 (x AND 0x0000000000ff0000) OR push_bit 8 (x AND 0x00000000ff000000)
     OR drop_bit 8 (x AND 0x000000ff00000000) OR drop_bit 24 (x AND 0x0000ff0000000000)
     OR drop_bit 40 (x AND 0x00ff000000000000) OR drop_bit 56 (x AND 0xff00000000000000)"

text \<open>
  The loops over a buffer. The first \<open>n\<close> words of the buffer are swapped; a buffer shorter than
  \<open>n\<close> would be read out of bounds, which is \<open>None\<close>. The copying variants write the first \<open>n\<close>
  words of a destination that does not overlap the source.
\<close>

definition mem_inplace_swap32 :: "u32 list \<Rightarrow> nat \<Rightarrow> u32 list option" where
  "mem_inplace_swap32 mem n =
     (if n \<le> length mem then Some (map swap32 (take n mem) @ drop n mem) else None)"

definition mem_inplace_swap64 :: "u64 list \<Rightarrow> nat \<Rightarrow> u64 list option" where
  "mem_inplace_swap64 mem n =
     (if n \<le> length mem then Some (map swap64 (take n mem) @ drop n mem) else None)"

definition memcpy_swap32 :: "u32 list \<Rightarrow> u32 list \<Rightarrow> nat \<Rightarrow> u32 list option" where
  "memcpy_swap32 dst src n =
     (if n \<le> length dst \<and> n \<le> length src then Some (map swap32 (take n src) @ drop n dst)
      else None)"

definition memcpy_swap64 :: "u64 list \<Rightarrow> u64 list \<Rightarrow> nat \<Rightarrow> u64 list option" where
  "memcpy_swap64 dst src n =
     (if n \<le> length dst \<and> n \<le> length src then Some (map swap64 (take n src) @ drop n dst)
      else None)"

subsection \<open>Correctness of the arithmetic\<close>

lemma mask32: "(0xFFFFFFFF :: u64) = mask 32"
  by (simp add: mask_eq_exp_minus_1)

lemma unat_lo_dword [word_to_nat]: "unat (lo_dword x) = unat x mod 4294967296"
  using unat_and_mask [of x 32] by (simp add: lo_dword_def mask32)

lemma unat_hi_dword [word_to_nat]: "unat (hi_dword x) = unat x div 4294967296"
  by (simp add: hi_dword_def unat_drop_bit)

lemma dword_split: "unat x = unat (hi_dword x) * 4294967296 + unat (lo_dword x)"
  by (simp add: unat_lo_dword unat_hi_dword)

lemma hi_dword_lt: "unat (hi_dword x) < 4294967296"
  by (simp add: unat_hi_dword less_mult_imp_div_less)

lemma lo_dword_lt: "unat (lo_dword x) < 4294967296"
  by (simp add: unat_lo_dword)

lemma dword_prod:
  assumes "a < 4294967296" "b < (4294967296::nat)"
  shows "a * b \<le> 18446744065119617025"
  using mult_le_mono [of a 4294967295 b 4294967295] assms by simp

lemma carry_add:
  "unat (x + y :: u64) + (if x + y < x then 18446744073709551616 else 0) = unat x + unat y"
proof (cases "unat x + unat y < 18446744073709551616")
  case True
  then have "unat (x + y) = unat x + unat y" by (simp add: unat_word_ariths)
  then show ?thesis by (simp add: word_less_nat_alt)
next
  case False
  then have "unat (x + y) = unat x + unat y - 18446744073709551616"
    using unat_lt_64 [of x] unat_lt_64 [of y]
    by (simp add: unat_word_ariths le_mod_geq del: unat_lt_64)
  with False show ?thesis
    using unat_lt_64 [of y] by (simp add: word_less_nat_alt del: unat_lt_64)
qed
  
lemma mul128_correct:
  assumes "mul128 x y = (hi, lo)"
  shows "unat hi * 2 ^ 64 + unat lo = unat x * unat y"
proof -
  define a b c d where "a = hi_dword x" and "b = lo_dword x" and "c = hi_dword y" and "d = lo_dword y"
  define ac ad bc bd where "ac = a * c" and "ad = a * d" and "bc = b * c" and "bd = b * d"
  have bnd: "unat a < 4294967296" "unat b < 4294967296" "unat c < 4294967296" "unat d < 4294967296"
    by (simp_all add: a_def b_def c_def d_def hi_dword_lt lo_dword_lt)
  have prods: "unat ac = unat a * unat c" "unat ad = unat a * unat d"
      "unat bc = unat b * unat c" "unat bd = unat b * unat d"
    using bnd by (auto simp: ac_def ad_def bc_def bd_def intro!: unat_mult_no_overflow
        intro: order.strict_trans1 [OF dword_prod])
  define m where "m = ad + bc"
  define k :: u64 where "k = (if m < ad then 1 else 0)"
  define k2 :: u64 where "k2 = (if lo < bd then 1 else 0)"
  have lo: "lo = bd + push_bit 32 m" and hi: "hi = ac + drop_bit 32 m + push_bit 32 k + k2"
    using assms unfolding mul128_def Let_def a_def b_def c_def d_def ac_def ad_def bc_def bd_def
      m_def k_def k2_def by auto
  have e1: "unat m + unat k * 18446744073709551616 = unat a * unat d + unat b * unat c"
    using carry_add [of ad bc] by (simp add: m_def k_def prods split: if_splits)
  have e2: "unat lo + unat k2 * 18446744073709551616 = unat bd + unat (push_bit 32 m)"
    using carry_add [of bd "push_bit 32 m"] by (simp add: lo k2_def split: if_splits)
  have e3: "unat (push_bit 32 m) + (unat m div 4294967296) * 18446744073709551616 = unat m * 4294967296"
  proof -
    have "unat (push_bit 32 m) = (unat m mod 4294967296) * 4294967296"
      using mod_mult_mult2 [of "unat m" 4294967296 4294967296] by (simp add: unat_push_bit)
    moreover have "unat m = unat m div 4294967296 * 4294967296 + unat m mod 4294967296" by simp
    ultimately show ?thesis by linarith
  qed
  have e4: "unat (drop_bit 32 m) = unat m div 4294967296"
    by (simp add: unat_drop_bit)
  have e5: "unat (push_bit 32 k) = unat k * 4294967296"
    by (simp add: unat_push_bit k_def)
  define H where "H = unat ac + unat (drop_bit 32 m) + unat (push_bit 32 k) + unat k2"
  have xy: "unat x = unat a * 4294967296 + unat b" "unat y = unat c * 4294967296 + unat d"
    by (simp_all add: a_def b_def c_def d_def flip: dword_split)
  have tot: "H * 18446744073709551616 + unat lo = unat x * unat y"
    using e1 e2 e3 unfolding H_def e4 e5 xy prods by (simp add: algebra_simps)
  have "unat x * unat y < 18446744073709551616 * 18446744073709551616"
    by (rule mult_strict_mono) auto
  with tot have "H < 18446744073709551616" by linarith
  then have "unat hi = H"
    unfolding hi H_def by (simp add: unat_word_ariths)
  with tot show ?thesis by simp
qed
lemma unat_and_32 [word_to_nat]: "unat (x AND 0xFFFFFFFF :: u64) = unat x mod 4294967296"
  using unat_lo_dword by (simp add: lo_dword_def)

lemma schoolbook:
  fixes hh hl lh ll :: nat
  assumes "ll = q1 * 4294967296 + m1" and "hl + q1 = q2 * 4294967296 + m2"
    and "lh = q3 * 4294967296 + m3" and "hh + q3 = q4 * 4294967296 + m4"
    and "m2 + m3 = q5 * 4294967296 + m5" and "q2 + m4 + q5 = q6 * 4294967296 + m6"
  shows "hh * 18446744073709551616 + (hl + lh) * 4294967296 + ll
    = ((q4 + q6) * 4294967296 + m6) * 18446744073709551616 + (m5 * 4294967296 + m1)"
proof -
  have "hh * 18446744073709551616 + (hl + lh) * 4294967296 + ll + q3 * 18446744073709551616 + q1 * 4294967296
    = (hh + q3) * 18446744073709551616 + (hl + q1) * 4294967296 + lh * 4294967296 + ll" by (simp add: algebra_simps)
  also have "\<dots> = q4 * 4294967296 * 18446744073709551616 + (q2 + m4) * 18446744073709551616
     + (m2 + m3) * 4294967296 + q3 * 18446744073709551616 + q1 * 4294967296 + m1"
    unfolding assms(1-4) by (simp add: algebra_simps)
  also have "\<dots> = q4 * 4294967296 * 18446744073709551616 + (q2 + m4 + q5) * 18446744073709551616
     + m5 * 4294967296 + q3 * 18446744073709551616 + q1 * 4294967296 + m1"
    unfolding assms(5) by (simp add: algebra_simps)
  finally show ?thesis unfolding assms(6) by (simp add: algebra_simps)
qed

lemma mul_correct:
  assumes "mul x y = (hi, lo)"
  shows "unat hi * 2 ^ 64 + unat lo = unat x * unat y"
proof -
  define aL aH bL bH where "aL = lo_dword x" and "aH = hi_dword x" and "bL = lo_dword y" and "bH = hi_dword y"
  have bnd: "unat aL < 4294967296" "unat aH < 4294967296" "unat bL < 4294967296" "unat bH < 4294967296"
    by (simp_all add: aL_def aH_def bL_def bH_def hi_dword_lt lo_dword_lt)
  note prod = order.strict_trans1 [OF dword_prod]
  define r1 where "r1 = aL * bL"
  have r1: "unat r1 = unat aL * unat bL"
    unfolding r1_def using bnd by (intro unat_mult_no_overflow prod) auto
  define r2 where "r2 = aH * bL + drop_bit 32 r1"
  have "unat (aH * bL) = unat aH * unat bL" "unat (drop_bit 32 r1) = unat r1 div 4294967296"
    using bnd by (auto intro!: unat_mult_no_overflow prod simp: unat_drop_bit)
  moreover have "unat aH * unat bL \<le> 18446744065119617025" "unat r1 div 4294967296 < 4294967296"
    using bnd dword_prod unat_lt_64 [of r1] by (auto simp: less_mult_imp_div_less)
  ultimately have r2: "unat r2 = unat aH * unat bL + unat r1 div 4294967296"
    unfolding r2_def by (subst unat_add_no_overflow) auto
  define r3 where "r3 = aL * bH"
  have r3: "unat r3 = unat aL * unat bH"
    unfolding r3_def using bnd by (intro unat_mult_no_overflow prod) auto
  define r4 where "r4 = aH * bH + drop_bit 32 r3"
  have "unat (aH * bH) = unat aH * unat bH" "unat (drop_bit 32 r3) = unat r3 div 4294967296"
    using bnd by (auto intro!: unat_mult_no_overflow prod simp: unat_drop_bit)
  moreover have "unat aH * unat bH \<le> 18446744065119617025" "unat r3 div 4294967296 < 4294967296"
    using bnd dword_prod unat_lt_64 [of r3] by (auto simp: less_mult_imp_div_less)
  ultimately have r4: "unat r4 = unat aH * unat bH + unat r3 div 4294967296"
    unfolding r4_def by (subst unat_add_no_overflow) auto
  define s1 where "s1 = (r2 AND 0xFFFFFFFF) + (r3 AND 0xFFFFFFFF)"
  have s1: "unat s1 = unat r2 mod 4294967296 + unat r3 mod 4294967296"
    unfolding s1_def by (subst unat_add_no_overflow) (auto simp: unat_and_32)
  define s2 where "s2 = drop_bit 32 r2 + (r4 AND 0xFFFFFFFF) + drop_bit 32 s1"
  have q: "unat (drop_bit 32 z) = unat z div 4294967296" "unat z div 4294967296 < 4294967296" for z :: u64
    using unat_lt_64 [of z] by (auto simp: unat_drop_bit less_mult_imp_div_less)
  have s2: "unat s2 = unat r2 div 4294967296 + unat r4 mod 4294967296 + unat s1 div 4294967296"
    using q(2) [of r2] q(2) [of s1] unfolding s2_def
    by (subst unat_add_no_overflow; subst unat_add_no_overflow) (auto simp: unat_and_32 q(1))
  define s3 where "s3 = drop_bit 32 r4 + drop_bit 32 s2"
  have s3: "unat s3 = unat r4 div 4294967296 + unat s2 div 4294967296"
    using q(2) [of r4] q(2) [of s2] unfolding s3_def
    by (subst unat_add_no_overflow) (auto simp: q(1))
  have "hi = push_bit 32 s3 OR (s2 AND 0xFFFFFFFF)" and "lo = push_bit 32 s1 OR (r1 AND 0xFFFFFFFF)"
    using assms unfolding mul_def Let_def aL_def aH_def bL_def bH_def r1_def r2_def r3_def r4_def
      s1_def s2_def s3_def hi_dword_def lo_dword_def by (auto simp: or.commute)
  then have hi: "unat hi = (unat s3 mod 4294967296) * 4294967296 + unat s2 mod 4294967296"
    and lo: "unat lo = (unat s1 mod 4294967296) * 4294967296 + unat r1 mod 4294967296"
    by (simp_all add: unat_push_or unat_and_32)
  have xy: "unat x = unat aH * 4294967296 + unat aL" "unat y = unat bH * 4294967296 + unat bL"
    by (simp_all add: aL_def aH_def bL_def bH_def flip: dword_split)
  have dm: "z = z div 4294967296 * 4294967296 + z mod 4294967296" for z :: nat by simp
  have "unat x * unat y = unat aH * unat bH * 18446744073709551616
      + (unat aH * unat bL + unat aL * unat bH) * 4294967296 + unat aL * unat bL"
    unfolding xy by (simp add: algebra_simps)
  also have "\<dots> = (unat s3 * 4294967296 + unat s2 mod 4294967296) * 18446744073709551616 + unat lo"
    unfolding lo s3 distrib_right [symmetric]
    by (rule schoolbook [OF _ _ _ _ _ ]; (subst r1 [symmetric] r2 [symmetric] r3 [symmetric]
          r4 [symmetric] s1 [symmetric] s2 [symmetric])?; rule dm)
  finally have tot: "unat x * unat y
      = (unat s3 * 4294967296 + unat s2 mod 4294967296) * 18446744073709551616 + unat lo" .
  have "unat x * unat y < 18446744073709551616 * 18446744073709551616"
    by (rule mult_strict_mono) auto
  moreover have "unat s3 * 79228162514264337593543950336 \<le> unat x * unat y"
    unfolding tot by (simp add: algebra_simps)
  ultimately have "unat s3 * 79228162514264337593543950336 < 4294967296 * 79228162514264337593543950336"
    by simp
  then have "unat s3 < 4294967296" by simp
  with tot hi show ?thesis by simp
qed


lemma split_unique:
  fixes h l h' l' :: u64
  assumes "unat h * 2 ^ 64 + unat l = unat h' * 2 ^ 64 + unat l'"
  shows "h = h' \<and> l = l'"
proof -
  have "unat l = unat l'" "unat h = unat h'"
    using arg_cong [OF assms, of "\<lambda>z. z mod 18446744073709551616"]
      arg_cong [OF assms, of "\<lambda>z. z div 18446744073709551616"] by simp_all
  then show ?thesis by (simp add: word_unat_eq_iff)
qed

lemma div_with_reminder_correct:
  assumes "unat a < 4294967296" and "d \<noteq> 0" and "unat r < unat d"
  shows "\<exists>q r'. div_with_reminder a d r = Some (q, r') \<and> unat q < 4294967296 \<and> unat r' < unat d
    \<and> unat r * 4294967296 + unat a = unat q * unat d + unat r'"
proof -
  define x where "x = a OR push_bit 32 (ucast r)"
  define q where "q = x div ucast d"
  define r' :: u32 where "r' = ucast (x mod ucast d)"
  have ud: "unat (ucast d :: u64) = unat d" and ur: "unat (ucast r :: u64) = unat r"
    by (simp_all add: unat_ucast_up)
  have x: "unat x = unat r * 4294967296 + unat a"
    using assms(1) unfolding x_def by (subst or.commute) (simp add: unat_push_or ur)
  have q: "unat q = unat x div unat d" and m: "unat (x mod ucast d) = unat x mod unat d"
    by (simp_all add: q_def unat_div unat_mod ud)
  have dpos: "0 < unat d" using assms(2) by (simp add: unat_gt_0)
  have "unat x mod unat d < 4294967296"
    using dpos by (meson mod_less_divisor less_trans unat_lt_32)
  then have r': "unat r' = unat x mod unat d"
    by (simp add: r'_def unsigned_ucast_eq m take_bit_nat_eq_self)
  have "unat r * 4294967296 + unat a < (unat r + 1) * 4294967296" using assms(1) by simp
  also have "\<dots> \<le> unat d * 4294967296" using assms(3) by (intro mult_le_mono1) simp
  finally have "unat q < 4294967296"
    by (simp add: x q less_mult_imp_div_less mult.commute)
  moreover have "unat r * 4294967296 + unat a = unat q * unat d + unat r'"
    by (simp add: q r' flip: x)
  moreover have "unat r' < unat d" using dpos by (simp add: r')
  moreover have "div_with_reminder a d r = Some (q, r')"
    using assms(2) by (simp add: div_with_reminder_def Let_def q_def r'_def x_def)
  ultimately show ?thesis by blast
qed

lemma long_division:
  fixes a3 a2 a1 a0 d q3 q2 q1 q0 r3 r2 r1 r0 :: nat
  assumes "a3 = q3 * d + r3" and "r3 * 4294967296 + a2 = q2 * d + r2"
    and "r2 * 4294967296 + a1 = q1 * d + r1" and "r1 * 4294967296 + a0 = q0 * d + r0"
  shows "(a3 * 4294967296 + a2) * 18446744073709551616 + (a1 * 4294967296 + a0)
    = ((q3 * 4294967296 + q2) * 18446744073709551616 + (q1 * 4294967296 + q0)) * d + r0"
proof -
  have "a3 * 4294967296 + a2 = (q3 * 4294967296 + q2) * d + r2"
    using assms(1,2) by (simp add: algebra_simps)
  moreover have "r2 * 18446744073709551616 + a1 * 4294967296 + a0 = (q1 * 4294967296 + q0) * d + r0"
  proof -
    have "r2 * 18446744073709551616 + a1 * 4294967296 + a0 = (r2 * 4294967296 + a1) * 4294967296 + a0"
      by simp
    also have "\<dots> = q1 * d * 4294967296 + (r1 * 4294967296 + a0)"
      unfolding assms(3) by (simp add: algebra_simps)
    finally show ?thesis unfolding assms(4) by (simp add: algebra_simps)
  qed
  ultimately show ?thesis by (simp add: algebra_simps)
qed

lemma div128_32_correct:
  assumes "d \<noteq> 0"
  shows "\<exists>qh ql r. div128_32 h l d = Some (qh, ql, r) \<and> unat r < unat d
    \<and> unat h * 2 ^ 64 + unat l = (unat qh * 2 ^ 64 + unat ql) * unat d + unat r"
proof -
  have d: "unat (0 :: u32) < unat d" using assms by (simp add: unat_gt_0)
  obtain q3 r3 where s3: "div_with_reminder (hi_dword h) d 0 = Some (q3, r3)" "unat q3 < 4294967296"
      "unat r3 < unat d" "unat (hi_dword h) = unat q3 * unat d + unat r3"
    using div_with_reminder_correct [OF hi_dword_lt [of h] assms d] by auto
  obtain q2 r2 where s2: "div_with_reminder (lo_dword h) d r3 = Some (q2, r2)" "unat q2 < 4294967296"
      "unat r2 < unat d" "unat r3 * 4294967296 + unat (lo_dword h) = unat q2 * unat d + unat r2"
    using div_with_reminder_correct [OF lo_dword_lt [of h] assms s3(3)] by auto
  obtain q1 r1 where s1: "div_with_reminder (hi_dword l) d r2 = Some (q1, r1)" "unat q1 < 4294967296"
      "unat r1 < unat d" "unat r2 * 4294967296 + unat (hi_dword l) = unat q1 * unat d + unat r1"
    using div_with_reminder_correct [OF hi_dword_lt [of l] assms s2(3)] by auto
  obtain q0 r0 where s0: "div_with_reminder (lo_dword l) d r1 = Some (q0, r0)" "unat q0 < 4294967296"
      "unat r0 < unat d" "unat r1 * 4294967296 + unat (lo_dword l) = unat q0 * unat d + unat r0"
    using div_with_reminder_correct [OF lo_dword_lt [of l] assms s1(3)] by auto
  have qh: "unat (push_bit 32 q3 OR q2) = unat q3 * 4294967296 + unat q2"
    and ql: "unat (push_bit 32 q1 OR q0) = unat q1 * 4294967296 + unat q0"
    using s3(2) s2(2) s1(2) s0(2) by (simp_all add: unat_push_or)
  have "unat h * 2 ^ 64 + unat l
      = ((unat q3 * 4294967296 + unat q2) * 2 ^ 64 + (unat q1 * 4294967296 + unat q0)) * unat d + unat r0"
    unfolding dword_split [of h] dword_split [of l]
    using long_division [OF s3(4) s2(4) s1(4) s0(4)] by simp
  then show ?thesis
    using s3(1) s2(1) s1(1) s0(1,3) by (simp add: div128_32_def qh ql)
qed

subsection \<open>Correctness of rotations and byte swapping\<close>

lemma rol64_rotl: "rol64 x r = word_rotl (nat (r mod 64)) x"
proof -
  have "nat (- r mod 64) = (64 - nat (r mod 64)) mod 64"
    by (simp add: zmod_zminus1_eq_if nat_diff_distrib)
  then show ?thesis unfolding rol64_def and_mask_63 by (intro shifts_rotl) (auto simp: nat_less_iff)
qed

lemma rol32_rotl: "rol32 x r = word_rotl (nat (r mod 32)) x"
proof -
  have "nat (- r mod 32) = (32 - nat (r mod 32)) mod 32"
    by (simp add: zmod_zminus1_eq_if nat_diff_distrib)
  then show ?thesis unfolding rol32_def and_mask_31 by (intro shifts_rotl) (auto simp: nat_less_iff)
qed

lemma swap32_bit: "j < 4 \<Longrightarrow> k < 8 \<Longrightarrow> bit (swap32 x) (8 * j + k) = bit x (8 * (3 - j) + k)"
  by (simp only: nat_lt_8 nat_lt_4, elim disjE)
    (simp_all add: swap32_def Let_def bit_simps flip: numeral_2_eq_2)

lemma SWAP32_bit: "j < 4 \<Longrightarrow> k < 8 \<Longrightarrow> bit (SWAP32 x) (8 * j + k) = bit x (8 * (3 - j) + k)"
  by (simp only: nat_lt_8 nat_lt_4, elim disjE)
    (simp_all add: SWAP32_def Let_def bit_simps flip: numeral_2_eq_2)

lemma swap64_bit: "j < 8 \<Longrightarrow> k < 8 \<Longrightarrow> bit (swap64 x) (8 * j + k) = bit x (8 * (7 - j) + k)"
  by (simp only: nat_lt_8, elim disjE)
    (simp_all add: swap64_def Let_def bit_simps flip: numeral_2_eq_2)

lemma SWAP64_bit: "j < 8 \<Longrightarrow> k < 8 \<Longrightarrow> bit (SWAP64 x) (8 * j + k) = bit x (8 * (7 - j) + k)"
  by (simp only: nat_lt_8, elim disjE)
    (simp_all add: SWAP64_def Let_def bit_simps flip: numeral_2_eq_2)


lemma swap32_bytes: "bytes_of_word 4 (swap32 x) = rev (bytes_of_word 4 x)"
  by (rule bytes_swapI) (simp add: swap32_bit)

lemma SWAP32_bytes: "bytes_of_word 4 (SWAP32 x) = rev (bytes_of_word 4 x)"
  by (rule bytes_swapI) (simp add: SWAP32_bit)

lemma swap64_bytes: "bytes_of_word 8 (swap64 x) = rev (bytes_of_word 8 x)"
  by (rule bytes_swapI) (simp add: swap64_bit)

lemma SWAP64_bytes: "bytes_of_word 8 (SWAP64 x) = rev (bytes_of_word 8 x)"
  by (rule bytes_swapI) (simp add: SWAP64_bit)

lemma swap64_swap64 [simp]: "swap64 (swap64 x) = x"
  by (rule bytes_of_word_inj [of 8]) (simp_all add: swap64_bytes)

lemma swap32_swap32 [simp]: "swap32 (swap32 x) = x"
  by (rule bytes_of_word_inj [of 4]) (simp_all add: swap32_bytes)

subsection \<open>Properties\<close>

text \<open>
  The portable 32-bit schoolbook multiplication of \<open>difficulty.cpp\<close> and the carry-tracking
  \<open>mul128\<close> of \<open>int-util.h\<close> compute the same 128-bit product on all inputs.
\<close>

theorem mul_eq_mul128: "mul x y = mul128 x y"
proof -
  obtain h l where m: "mul x y = (h, l)" by fastforce
  obtain h' l' where m': "mul128 x y = (h', l')" by fastforce
  show ?thesis
    using split_unique [of h l h' l'] mul_correct [OF m] mul128_correct [OF m'] m m' by simp
qed

text \<open>
  The 128 by 32 bit long division undoes the 64 by 64 bit multiplication: dividing the
  product of \<open>x\<close> and a non-zero 32-bit \<open>d\<close> by \<open>d\<close> is defined and returns quotient \<open>x\<close> with an
  empty upper half and remainder 0.
\<close>

theorem div128_32_mul128:
  assumes "d \<noteq> 0" and "mul128 x (ucast d) = (hi, lo)"
  shows "div128_32 hi lo d = Some (0, x, 0)"
proof -
  obtain qh ql r where div: "div128_32 hi lo d = Some (qh, ql, r)" and r: "unat r < unat d"
    and eq: "unat hi * 2 ^ 64 + unat lo = (unat qh * 2 ^ 64 + unat ql) * unat d + unat r"
    using div128_32_correct [OF assms(1)] by blast
  have "unat x * unat d = (unat qh * 2 ^ 64 + unat ql) * unat d + unat r"
    using mul128_correct [OF assms(2)] eq by (simp add: unat_ucast_up)
  from division_unique [OF this r] have "unat (0 :: u64) * 2 ^ 64 + unat x = unat qh * 2 ^ 64 + unat ql" and "r = 0"
    by (simp_all add: word_unat_eq_iff)
  with div split_unique [of 0 x qh ql] show ?thesis by simp
qed

theorem div128_32_mul128_witness:
  "(10 :: u32) \<noteq> 0 \<and> mul128 0xFFFFFFFFFFFFFFFF (ucast (10 :: u32)) = (9, 0xFFFFFFFFFFFFFFF6)
   \<and> div128_32 9 0xFFFFFFFFFFFFFFF6 10 = Some (0, 0xFFFFFFFFFFFFFFFF, 0)"
proof -
  have m: "mul128 0xFFFFFFFFFFFFFFFF (ucast (10 :: u32)) = (9, 0xFFFFFFFFFFFFFFF6)" by code_simp
  show ?thesis using div128_32_mul128 [OF _ m] m by simp
qed

text \<open>
  Both ways the code swaps a 64-bit word reverse its eight bytes: the three-step \<open>swap64\<close>
  and the eight-mask macro \<open>SWAP64\<close> agree, and swapping a buffer twice restores it.
\<close>

theorem swap64_reverses_bytes:
  "bytes_of_word 8 (swap64 x) = rev (bytes_of_word 8 x) \<and> SWAP64 x = swap64 x
   \<and> Option.bind (mem_inplace_swap64 mem (length mem)) (\<lambda>m. mem_inplace_swap64 m (length m)) = Some mem"
proof (intro conjI)
  show "SWAP64 x = swap64 x"
    by (rule bytes_of_word_inj [of 8]) (simp_all add: swap64_bytes SWAP64_bytes)
qed (simp_all add: swap64_bytes mem_inplace_swap64_def comp_def)

end
