(* ===== verification/Varint.thy ===== *)
theory Varint
  imports Prelude "HOL-Library.Sublist"
begin

text \<open>
  \<open>src/common/varint.h\<close>: the variable-length integers of the wire and disk formats. The
  templates are instantiated at unsigned types of 8 to 64 bits; the value of type \<open>T\<close> is a
  natural number and \<open>bits\<close> is the template parameter of \<open>read_varint\<close>, which the wrapper sets to
  the width of \<open>T\<close>. Reading and writing are inverse to each other: every value is read back, and
  a terminated input is accepted exactly when it is what the writer produces.
\<close>

definition EVARINT_OVERFLOW :: int where "EVARINT_OVERFLOW = - 1"

definition EVARINT_REPRESENT :: int where "EVARINT_REPRESENT = - 2"

lemma drop_bit_7_less [termination_simp]: "0x80 \<le> i \<Longrightarrow> drop_bit 7 i < (i :: nat)"
  by (simp add: drop_bit_eq_div)

fun write_varint :: "nat \<Rightarrow> blob" where
  "write_varint i =
     (if 0x80 \<le> i then ((of_nat i AND 0x7f) OR 0x80) # write_varint (drop_bit 7 i)
      else [of_nat i])"

declare write_varint.simps [simp del]

definition get_varint_data :: "nat \<Rightarrow> blob" where
  "get_varint_data v = write_varint v"

text \<open>
  The loop of \<open>read_varint\<close>. The result is the returned code, the value left in \<open>write\<close> and the
  unread input. The value added to \<open>write\<close> is cut to the width of the type.
\<close>

fun read_varint_loop :: "nat \<Rightarrow> nat \<Rightarrow> nat \<Rightarrow> nat \<Rightarrow> blob \<Rightarrow> int \<times> nat \<times> blob" where
  "read_varint_loop bits shift rd wr [] = (int rd, wr, [])"
| "read_varint_loop bits shift rd wr (byte # rest) =
     (if bits \<le> shift + 7 \<and> push_bit (bits - shift) 1 \<le> unat byte then (EVARINT_OVERFLOW, wr, rest)
      else if byte = 0 \<and> shift \<noteq> 0 then (EVARINT_REPRESENT, wr, rest)
      else
        let wr' = wr OR take_bit bits (push_bit shift (unat (byte AND 0x7f)))
        in if byte AND 0x80 = 0 then (int (Suc rd), wr', rest)
           else read_varint_loop bits (shift + 7) (Suc rd) wr' rest)"

definition read_varint :: "nat \<Rightarrow> blob \<Rightarrow> int \<times> nat \<times> blob" where
  "read_varint bits input = read_varint_loop bits 0 0 0 input"

subsection \<open>Bytes of a varint\<close>

lemma unat_and_7f: "unat (b AND 0x7f :: u8) = unat b mod 128"
  using unat_and_mask [of b 7] by (simp add: mask_eq_exp_minus_1)

lemma bit_7_iff: "bit (b :: u8) 7 \<longleftrightarrow> 128 \<le> unat b"
proof -
  have "bit b 7 \<longleftrightarrow> odd (unat b div 128)"
    using bit_unsigned_iff [of b 7, where ?'a = nat] by (simp add: bit_iff_odd [of "unat b"])
  moreover have "unat b div 128 < 2" using unat_lt_8 [of b] by (simp add: less_mult_imp_div_less)
  ultimately show ?thesis by (auto simp: less_2_cases_iff div_eq_0_iff)
qed

lemma and_80_iff: "(b AND 0x80 :: u8) = 0 \<longleftrightarrow> unat b < 128"
proof -
  have "(b AND 0x80 :: u8) = 0 \<longleftrightarrow> \<not> bit b 7"
    using and_exp_eq_0_iff_not_bit [of b 7] by simp
  then show ?thesis by (simp add: bit_7_iff not_le)
qed

lemma cont_byte:
  fixes i :: nat defines "b \<equiv> (of_nat i AND 0x7f) OR 0x80 :: u8"
  shows "unat b = i mod 128 + 128"
proof -
  have "(of_nat i AND 0x7f :: u8) AND 0x80 = 0" by (simp add: and.assoc)
  then have "b = (of_nat i AND 0x7f) + 0x80" by (simp add: b_def disjunctive_add_eq_or)
  moreover have "unat (of_nat i AND 0x7f :: u8) = i mod 128"
    by (simp add: unat_and_7f unat_of_nat mod_mod_cancel)
  moreover have "i mod 128 + 128 < (256::nat)" by simp
  ultimately show ?thesis by (simp add: unat_add_no_overflow)
qed

lemma or_push_bit_nat:
  "w < 2 ^ s \<Longrightarrow> w OR push_bit s x = w + push_bit s (x :: nat)"
proof -
  assume "w < 2 ^ s"
  then have "take_bit s w = w" by (rule take_bit_nat_eq_self)
  then have "\<And>k. bit w k \<Longrightarrow> k < s" by (metis bit_take_bit_iff)
  then have "w AND push_bit s x = 0" by (force simp: bit_eq_iff bit_simps)
  then show ?thesis by (simp add: disjunctive_add_eq_or)
qed

lemma write_varint_small: "i < 128 \<Longrightarrow> write_varint i = [of_nat i]"
  by (simp add: write_varint.simps)

lemma cut_shift:
  assumes "x < 2 ^ (bits - s)" and "s \<le> bits"
  shows "take_bit bits (push_bit s x) = push_bit s (x :: nat)"
proof -
  have "x * 2 ^ s < 2 ^ (bits - s) * 2 ^ s" using assms(1) by simp
  also have "\<dots> = 2 ^ bits" using assms(2) by (simp flip: power_add)
  finally show ?thesis by (simp add: take_bit_nat_eq_self push_bit_eq_mult)
qed

lemma power_split_7: "s + 7 < bits \<Longrightarrow> 2 ^ (bits - s) = (2 :: nat) ^ (bits - (s + 7)) * 128"
  using power_add [of "2 :: nat" "bits - (s + 7)" 7] by simp

lemma acc_bound:
  assumes "w < 2 ^ s"
  shows "w + (x mod 128) * 2 ^ s < (2 :: nat) ^ (s + 7)"
proof -
  have "w + (x mod 128) * 2 ^ s < (x mod 128 + 1) * 2 ^ s" using assms by simp
  also have "\<dots> \<le> 128 * (2 :: nat) ^ s" by (intro mult_le_mono1) (simp add: Suc_leI)
  finally show ?thesis by (simp add: power_add)
qed

lemma read_write_loop:
  assumes "i < 2 ^ (bits - s)" and "s \<le> bits" and "w < 2 ^ s" and "i = 0 \<longrightarrow> s = 0"
  shows "read_varint_loop bits s rd w (write_varint i @ rest)
    = (int (rd + length (write_varint i)), w + i * 2 ^ s, rest)"
  using assms
proof (induction i arbitrary: s rd w rule: write_varint.induct)
  case (1 i)
  have "i mod 128 < 2 ^ (bits - s)" using 1(2) by (meson mod_less_eq_dividend order.strict_trans1)
  note cut = cut_shift [OF this 1(3)]
  have acc: "w OR push_bit s (i mod 128) = w + (i mod 128) * 2 ^ s"
    using or_push_bit_nat [OF 1(4)] by (simp add: push_bit_eq_mult)
  show ?case
  proof (cases "128 \<le> i")
    case True
    define b :: u8 where "b = (of_nat i AND 0x7f) OR 0x80"
    have b: "unat b = i mod 128 + 128" unfolding b_def by (rule cont_byte)
    have "s + 7 < bits"
    proof (rule ccontr)
      assume "\<not> s + 7 < bits"
      then have "2 ^ (bits - s) \<le> (2 :: nat) ^ 7" by (intro power_increasing) auto
      with True 1(2) show False by simp
    qed
    moreover have "b \<noteq> 0" using b by auto
    moreover have "\<not> unat b < 128" using b by simp
    moreover have "drop_bit 7 i < 2 ^ (bits - (s + 7))"
      using 1(2) power_split_7 [OF \<open>s + 7 < bits\<close>] by (simp add: drop_bit_eq_div less_mult_imp_div_less)
    moreover note acc_bound [OF 1(4), of i]
    moreover have "drop_bit 7 i \<noteq> 0" using True by (simp add: drop_bit_eq_div div_eq_0_iff)
    moreover have "i mod 128 * 2 ^ s + drop_bit 7 i * 2 ^ (s + 7) = i * 2 ^ s"
    proof -
      have "drop_bit 7 i * 2 ^ (s + 7) = (i div 128 * 128) * 2 ^ s"
        by (simp add: power_add drop_bit_eq_div)
      then have "i mod 128 * 2 ^ s + drop_bit 7 i * 2 ^ (s + 7) = (i mod 128 + i div 128 * 128) * 2 ^ s"
        by (simp only: distrib_right)
      then show ?thesis by simp
    qed
    ultimately show ?thesis
      using 1(1) [of "s + 7" "w + (i mod 128) * 2 ^ s" "Suc rd"] True
      by (simp add: write_varint.simps [of i] and_80_iff unat_and_7f b cut acc flip: b_def)
  next
    case False
    then have ib: "unat (of_nat i :: u8) = i" by (simp add: unat_of_nat)
    have "(of_nat i :: u8) = 0 \<longleftrightarrow> i = 0" using ib by (metis unat_0 unat_eq_zero)
    then show ?thesis
      using 1 False ib cut acc
      by (auto simp: write_varint_small and_80_iff unat_and_7f push_bit_eq_mult)
  qed
qed

lemma write_varint_cons:
  assumes "128 \<le> unat b" and "i \<noteq> 0"
  shows "b # write_varint i = write_varint (unat b mod 128 + 128 * i)"
proof -
  let ?j = "unat b mod 128 + 128 * i"
  have "unat b mod 128 = unat b - 128"
    using assms(1) unat_lt_8 [of b] by (simp add: le_mod_geq del: unat_lt_8)
  moreover have "?j mod 128 = unat b mod 128" by simp
  ultimately have "unat ((of_nat ?j AND 0x7f) OR 0x80 :: u8) = unat b"
    unfolding cont_byte using assms(1) by linarith
  then have "(of_nat ?j AND 0x7f) OR 0x80 = b" by (simp add: word_unat_eq_iff)
  moreover have "128 \<le> ?j" using assms(2) by simp
  moreover have "drop_bit 7 ?j = i" by (simp add: drop_bit_eq_div)
  ultimately show ?thesis by (simp only: write_varint.simps [of ?j] if_True)
qed

lemma read_loop_canonical:
  assumes "read_varint_loop bits s rd w bs = (r, v, rest)" and "0 < r"
    and "s \<le> bits" and "w < 2 ^ s" and "rest \<noteq> [] \<or> bs \<noteq> [] \<and> unat (last bs) < 128"
  shows "\<exists>i. bs = write_varint i @ rest \<and> v = w + i * 2 ^ s \<and> i < 2 ^ (bits - s) \<and> (i = 0 \<longrightarrow> s = 0)"
  using assms
proof (induction bs arbitrary: s rd w)
  case (Cons b bs)
  let ?x = "unat b mod 128"
  have no_over: "bits \<le> s + 7 \<Longrightarrow> unat b < 2 ^ (bits - s)" and nz: "b = 0 \<Longrightarrow> s = 0"
    using Cons.prems(1,2) by (auto simp: EVARINT_OVERFLOW_def EVARINT_REPRESENT_def push_bit_eq_mult
        not_le split: if_splits)
  show ?case
  proof (cases "unat b < 128")
    case True
    have bnd: "unat b < 2 ^ (bits - s)"
    proof (cases "bits \<le> s + 7")
      case False
      then have "(2 :: nat) ^ 7 \<le> 2 ^ (bits - s)" by (intro power_increasing) auto
      with True show ?thesis by simp
    qed (rule no_over)
    have "b = of_nat (unat b)" by simp
    with True have "write_varint (unat b) = [b]" by (simp add: write_varint_small)
    moreover have "unat b = 0 \<longrightarrow> s = 0" using nz by (simp add: unat_eq_zero)
    moreover have "rest = bs" "v = w + unat b * 2 ^ s"
      using Cons.prems True cut_shift [OF bnd Cons.prems(3)] or_push_bit_nat [OF Cons.prems(4), of "unat b"]
      by (auto simp: and_80_iff unat_and_7f EVARINT_OVERFLOW_def EVARINT_REPRESENT_def push_bit_eq_mult
          Let_def split: if_splits)
    ultimately show ?thesis using bnd by (intro exI [of _ "unat b"]) simp
  next
    case False
    have s7: "s + 7 < bits"
    proof (rule ccontr)
      assume "\<not> s + 7 < bits"
      then have "bits - s \<le> 7" by simp
      then have "2 ^ (bits - s) \<le> (2 :: nat) ^ 7" by (rule power_increasing) simp
      with False no_over \<open>\<not> s + 7 < bits\<close> show False by simp
    qed
    have "?x < 2 ^ (bits - s)"
      using power_split_7 [OF s7] by (auto intro: order.strict_trans2 [of _ 128])
    note cut = cut_shift [OF this Cons.prems(3)]
    have "read_varint_loop bits (s + 7) (Suc rd) (w + ?x * 2 ^ s) bs = (r, v, rest)"
      using Cons.prems(1,2) False s7 nz cut or_push_bit_nat [OF Cons.prems(4), of ?x]
      by (auto simp: and_80_iff unat_and_7f EVARINT_OVERFLOW_def EVARINT_REPRESENT_def push_bit_eq_mult
          Let_def split: if_splits)
    moreover have "rest \<noteq> [] \<or> bs \<noteq> [] \<and> unat (last bs) < 128"
      using Cons.prems(5) False by (auto split: if_splits)
    ultimately obtain i where i: "bs = write_varint i @ rest" "v = w + ?x * 2 ^ s + i * 2 ^ (s + 7)"
        "i < 2 ^ (bits - (s + 7))" "i \<noteq> 0"
      using Cons.IH [of "s + 7" "Suc rd" "w + ?x * 2 ^ s"] Cons.prems(2) s7 acc_bound [OF Cons.prems(4), of "unat b"]
      by auto
    have "b # bs = write_varint (?x + 128 * i) @ rest"
      using write_varint_cons [of b i] i False by simp
    moreover have "v = w + (?x + 128 * i) * 2 ^ s" unfolding i(2) by (simp add: power_add algebra_simps)
    moreover have "?x + 128 * i < 2 ^ (bits - s)"
    proof -
      have "128 * (i + 1) \<le> 128 * 2 ^ (bits - (s + 7))" using i(3) by (intro mult_le_mono2) simp
      then show ?thesis unfolding power_split_7 [OF s7] by (simp add: algebra_simps)
    qed
    moreover have "?x + 128 * i = 0 \<longrightarrow> s = 0" using i(4) by simp
    ultimately show ?thesis by (intro exI [of _ "?x + 128 * i"] conjI)
  qed
qed simp

lemma read_loop_consumes:
  "read_varint_loop bits s rd w bs = (r, v, rest) \<Longrightarrow> 0 < r
   \<Longrightarrow> r = int (rd + length bs - length rest) \<and> suffix rest bs \<and> length rest \<le> length bs"
proof (induction bs arbitrary: s rd w)
  case (Cons b bs)
  then show ?case
    by (auto simp: EVARINT_OVERFLOW_def EVARINT_REPRESENT_def Let_def suffix_Cons Suc_diff_le
        split: if_splits dest!: Cons.IH)
qed auto

lemma read_varint_consumes:
  "read_varint bits bs = (r, v, rest) \<Longrightarrow> 0 < r \<Longrightarrow> r = int (length bs - length rest) \<and> suffix rest bs"
  using read_loop_consumes [of bits 0 0 0 bs r v rest] by (simp add: read_varint_def)

lemma length_write_varint: "i < 2 ^ (7 * n) \<Longrightarrow> 0 < n \<Longrightarrow> length (write_varint i) \<le> n"
proof (induction i arbitrary: n rule: write_varint.induct)
  case (1 i)
  show ?case
  proof (cases "128 \<le> i")
    case True
    with 1(2) have "1 < n" by (cases "n \<le> 1") (auto simp: le_Suc_eq)
    then obtain m where n: "n = Suc m" and m: "0 < m" by (cases n) auto
    have "drop_bit 7 i < 2 ^ (7 * m)"
      using 1(2) by (simp add: n drop_bit_eq_div power_add less_mult_imp_div_less mult.commute)
    then show ?thesis using 1(1) [OF True _ m] True n by (simp add: write_varint.simps [of i])
  qed (use 1(3) in \<open>simp add: write_varint_small\<close>)
qed

lemmas read_varint_eval = read_varint_def EVARINT_OVERFLOW_def EVARINT_REPRESENT_def Let_def
  push_bit_eq_mult take_bit_eq_mod

subsection \<open>Properties\<close>

text \<open>
  Reading undoes writing: a value of the given width is read back from its encoding, whatever
  follows it; the returned count is the length of the encoding and the rest stays unread. A 64-bit
  value takes at most ten bytes.
\<close>

theorem read_write_varint:
  assumes "i < 2 ^ bits"
  shows "read_varint bits (write_varint i @ rest) = (int (length (write_varint i)), i, rest)
    \<and> (bits \<le> 64 \<longrightarrow> length (write_varint i) \<le> 10)"
proof -
  have "length (write_varint i) \<le> 10" if "bits \<le> 64"
  proof -
    have "(2 :: nat) ^ bits \<le> 2 ^ (7 * 10)" by (rule power_increasing) (use that in auto)
    with assms show ?thesis by (intro length_write_varint) auto
  qed
  then show ?thesis using read_write_loop [of i bits 0 0 0 rest] assms by (simp add: read_varint_def)
qed

theorem read_write_varint_witness:
  "read_varint 64 (write_varint 300 @ [7]) = (2, 300, [7])"
proof -
  have "write_varint 300 = [0xAC, 0x02]" by (simp add: write_varint.simps)
  then show ?thesis using read_write_varint [of 300 64 "[7]"] by simp
qed

text \<open>
  Encodings are canonical: whenever \<open>read_varint\<close> reports success on an input whose last byte
  read ends the number, the bytes read are exactly those that \<open>write_varint\<close> produces for the
  value returned, and that value fits the width. Two different byte strings never denote one
  value.
\<close>

theorem read_varint_canonical:
  assumes "read_varint bits bs = (r, v, rest)" and "0 < r"
    and "rest \<noteq> [] \<or> unat (last bs) < 128"
  shows "bs = write_varint v @ rest \<and> v < 2 ^ bits"
proof -
  have "bs \<noteq> []" using assms(1,2) by (auto simp: read_varint_def)
  then show ?thesis
    using read_loop_canonical [of bits 0 0 0 bs r v rest] assms by (auto simp: read_varint_def)
qed

theorem read_varint_canonical_witness:
  "read_varint 64 [0xAC, 0x02, 0x07] = (2, 300, [0x07])
   \<and> [0xAC, 0x02, 0x07] = write_varint 300 @ [0x07] \<and> (300 :: nat) < 2 ^ 64"
proof -
  have r: "read_varint 64 [0xAC, 0x02, 0x07] = (2, 300, [0x07])" by (simp add: read_varint_eval)
  show ?thesis using read_varint_canonical [OF r] r by simp
qed

text \<open>
  An input that stops in the middle of a number is not reported: \<open>read_varint\<close> returns the number
  of bytes it has seen and the value collected so far.
\<close>

lemma read_varint_truncated: "read_varint 64 [0xAC] = (1, 44, [])"
  by (simp add: read_varint_eval)

text \<open>The values of the two byte strings that the header comment of \<open>varint.h\<close> discusses.\<close>

lemma read_varint_header_examples:
  "read_varint 64 [0x80, 0x02] = (2, 0x100, []) \<and> read_varint 64 [0xff, 0x02] = (2, 0x17f, [])"
  by (simp add: read_varint_eval)

end
