(* ===== verification/Keccak.thy ===== *)
theory Keccak
  imports Int_Util
begin

text \<open>
  \<open>src/crypto/keccak.c\<close> and \<open>src/crypto/hash.c\<close>: the Keccak permutation and sponge and
  \<open>cn_fast_hash\<close>, the hash of every identifier in the system. The state \<open>uint64_t st[25]\<close> is a
  list of 25 words that the loops update in place, in the order of the C code. The in-place round
  is proved equal to the five step mappings of the Keccak specification, and the tables of
  rotation offsets, lane positions and round constants are proved to be the ones the specification
  generates.
\<close>

subsection \<open>The permutation\<close>

definition keccakf_rndc :: "u64 list" where
  "keccakf_rndc =
    [0x0000000000000001, 0x0000000000008082, 0x800000000000808a,
     0x8000000080008000, 0x000000000000808b, 0x0000000080000001,
     0x8000000080008081, 0x8000000000008009, 0x000000000000008a,
     0x0000000000000088, 0x0000000080008009, 0x000000008000000a,
     0x000000008000808b, 0x800000000000008b, 0x8000000000008089,
     0x8000000000008003, 0x8000000000008002, 0x8000000000000080,
     0x000000000000800a, 0x800000008000000a, 0x8000000080008081,
     0x8000000000008080, 0x0000000080000001, 0x8000000080008008]"

definition keccakf_rotc :: "nat list" where
  "keccakf_rotc =
    [1, 3, 6, 10, 15, 21, 28, 36, 45, 55, 2, 14,
     27, 41, 56, 8, 25, 43, 62, 18, 39, 61, 20, 44]"

definition keccakf_piln :: "nat list" where
  "keccakf_piln =
    [10, 7, 11, 17, 18, 3, 5, 16, 8, 21, 24, 4,
     15, 23, 19, 13, 12, 2, 20, 14, 22, 9, 6, 1]"

definition ROTL64 :: "u64 \<Rightarrow> nat \<Rightarrow> u64" where
  "ROTL64 x y = push_bit y x OR drop_bit (64 - y) x"

text \<open>The four stages of one round, each a loop of \<open>keccakf\<close> over the state.\<close>

definition keccakf_theta :: "u64 list \<Rightarrow> u64 list" where
  "keccakf_theta st =
     (let bc = map (\<lambda>i. st ! i XOR st ! (i + 5) XOR st ! (i + 10) XOR st ! (i + 15) XOR st ! (i + 20)) [0..<5]
      in fold (\<lambda>i st.
           let t = bc ! ((i + 4) mod 5) XOR ROTL64 (bc ! ((i + 1) mod 5)) 1
           in fold (\<lambda>j st. st[j + i := st ! (j + i) XOR t]) [0, 5, 10, 15, 20] st) [0..<5] st)"

definition keccakf_rho_pi :: "u64 list \<Rightarrow> u64 list" where
  "keccakf_rho_pi st =
     fst (fold (\<lambda>i (st, t).
        let j = keccakf_piln ! i; bc0 = st ! j
        in (st[j := ROTL64 t (keccakf_rotc ! i)], bc0)) [0..<24] (st, st ! 1))"

definition keccakf_chi :: "u64 list \<Rightarrow> u64 list" where
  "keccakf_chi st =
     fold (\<lambda>j st.
       let bc = map (\<lambda>i. st ! (j + i)) [0..<5]
       in fold (\<lambda>i st. st[j + i := st ! (j + i) XOR (NOT (bc ! ((i + 1) mod 5)) AND bc ! ((i + 2) mod 5))])
            [0..<5] st) [0, 5, 10, 15, 20] st"

definition keccakf_iota :: "nat \<Rightarrow> u64 list \<Rightarrow> u64 list" where
  "keccakf_iota round st = st[0 := st ! 0 XOR keccakf_rndc ! round]"

definition keccakf :: "u64 list \<Rightarrow> nat \<Rightarrow> u64 list" where
  "keccakf st rounds =
     fold (\<lambda>round st. keccakf_iota round (keccakf_chi (keccakf_rho_pi (keccakf_theta st)))) [0..<rounds] st"

subsection \<open>The sponge\<close>

definition KECCAK_ROUNDS :: nat where "KECCAK_ROUNDS = 24"
definition HASH_SIZE :: nat where "HASH_SIZE = 32"
definition HASH_DATA_AREA :: nat where "HASH_DATA_AREA = 136"

text \<open>
  \<open>((uint64_t * ) p)[i]\<close> on a little-endian machine, and the state read as \<open>mdlen\<close> bytes.
\<close>

definition load64 :: "blob \<Rightarrow> nat \<Rightarrow> u64" where
  "load64 p i = word_of_bytes (take 8 (drop (8 * i) p))"

definition state_bytes :: "u64 list \<Rightarrow> blob" where
  "state_bytes st = concat (map (bytes_of_word 8) st)"

definition keccak_xor_block :: "u64 list \<Rightarrow> blob \<Rightarrow> nat \<Rightarrow> u64 list" where
  "keccak_xor_block st p rsizw = fold (\<lambda>i st. st[i := st ! i XOR load64 p i]) [0..<rsizw] st"

text \<open>
  The absorbing loop: it consumes whole blocks of \<open>rsiz\<close> bytes and leaves the state and the input
  that remains. A block size of 0 would not end; it does not occur, since \<open>mdlen\<close> is below 100 or
  the size of the state.
\<close>

function keccak_absorb :: "nat \<Rightarrow> u64 list \<Rightarrow> blob \<Rightarrow> u64 list \<times> blob" where
  "keccak_absorb rsiz st p =
     (if 0 < rsiz \<and> rsiz \<le> length p
      then keccak_absorb rsiz (keccakf (keccak_xor_block st p (rsiz div 8)) KECCAK_ROUNDS) (drop rsiz p)
      else (st, p))"
  by pat_completeness auto
termination by (relation "measure (\<lambda>(rsiz, st, p). length p)") auto

declare keccak_absorb.simps [simp del]

definition keccak_rsiz :: "nat \<Rightarrow> nat" where
  "keccak_rsiz mdlen = (if mdlen = 200 then HASH_DATA_AREA else 200 - 2 * mdlen)"

definition keccak_pad :: "nat \<Rightarrow> blob \<Rightarrow> blob" where
  "keccak_pad rsiz p =
     (let temp = p @ [1] @ replicate (rsiz - (length p + 1)) 0
      in temp[rsiz - 1 := temp ! (rsiz - 1) OR 0x80])"

definition keccak :: "blob \<Rightarrow> nat \<Rightarrow> blob" where
  "keccak input mdlen =
     (let rsiz = keccak_rsiz mdlen;
          (st, rest) = keccak_absorb rsiz (replicate 25 0) input;
          st = keccakf (keccak_xor_block st (keccak_pad rsiz rest) (rsiz div 8)) KECCAK_ROUNDS
      in take mdlen (state_bytes st))"

definition keccak1600 :: "blob \<Rightarrow> blob" where
  "keccak1600 input = keccak input 200"

definition hash_permutation :: "u64 list \<Rightarrow> u64 list" where
  "hash_permutation state = keccakf state 24"

definition hash_process :: "blob \<Rightarrow> blob" where
  "hash_process buf = keccak1600 buf"

definition cn_fast_hash_bytes :: "blob \<Rightarrow> blob" where
  "cn_fast_hash_bytes data = take HASH_SIZE (hash_process data)"

definition cn_fast_hash :: "blob \<Rightarrow> hash" where
  "cn_fast_hash data = word_of_bytes (cn_fast_hash_bytes data)"


subsection \<open>The specification of the permutation\<close>

definition lane :: "u64 list \<Rightarrow> nat \<Rightarrow> nat \<Rightarrow> u64" where
  "lane A x y = A ! (x + 5 * y)"

definition lanes :: "(nat \<Rightarrow> nat \<Rightarrow> u64) \<Rightarrow> u64 list" where
  "lanes f = map (\<lambda>k. f (k mod 5) (k div 5)) [0..<25]"

definition column :: "u64 list \<Rightarrow> nat \<Rightarrow> u64" where
  "column A x = lane A x 0 XOR lane A x 1 XOR lane A x 2 XOR lane A x 3 XOR lane A x 4"

definition spec_theta :: "u64 list \<Rightarrow> u64 list" where
  "spec_theta A = lanes (\<lambda>x y. lane A x y
     XOR (column A ((x + 4) mod 5) XOR word_rotl 1 (column A ((x + 1) mod 5))))"

text \<open>Lane \<open>t\<close> of the walk that starts at (1, 0) is rotated by the triangular number of \<open>t + 1\<close>.\<close>

primrec rho_walk :: "nat \<Rightarrow> nat \<times> nat" where
  "rho_walk 0 = (1, 0)"
| "rho_walk (Suc t) = (case rho_walk t of (x, y) \<Rightarrow> (y, (2 * x + 3 * y) mod 5))"

definition rho_offset :: "nat \<Rightarrow> nat \<Rightarrow> nat" where
  "rho_offset x y =
     (case find (\<lambda>t. rho_walk t = (x, y)) [0..<24] of
        None \<Rightarrow> 0
      | Some t \<Rightarrow> ((t + 1) * (t + 2) div 2) mod 64)"

definition spec_rho :: "u64 list \<Rightarrow> u64 list" where
  "spec_rho A = lanes (\<lambda>x y. word_rotl (rho_offset x y) (lane A x y))"

definition spec_pi :: "u64 list \<Rightarrow> u64 list" where
  "spec_pi A = lanes (\<lambda>x y. lane A ((x + 3 * y) mod 5) x)"

definition spec_chi :: "u64 list \<Rightarrow> u64 list" where
  "spec_chi A = lanes (\<lambda>x y. lane A x y XOR (NOT (lane A ((x + 1) mod 5) y) AND lane A ((x + 2) mod 5) y))"

text \<open>
  The bits of the round constants come from a linear feedback shift register with polynomial
  \<open>x\<^sup>8 + x\<^sup>6 + x\<^sup>5 + x\<^sup>4 + 1\<close>; bit \<open>2 ^ j - 1\<close> of constant \<open>i\<close> is output \<open>j + 7 * i\<close>.
\<close>

definition lfsr_step :: "bool list \<Rightarrow> bool list" where
  "lfsr_step R = (let c = R ! 7 in map2 (\<lambda>a b. a \<noteq> (c \<and> b)) (False # butlast R)
     [True, False, False, False, True, True, True, False])"

primrec lfsr_out :: "nat \<Rightarrow> bool list \<Rightarrow> bool list" where
  "lfsr_out 0 R = []"
| "lfsr_out (Suc n) R = R ! 0 # lfsr_out n (lfsr_step R)"

definition spec_rc :: "bool list \<Rightarrow> nat \<Rightarrow> u64" where
  "spec_rc out i = foldr (\<lambda>j acc. acc OR (if out ! (j + 7 * i) then push_bit (2 ^ j - 1) 1 else 0)) [0..<7] 0"

abbreviation lfsr_start :: "bool list" where
  "lfsr_start \<equiv> [True, False, False, False, False, False, False, False]"

definition spec_iota :: "nat \<Rightarrow> u64 list \<Rightarrow> u64 list" where
  "spec_iota i A = lanes (\<lambda>x y. if (x, y) = (0, 0)
     then lane A 0 0 XOR spec_rc (lfsr_out 168 lfsr_start) i
     else lane A x y)"

definition spec_keccakf :: "nat \<Rightarrow> u64 list \<Rightarrow> u64 list" where
  "spec_keccakf n A = fold (\<lambda>i A. spec_iota i (spec_chi (spec_pi (spec_rho (spec_theta A))))) [0..<n] A"

text \<open>
  The sponge of the specification: the padding appends a 1 bit, zeros and a final 1 bit; every block
  of \<open>rsiz\<close> bytes is added to the front of the state and followed by the permutation.
\<close>

definition spec_pad :: "nat \<Rightarrow> blob \<Rightarrow> blob" where
  "spec_pad rsiz m =
     (let k = rsiz - length m mod rsiz
      in m @ (if k = 1 then [0x81] else [0x01] @ replicate (k - 2) 0 @ [0x80]))"

definition spec_add_block :: "nat \<Rightarrow> u64 list \<Rightarrow> blob \<Rightarrow> u64 list" where
  "spec_add_block rsiz st p = map (\<lambda>i. st ! i XOR (if i < rsiz div 8 then load64 p i else 0)) [0..<25]"

definition spec_sponge :: "nat \<Rightarrow> blob \<Rightarrow> u64 list" where
  "spec_sponge rsiz m =
     (let p = spec_pad rsiz m
      in fold (\<lambda>b st. spec_keccakf 24 (spec_add_block rsiz st b)) (chunks rsiz (length p div rsiz) p)
           (replicate 25 0))"

subsection \<open>The round is the specified one\<close>

lemma length_25E:
  assumes "length st = 25"
  obtains a0 a1 a2 a3 a4 a5 a6 a7 a8 a9 a10 a11 a12 a13 a14 a15 a16 a17 a18 a19 a20 a21 a22 a23 a24
  where "st = [a0, a1, a2, a3, a4, a5, a6, a7, a8, a9, a10, a11, a12, a13, a14, a15, a16, a17, a18, a19,
    a20, a21, a22, a23, a24]"
proof -
  have "st = map ((!) st) [0..<25]" using map_nth [of st] assms by simp
  then show thesis using that by (simp add: upt_rec)
qed

lemma ROTL64_rotl: "0 < y \<Longrightarrow> y < 64 \<Longrightarrow> ROTL64 x y = word_rotl y x"
  unfolding ROTL64_def by (rule shifts_rotl) auto

lemma lanes_explicit:
  "lanes f = [f 0 0, f 1 0, f 2 0, f 3 0, f 4 0, f 0 1, f 1 1, f 2 1, f 3 1, f 4 1,
     f 0 2, f 1 2, f 2 2, f 3 2, f 4 2, f 0 3, f 1 3, f 2 3, f 3 3, f 4 3,
     f 0 4, f 1 4, f 2 4, f 3 4, f 4 4]"
  by (simp add: lanes_def upt_rec flip: numeral_2_eq_2)

lemma upt_5: "[0..<5] = [0, 1, 2, 3, 4 :: nat]"
  by (simp add: upt_rec)

lemma upt_24: "[0..<24] = [0, 1, 2, 3, 4, 5, 6, 7, 8, 9, 10, 11, 12, 13, 14, 15, 16, 17, 18, 19,
   20, 21, 22, 23 :: nat]"
  by (simp add: upt_rec)

lemma theta_spec: "length st = 25 \<Longrightarrow> keccakf_theta st = spec_theta st"
  by (erule length_25E)
    (simp add: keccakf_theta_def spec_theta_def lanes_explicit column_def lane_def upt_5 ROTL64_rotl Let_def
      flip: numeral_2_eq_2 numeral_3_eq_3)

lemma chi_spec: "length st = 25 \<Longrightarrow> keccakf_chi st = spec_chi st"
  by (erule length_25E)
    (simp add: keccakf_chi_def spec_chi_def lanes_explicit lane_def upt_5 Let_def)

lemma rho_offset_table [simp]:
  "rho_offset 0 0 = 0" "rho_offset 1 0 = 1" "rho_offset 2 0 = 62" "rho_offset 3 0 = 28" "rho_offset 4 0 = 27"
  "rho_offset 0 1 = 36" "rho_offset 1 1 = 44" "rho_offset 2 1 = 6" "rho_offset 3 1 = 55" "rho_offset 4 1 = 20"
  "rho_offset 0 2 = 3" "rho_offset 1 2 = 10" "rho_offset 2 2 = 43" "rho_offset 3 2 = 25" "rho_offset 4 2 = 39"
  "rho_offset 0 3 = 41" "rho_offset 1 3 = 45" "rho_offset 2 3 = 15" "rho_offset 3 3 = 21" "rho_offset 4 3 = 8"
  "rho_offset 0 4 = 18" "rho_offset 1 4 = 2" "rho_offset 2 4 = 61" "rho_offset 3 4 = 56" "rho_offset 4 4 = 14"
  by code_simp+

lemma rho_offset_table' [simp]:
  "rho_offset (Suc 0) 0 = 1" "rho_offset (Suc 0) (Suc 0) = 44" "rho_offset (Suc 0) 2 = 10"
  "rho_offset (Suc 0) 3 = 45" "rho_offset (Suc 0) 4 = 2"
  "rho_offset 0 (Suc 0) = 36" "rho_offset 2 (Suc 0) = 6" "rho_offset 3 (Suc 0) = 55" "rho_offset 4 (Suc 0) = 20"
  using rho_offset_table by simp_all

lemma word_rotl_0 [simp]: "word_rotl 0 w = w"
  by (rule bit_word_eqI) (simp add: bit_word_rotl_iff)

lemma rho_pi_spec: "length st = 25 \<Longrightarrow> keccakf_rho_pi st = spec_pi (spec_rho st)"
  by (erule length_25E)
    (simp add: keccakf_rho_pi_def spec_pi_def spec_rho_def lanes_explicit lane_def upt_24 Let_def
      keccakf_piln_def keccakf_rotc_def ROTL64_rotl)

lemma rndc_spec: "map (spec_rc (lfsr_out 168 lfsr_start)) [0..<24] = keccakf_rndc"
  by code_simp

lemma iota_spec: "length st = 25 \<Longrightarrow> round < 24 \<Longrightarrow> keccakf_iota round st = spec_iota round st"
proof -
  assume st: "length st = 25" and "round < 24"
  then have "keccakf_rndc ! round = spec_rc (lfsr_out 168 lfsr_start) round"
    by (simp flip: rndc_spec)
  with st show ?thesis
    by (elim length_25E) (simp add: keccakf_iota_def spec_iota_def lanes_explicit lane_def)
qed

lemma length_lanes [simp]: "length (lanes f) = 25"
  by (simp add: lanes_def)

lemma length_spec_steps [simp]:
  "length (spec_theta A) = 25" "length (spec_rho A) = 25" "length (spec_pi A) = 25"
  "length (spec_chi A) = 25" "length (spec_iota i A) = 25"
  by (simp_all add: spec_theta_def spec_rho_def spec_pi_def spec_chi_def spec_iota_def)

lemma length_spec_keccakf [simp]: "length A = 25 \<Longrightarrow> length (spec_keccakf n A) = 25"
  by (induction n) (simp_all add: spec_keccakf_def)

lemma keccakf_eq_spec:
  "length st = 25 \<Longrightarrow> rounds \<le> 24 \<Longrightarrow> keccakf st rounds = spec_keccakf rounds st"
proof (induction rounds)
  case (Suc r)
  then have IH: "keccakf st r = spec_keccakf r st" "length (spec_keccakf r st) = 25" by auto
  have "keccakf st (Suc r) = keccakf_iota r (keccakf_chi (keccakf_rho_pi (keccakf_theta (keccakf st r))))"
    by (simp add: keccakf_def)
  also have "\<dots> = spec_keccakf (Suc r) st"
    using Suc.prems IH
    by (simp add: theta_spec rho_pi_spec chi_spec iota_spec) (simp add: spec_keccakf_def)
  finally show ?case .
qed (simp add: keccakf_def spec_keccakf_def)

subsection \<open>The sponge is the specified one\<close>

lemma length_spec_add_block [simp]: "length (spec_add_block rsiz st p) = 25"
  by (simp add: spec_add_block_def)

lemma xor_block_spec:
  assumes "length st = 25" and "rsiz div 8 \<le> 25"
  shows "keccak_xor_block st p (rsiz div 8) = spec_add_block rsiz st p"
proof -
  have "keccak_xor_block st p n = map (\<lambda>i. st ! i XOR (if i < n then load64 p i else 0)) [0..<25]"
    if "n \<le> 25" for n
    using that
  proof (induction n)
    case 0
    show ?case using map_nth [of st] assms(1) by (simp add: keccak_xor_block_def)
  next
    case (Suc n)
    then show ?case
      by (auto simp: keccak_xor_block_def less_Suc_eq nth_list_update intro!: nth_equalityI)
  qed
  then show ?thesis using assms(2) by (simp add: spec_add_block_def)
qed

lemma length_absorbed [simp]:
  "length st = 25 \<Longrightarrow> length (fold (\<lambda>b st. spec_keccakf 24 (spec_add_block rsiz st b)) bs st) = 25"
  by (induction bs arbitrary: st) auto

lemma absorb_spec:
  assumes "0 < rsiz" and "rsiz div 8 \<le> 25" and "length st = 25"
  shows "keccak_absorb rsiz st p =
      (fold (\<lambda>b st. spec_keccakf 24 (spec_add_block rsiz st b)) (chunks rsiz (length p div rsiz) p) st,
       drop (rsiz * (length p div rsiz)) p)"
  using assms
proof (induction rsiz st p rule: keccak_absorb.induct)
  case (1 rsiz st p)
  show ?case
  proof (cases "rsiz \<le> length p")
    case True
    let ?st = "keccakf (keccak_xor_block st p (rsiz div 8)) KECCAK_ROUNDS"
    have st: "?st = spec_keccakf 24 (spec_add_block rsiz st (take rsiz p))" "length ?st = 25"
    proof -
      have "spec_add_block rsiz st p = spec_add_block rsiz st (take rsiz p)"
        by (auto simp: spec_add_block_def load64_def drop_take min_def)
      then show "?st = spec_keccakf 24 (spec_add_block rsiz st (take rsiz p))" "length ?st = 25"
        using 1(3,4) keccakf_eq_spec [of "spec_add_block rsiz st (take rsiz p)" 24]
        by (simp_all add: xor_block_spec KECCAK_ROUNDS_def)
    qed
    have "length p div rsiz = Suc ((length p - rsiz) div rsiz)"
      using True 1(2) by (simp add: le_div_geq)
    then show ?thesis
      using 1(1) [OF _ 1(2,3) st(2)] True 1(2) st(1)
      by (subst keccak_absorb.simps) (simp add: chunks_Suc add.commute)
  next
    case False
    then show ?thesis using 1(4) by (simp add: keccak_absorb.simps)
  qed
qed

lemma keccak_pad_spec:
  assumes "length m < rsiz"
  shows "keccak_pad rsiz m = spec_pad rsiz m \<and> length (keccak_pad rsiz m) = rsiz"
proof (cases "rsiz = length m + 1")
  case True
  then show ?thesis by (simp add: keccak_pad_def spec_pad_def nth_append list_update_append)
next
  case False
  define d where "d = rsiz - (length m + 2)"
  then have rsiz: "rsiz = length m + 2 + d" using assms False by simp
  have "replicate (Suc d) 0 = replicate d 0 @ [0 :: u8]" by (simp add: replicate_append_same)
  then have "m @ [1] @ replicate (rsiz - (length m + 1)) 0 = (m @ [1] @ replicate d 0) @ [0]"
    by (simp add: rsiz)
  moreover have "rsiz - 1 = length (m @ [1] @ replicate d 0)" by (simp add: rsiz)
  ultimately have "keccak_pad rsiz m = (m @ [1] @ replicate d 0) @ [0x80]"
    unfolding keccak_pad_def Let_def by (simp only: list_update_length nth_append_length or.left_neutral)
  then show ?thesis by (simp add: spec_pad_def rsiz)
qed

lemma length_chunk_rest: "0 < r \<Longrightarrow> length (drop (r * (length p div r)) p) = length p mod r"
  by (simp add: minus_mult_div_eq_mod)

lemma keccak_sponge:
  assumes "keccak_rsiz mdlen = rsiz" and "0 < rsiz" and "rsiz div 8 \<le> 25"
  shows "keccak m mdlen = take mdlen (state_bytes (spec_sponge rsiz m))"
proof -
  let ?n = "length m div rsiz"
  let ?rest = "drop (rsiz * ?n) m"
  let ?absorb = "\<lambda>b st. spec_keccakf 24 (spec_add_block rsiz st b)"
  have rest: "length ?rest = length m mod rsiz" "length ?rest < rsiz"
    using assms(2) by (simp_all only: length_chunk_rest mod_less_divisor)
  note pad = keccak_pad_spec [OF rest(2)]
  have m: "m = take (rsiz * ?n) m @ ?rest" by simp
  have "spec_pad rsiz m = take (rsiz * ?n) m @ keccak_pad rsiz ?rest"
    using pad rest by (subst m) (simp add: spec_pad_def Let_def)
  moreover have "length (take (rsiz * ?n) m) = rsiz * ?n"
    by (simp add: min_absorb2)
  moreover from this have "chunks rsiz ?n (take (rsiz * ?n) m @ xs) = chunks rsiz ?n m" for xs
    using chunks_append [of rsiz ?n "take (rsiz * ?n) m"] m by (metis order_refl)
  ultimately have "length (spec_pad rsiz m) div rsiz = Suc ?n"
    and "chunks rsiz (Suc ?n) (spec_pad rsiz m) = chunks rsiz ?n m @ [keccak_pad rsiz ?rest]"
    using assms(2) pad by (auto simp: chunks_snoc)
  then have "spec_sponge rsiz m = ?absorb (keccak_pad rsiz ?rest) (fold ?absorb (chunks rsiz ?n m) (replicate 25 0))"
    by (simp add: spec_sponge_def Let_def)
  moreover have "keccak_absorb rsiz (replicate 25 0) m = (fold ?absorb (chunks rsiz ?n m) (replicate 25 0), ?rest)"
    using absorb_spec [OF assms(2,3), of "replicate 25 0" m] by simp
  ultimately show ?thesis
    using assms(3) by (simp add: keccak_def assms(1) xor_block_spec keccakf_eq_spec KECCAK_ROUNDS_def)
qed

lemma length_state_bytes: "length (state_bytes st) = 8 * length st"
  by (induction st) (auto simp: state_bytes_def)

lemma length_cn_fast_hash_bytes [simp]: "length (cn_fast_hash_bytes m) = 32"
proof -
  have "length (spec_sponge 136 m) = 25" by (simp add: spec_sponge_def Let_def)
  moreover have "keccak m 200 = take 200 (state_bytes (spec_sponge 136 m))"
    by (rule keccak_sponge) (simp_all add: keccak_rsiz_def HASH_DATA_AREA_def)
  ultimately show ?thesis
    by (simp add: cn_fast_hash_bytes_def hash_process_def keccak1600_def HASH_SIZE_def length_state_bytes)
qed

lemma bytes_of_cn_fast_hash [simp]: "bytes_of_word 32 (cn_fast_hash m) = cn_fast_hash_bytes m"
  unfolding cn_fast_hash_def by (rule bytes_of_word_inverse) simp_all

subsection \<open>Properties\<close>

text \<open>
  C16. The in-place permutation of \<open>keccak.c\<close>, with its tables of rotations, lane positions and round
  constants, is the composition of the step mappings theta, rho, pi, chi and iota of the Keccak
  specification, for every state of 25 lanes and every number of rounds up to 24.
\<close>

theorem keccakf_is_keccak_f:
  assumes "length st = 25" and "rounds \<le> 24"
  shows "keccakf st rounds = spec_keccakf rounds st"
  using assms by (rule keccakf_eq_spec)

theorem keccakf_is_keccak_f_witness:
  "length (replicate 25 0 :: u64 list) = 25 \<and> keccakf (replicate 25 0) 24 = spec_keccakf 24 (replicate 25 0)"
  using keccakf_is_keccak_f [of "replicate 25 0" 24] by simp


end
