(* ===== verification/Tree_Hash.thy ===== *)
theory Tree_Hash
  imports Keccak
begin

text \<open>
  \<open>src/crypto/tree-hash.c\<close>: the root hash of the transactions of a block. The C code works in one
  array of intermediate hashes that it overwrites level by level; it is proved to compute the
  root of a binary tree whose leaves are the given hashes in order, and a root commits to all
  of its leaves unless two different 64-byte inputs of \<^const>\<open>cn_fast_hash\<close> collide.
\<close>

definition ispowerof2_size_t :: "u64 \<Rightarrow> bool" where
  "ispowerof2_size_t x \<longleftrightarrow> x \<noteq> 0 \<and> x AND (x - 1) = 0"

text \<open>The loop that counts how often \<open>tmp\<close> can be halved, and the count rounded down.\<close>

fun tree_hash_cnt_loop :: "nat \<Rightarrow> nat \<Rightarrow> nat" where
  "tree_hash_cnt_loop tmp jj = (if tmp \<noteq> 0 then tree_hash_cnt_loop (tmp div 2) (jj + 1) else jj)"

declare tree_hash_cnt_loop.simps [simp del]

text \<open>
  The shifted constant 1 is an \<open>int\<close>: a shift by 31 or more is undefined, and the assertion on
  \<open>count\<close> excludes the values below 3.
\<close>

definition tree_hash_cnt :: "nat \<Rightarrow> nat option" where
  "tree_hash_cnt count =
     (if count < 3 then None
      else let jj = tree_hash_cnt_loop (count - 1) 1
           in if jj - 2 < 31 then Some (push_bit (jj - 2) 1) else None)"

text \<open>\<open>cn_fast_hash(p, 64, ...)\<close> on two adjacent hashes.\<close>

definition hash_pair :: "hash \<Rightarrow> hash \<Rightarrow> hash" where
  "hash_pair a b = cn_fast_hash (bytes_of_word 32 a @ bytes_of_word 32 b)"

definition tree_hash_level :: "nat \<Rightarrow> hash list \<Rightarrow> hash list" where
  "tree_hash_level cnt ints =
     fold (\<lambda>j ints. ints[j := hash_pair (ints ! (2 * j)) (ints ! (2 * j + 1))]) [0..<cnt] ints"

fun tree_hash_while :: "nat \<Rightarrow> hash list \<Rightarrow> hash list" where
  "tree_hash_while cnt ints =
     (if 2 < cnt then tree_hash_while (cnt div 2) (tree_hash_level (cnt div 2) ints) else ints)"

declare tree_hash_while.simps [simp del]

definition tree_hash :: "hash list \<Rightarrow> hash option" where
  "tree_hash hashes =
     (let count = length hashes in
      if count = 0 then None
      else if count = 1 then Some (hashes ! 0)
      else if count = 2 then Some (hash_pair (hashes ! 0) (hashes ! 1))
      else do {
        cnt \<leftarrow> tree_hash_cnt count;
        let ints = replicate cnt 0;
        let k = 2 * cnt - count;
        let ints = take k hashes @ drop k ints;
        let ints = fold (\<lambda>j ints. ints[j := hash_pair (hashes ! (k + 2 * (j - k))) (hashes ! (k + 2 * (j - k) + 1))])
                     [k..<cnt] ints;
        let ints = tree_hash_while cnt ints;
        Some (hash_pair (ints ! 0) (ints ! 1)) })"

subsection \<open>Rounding the count\<close>

lemma tree_hash_cnt_loop_bounds:
  "0 < tmp \<Longrightarrow> \<exists>k. tree_hash_cnt_loop tmp jj = jj + k + 1 \<and> 2 ^ k \<le> tmp \<and> tmp < 2 ^ (k + 1)"
proof (induction tmp jj rule: tree_hash_cnt_loop.induct)
  case (1 tmp jj)
  show ?case
  proof (cases "tmp div 2 = 0")
    case True
    with 1(2) have "tmp = 1" by simp
    then show ?thesis by (simp add: tree_hash_cnt_loop.simps)
  next
    case False
    then obtain k where "tree_hash_cnt_loop (tmp div 2) (jj + 1) = jj + 1 + k + 1"
        "2 ^ k \<le> tmp div 2" "tmp div 2 < 2 ^ (k + 1)"
      using 1 by auto
    then show ?thesis
      using 1(2) by (intro exI [of _ "k + 1"]) (subst tree_hash_cnt_loop.simps, auto)
  qed
qed

lemma tree_hash_cnt_bounds:
  assumes "3 \<le> count" and "count \<le> 2 ^ 31"
  shows "\<exists>k. tree_hash_cnt count = Some (2 ^ k) \<and> 1 \<le> k \<and> k < 31 \<and> 2 ^ k < count \<and> count \<le> 2 ^ (k + 1)"
proof -
  obtain k where k: "tree_hash_cnt_loop (count - 1) 1 = k + 2" "2 ^ k \<le> count - 1" "count - 1 < 2 ^ (k + 1)"
    using tree_hash_cnt_loop_bounds [of "count - 1" 1] assms(1) by auto
  have "k \<noteq> 0" using k(3) assms(1) by (cases k) auto
  moreover have "k < 31"
  proof (rule ccontr)
    assume "\<not> k < 31"
    then have "(2 :: nat) ^ 31 \<le> 2 ^ k" by (intro power_increasing) auto
    with k(2) assms show False by linarith
  qed
  ultimately show ?thesis
    using k assms(1) by (intro exI [of _ k]) (auto simp: tree_hash_cnt_def push_bit_eq_mult)
qed

subsection \<open>Levels of the tree\<close>

fun pairs :: "('h \<Rightarrow> 'h \<Rightarrow> 'h) \<Rightarrow> 'h list \<Rightarrow> 'h list" where
  "pairs H (a # b # xs) = H a b # pairs H xs"
| "pairs H xs = []"

lemma length_pairs [simp]: "length (pairs H xs) = length xs div 2"
  by (induction H xs rule: pairs.induct) auto

lemma pairs_append: "even (length xs) \<Longrightarrow> pairs H (xs @ ys) = pairs H xs @ pairs H ys"
  by (induction H xs rule: pairs.induct) auto

lemma pairs_take_Suc:
  assumes "2 * j + 1 < length xs"
  shows "pairs H (take (2 * Suc j) xs) = pairs H (take (2 * j) xs) @ [H (xs ! (2 * j)) (xs ! (2 * j + 1))]"
proof -
  have "take (2 * Suc j) xs = take (2 * j) xs @ [xs ! (2 * j), xs ! (2 * j + 1)]"
    using assms by (simp add: take_Suc_conv_app_nth)
  then show ?thesis using assms by (simp add: pairs_append)
qed

lemma tree_hash_level_pairs:
  "2 * cnt \<le> length ints \<Longrightarrow> tree_hash_level cnt ints = pairs hash_pair (take (2 * cnt) ints) @ drop cnt ints"
proof (induction cnt)
  case 0
  then show ?case by (simp add: tree_hash_level_def)
next
  case (Suc n)
  then have IH: "tree_hash_level n ints = pairs hash_pair (take (2 * n) ints) @ drop n ints" by simp
  have nth: "tree_hash_level n ints ! m = ints ! m" if "n \<le> m" "m < length ints" for m
    using that Suc.prems by (simp add: IH nth_append min_def)
  have "tree_hash_level (Suc n) ints = (tree_hash_level n ints)[n := hash_pair (ints ! (2 * n)) (ints ! (2 * n + 1))]"
    using Suc.prems nth [of "2 * n"] nth [of "2 * n + 1"] by (simp add: tree_hash_level_def)
  also have "\<dots> = pairs hash_pair (take (2 * Suc n) ints) @ drop (Suc n) ints"
  proof -
    have "drop n ints = ints ! n # drop (Suc n) ints" using Suc.prems by (intro Cons_nth_drop_Suc [symmetric]) simp
    then show ?thesis
      using Suc.prems unfolding IH by (subst pairs_take_Suc) (simp_all add: list_update_append min_def)
  qed
  finally show ?case .
qed

text \<open>
  The specification: a binary tree over the given leaves. With \<open>2 ^ h < length hs \<le> 2 ^ (h + 1)\<close>,
  \<open>mtree_of h hs\<close> pairs up the last leaves so that \<open>2 ^ h\<close> trees remain, and joins neighbours \<open>h\<close>
  times; all leaves are at depth \<open>h\<close> or \<open>h + 1\<close>.
\<close>

datatype 'a mtree = Leaf 'a | Node "'a mtree" "'a mtree"

primrec leaves :: "'a mtree \<Rightarrow> 'a list" where
  "leaves (Leaf h) = [h]"
| "leaves (Node l r) = leaves l @ leaves r"

primrec root :: "('a \<Rightarrow> 'a \<Rightarrow> 'a) \<Rightarrow> 'a mtree \<Rightarrow> 'a" where
  "root H (Leaf h) = h"
| "root H (Node l r) = H (root H l) (root H r)"

fun levels_within :: "nat \<Rightarrow> 'a mtree \<Rightarrow> bool" where
  "levels_within n (Leaf h) \<longleftrightarrow> n \<le> 1"
| "levels_within 0 (Node l r) \<longleftrightarrow> False"
| "levels_within (Suc n) (Node l r) \<longleftrightarrow> levels_within n l \<and> levels_within n r"

fun join :: "nat \<Rightarrow> 'a mtree list \<Rightarrow> 'a mtree list" where
  "join 0 ts = ts"
| "join (Suc n) ts = join n (pairs Node ts)"

definition bottom :: "nat \<Rightarrow> 'a list \<Rightarrow> 'a mtree list" where
  "bottom k hs = map Leaf (take k hs) @ pairs Node (map Leaf (drop k hs))"

definition mtree_of :: "nat \<Rightarrow> 'a list \<Rightarrow> 'a mtree" where
  "mtree_of h hs = hd (join h (bottom (2 * 2 ^ h - length hs) hs))"

fun tree_height :: "nat \<Rightarrow> nat" where
  "tree_height n = (if n \<le> 2 then 0 else Suc (tree_height ((n + 1) div 2)))"

declare tree_height.simps [simp del]

definition tree_hash_tree :: "'a list \<Rightarrow> 'a mtree" where
  "tree_hash_tree hs = (if length hs = 1 then Leaf (hd hs) else mtree_of (tree_height (length hs)) hs)"

text \<open>The pairs of hashes that are hashed on the way to the root.\<close>

primrec hashed_pairs :: "('a \<Rightarrow> 'a \<Rightarrow> 'a) \<Rightarrow> 'a mtree \<Rightarrow> ('a \<times> 'a) list" where
  "hashed_pairs H (Leaf h) = []"
| "hashed_pairs H (Node l r) = (root H l, root H r) # hashed_pairs H l @ hashed_pairs H r"

lemma tree_height_bounds: "2 \<le> n \<Longrightarrow> 2 ^ tree_height n < n \<and> n \<le> 2 * 2 ^ tree_height n"
proof (induction n rule: tree_height.induct)
  case (1 n)
  show ?case
  proof (cases "n \<le> 2")
    case True
    with 1(2) show ?thesis by (simp add: tree_height.simps)
  next
    case False
    then have "2 ^ tree_height ((n + 1) div 2) < (n + 1) div 2" "(n + 1) div 2 \<le> 2 * 2 ^ tree_height ((n + 1) div 2)"
      using 1(1) by auto
    then show ?thesis using False by (subst (1 2) tree_height.simps) auto
  qed
qed

lemma pairs_root: "map (root H) (pairs Node ts) = pairs H (map (root H) ts)"
  by (induction "Node :: 'a mtree \<Rightarrow> 'a mtree \<Rightarrow> 'a mtree" ts rule: pairs.induct) auto

lemma pairs_leaves: "even (length ts) \<Longrightarrow> concat (map leaves (pairs Node ts)) = concat (map leaves ts)"
  by (induction "Node :: 'a mtree \<Rightarrow> 'a mtree \<Rightarrow> 'a mtree" ts rule: pairs.induct) auto

lemma pairs_levels:
  "even (length ts) \<Longrightarrow> list_all (levels_within n) ts \<Longrightarrow> list_all (levels_within (Suc n)) (pairs Node ts)"
  by (induction "Node :: 'a mtree \<Rightarrow> 'a mtree \<Rightarrow> 'a mtree" ts rule: pairs.induct) auto

lemma pairs_map:
  fixes f :: "'a \<Rightarrow> 'b" and ts :: "'a mtree list"
  shows "pairs Node (map (map_mtree f) ts) = map (map_mtree f) (pairs Node ts)"
  by (induction "Node :: 'a mtree \<Rightarrow> 'a mtree \<Rightarrow> 'a mtree" ts rule: pairs.induct) auto

lemma join_shape:
  assumes "length ts = 2 ^ h"
  shows "\<exists>t. join h ts = [t] \<and> leaves t = concat (map leaves ts) \<and> (list_all (levels_within n) ts \<longrightarrow> levels_within (n + h) t)"
  using assms
proof (induction h arbitrary: ts n)
  case 0
  then show ?case by (auto simp: length_Suc_conv)
next
  case (Suc h)
  then show ?case
    using Suc.IH [of "pairs Node ts" "Suc n"] pairs_levels [of ts n] by (auto simp: pairs_leaves)
qed

lemma join_map: "join h (map (map_mtree f) ts) = map (map_mtree f) (join h ts)"
  by (induction h arbitrary: ts) (auto simp: pairs_map)

text \<open>The loop over the levels leaves the two hashes under the root at the front of the array.\<close>

lemma tree_hash_while_root:
  assumes "length ts = 2 ^ Suc k" and "take (2 ^ Suc k) ints = map (root hash_pair) ts"
  shows "\<exists>l r. take 2 (tree_hash_while (2 ^ Suc k) ints) = [root hash_pair l, root hash_pair r]
    \<and> join (Suc k) ts = [Node l r]"
  using assms
proof (induction k arbitrary: ts ints)
  case 0
  then obtain l r where "ts = [l, r]" by (auto simp: numeral_2_eq_2 length_Suc_conv)
  with 0 show ?case by (auto simp: tree_hash_while.simps)
next
  case (Suc k)
  have len: "2 ^ Suc (Suc k) \<le> length ints"
    using arg_cong [OF Suc.prems(2), of length] Suc.prems(1) by simp
  have "take (2 ^ Suc k) (tree_hash_level (2 ^ Suc k) ints) = pairs hash_pair (take (2 ^ Suc (Suc k)) ints)"
    using len by (subst tree_hash_level_pairs) (simp_all add: min_def)
  also have "\<dots> = map (root hash_pair) (pairs Node ts)"
    by (simp only: Suc.prems(2) pairs_root)
  finally have "\<exists>l r. take 2 (tree_hash_while (2 ^ Suc k) (tree_hash_level (2 ^ Suc k) ints))
      = [root hash_pair l, root hash_pair r] \<and> join (Suc k) (pairs Node ts) = [Node l r]"
    using Suc.prems(1) by (intro Suc.IH) auto
  moreover have "tree_hash_while (2 ^ Suc (Suc k)) ints
      = tree_hash_while (2 ^ Suc k) (tree_hash_level (2 ^ Suc k) ints)"
    using one_less_power [of "2 :: nat" "Suc k"] by (subst tree_hash_while.simps) simp
  ultimately show ?case by simp
qed

lemma tree_hash_first_level:
  assumes "k \<le> cnt" and "length hashes = k + 2 * (cnt - k)"
  shows "fold (\<lambda>j ints. ints[j := hash_pair (hashes ! (k + 2 * (j - k))) (hashes ! (k + 2 * (j - k) + 1))])
      [k..<cnt] (take k hashes @ drop k (replicate cnt 0))
    = take k hashes @ pairs hash_pair (drop k hashes)"
proof -
  let ?f = "\<lambda>j ints. ints[j := hash_pair (hashes ! (k + 2 * (j - k))) (hashes ! (k + 2 * (j - k) + 1))]"
  have "fold ?f [k..<k + m] (take k hashes @ replicate (cnt - k) 0)
      = take k hashes @ pairs hash_pair (take (2 * m) (drop k hashes)) @ replicate (cnt - k - m) 0"
    if "m \<le> cnt - k" for m
    using that
  proof (induction m)
    case (Suc m)
    then have "replicate (cnt - k - m) (0 :: hash) = 0 # replicate (cnt - k - Suc m) 0"
      by (simp flip: replicate_Suc add: Suc_diff_Suc)
    moreover have "pairs hash_pair (take (2 * Suc m) (drop k hashes))
        = pairs hash_pair (take (2 * m) (drop k hashes))
          @ [hash_pair (hashes ! (k + 2 * m)) (hashes ! (k + 2 * m + 1))]"
      using Suc.prems assms by (subst pairs_take_Suc) auto
    ultimately show ?case
      using Suc assms by (simp add: list_update_append min_def)
  qed simp
  from this [of "cnt - k"] show ?thesis using assms by simp
qed

lemma bottom_props:
  assumes "2 ^ h < length hs" and "length hs \<le> 2 * 2 ^ h"
  defines "k \<equiv> 2 * 2 ^ h - length hs"
  shows "length (bottom k hs) = 2 ^ h" and "concat (map leaves (bottom k hs)) = hs"
    and "list_all (levels_within 1) (bottom k hs)"
    and "map (root H) (bottom k hs) = take k hs @ pairs H (drop k hs)"
proof -
  have len: "length (drop k hs) = 2 * (2 ^ h - k)" and k: "k \<le> length hs" "k \<le> 2 ^ h"
    using assms by (auto simp: k_def)
  show "length (bottom k hs) = 2 ^ h" using len k by (simp add: bottom_def min_def)
  show "concat (map leaves (bottom k hs)) = hs"
    using len by (simp add: bottom_def pairs_leaves comp_def)
  have "list_all (levels_within (Suc 0)) (pairs Node (map Leaf (drop k hs)))"
    by (rule pairs_levels) (use len in \<open>simp_all add: list_all_iff\<close>)
  then show "list_all (levels_within 1) (bottom k hs)" by (auto simp: bottom_def list_all_iff)
  show "map (root H) (bottom k hs) = take k hs @ pairs H (drop k hs)"
    by (simp add: bottom_def pairs_root comp_def)
qed

lemma tree_hash_root:
  assumes "2 \<le> length hs" and "length hs \<le> 2 ^ 31"
  shows "\<exists>h. 2 ^ h < length hs \<and> length hs \<le> 2 * 2 ^ h \<and> tree_hash hs = Some (root hash_pair (mtree_of h hs))"
proof (cases "length hs = 2")
  case True
  then obtain a b where "hs = [a, b]" by (auto simp: numeral_2_eq_2 length_Suc_conv)
  then show ?thesis by (intro exI [of _ 0]) (simp add: tree_hash_def mtree_of_def bottom_def)
next
  case False
  then obtain h where h: "tree_hash_cnt (length hs) = Some (2 ^ h)" "1 \<le> h" "2 ^ h < length hs" "length hs \<le> 2 * 2 ^ h"
    using tree_hash_cnt_bounds [of "length hs"] assms by auto
  define k where "k = 2 * 2 ^ h - length hs"
  obtain g where g: "h = Suc g" using h(2) by (cases h) auto
  have "k \<le> 2 ^ h" "length hs = k + 2 * (2 ^ h - k)" using h by (auto simp: k_def)
  note first = tree_hash_first_level [OF this]
  obtain l r where lr: "take 2 (tree_hash_while (2 ^ h) (take k hs @ pairs hash_pair (drop k hs)))
        = [root hash_pair l, root hash_pair r]" "join h (bottom k hs) = [Node l r]"
  proof -
    have len: "length (bottom k hs) = 2 ^ Suc g" using bottom_props(1) [OF h(3,4)] by (simp add: k_def g)
    then have "take (2 ^ Suc g) (map (root hash_pair) (bottom k hs)) = map (root hash_pair) (bottom k hs)" by simp
    from tree_hash_while_root [OF len this] that show ?thesis
      unfolding g bottom_props(4) [OF h(3,4), folded k_def] by blast
  qed
  have "x ! 0 = a \<and> x ! 1 = b" if "take 2 x = [a, b]" for x and a b :: hash
    using arg_cong [OF that, of "\<lambda>z. z ! 0"] arg_cong [OF that, of "\<lambda>z. z ! 1"] by simp
  from this [OF lr(1)] have "tree_hash hs = Some (hash_pair (root hash_pair l) (root hash_pair r))"
    using False assms(1) h(1) first by (auto simp: tree_hash_def Let_def k_def)
  then have "tree_hash hs = Some (root hash_pair (mtree_of h hs))"
    using lr(2) by (simp add: mtree_of_def flip: k_def)
  with h show ?thesis by blast
qed

lemma root_collision:
  assumes "root H (map_mtree fst t) = root H (map_mtree snd t)" and "\<exists>p \<in> set (leaves t). fst p \<noteq> snd p"
  shows "\<exists>p \<in> set (hashed_pairs H (map_mtree fst t)). \<exists>q \<in> set (hashed_pairs H (map_mtree snd t)).
    p \<noteq> q \<and> case_prod H p = case_prod H q"
  using assms
proof (induction t)
  case (Node l r)
  let ?eq = "\<lambda>t. root H (map_mtree fst t) = root H (map_mtree snd t)"
  show ?case
  proof (cases "?eq l \<and> ?eq r")
    case True
    with Node show ?thesis by auto
  next
    case False
    with Node.prems(1) show ?thesis by auto
  qed
qed simp

lemma mtree_of_map:
  assumes "length (bottom (2 * 2 ^ h - length hs) hs) = 2 ^ h"
  shows "mtree_of h (map f hs) = map_mtree f (mtree_of h hs)"
proof -
  have "bottom k (map f hs) = map (map_mtree f) (bottom k hs)" for k
    using pairs_map [of f "map Leaf (drop k hs)"] by (simp add: bottom_def take_map drop_map comp_def)
  moreover obtain t where "join h (bottom (2 * 2 ^ h - length hs) hs) = [t]"
    using join_shape [OF assms] by auto
  ultimately show ?thesis by (simp add: mtree_of_def join_map)
qed

lemma mtree_of_leaves:
  assumes "2 ^ h < length hs" and "length hs \<le> 2 * 2 ^ h"
  shows "leaves (mtree_of h hs) = hs \<and> levels_within (Suc h) (mtree_of h hs)"
  using join_shape [OF bottom_props(1) [OF assms], of 1] bottom_props(2,3) [OF assms]
  by (auto simp: mtree_of_def)

lemma height_unique:
  assumes "2 ^ h < n" "n \<le> 2 * (2 :: nat) ^ h" "2 ^ g < n" "n \<le> 2 * 2 ^ g"
  shows "g = h"
proof -
  have "(2 :: nat) ^ h < 2 ^ Suc g" "(2 :: nat) ^ g < 2 ^ Suc h" using assms by auto
  then show ?thesis by (simp only: power_strict_increasing_iff)
qed

lemma tree_hash_tree_root:
  assumes "2 \<le> length hs" and "length hs \<le> 2 ^ 31"
  shows "tree_hash hs = Some (root hash_pair (tree_hash_tree hs))"
  using tree_hash_root [OF assms] tree_height_bounds [OF assms(1)] height_unique assms(1)
  unfolding tree_hash_tree_def by fastforce

text \<open>
  The root commits to the leaves: if two lists of the same length have the same tree hash, they are
  equal, or among the pairs of hashes that the two computations hash there are two different ones
  with the same \<open>cn_fast_hash\<close>.
\<close>

lemma tree_hash_commits:
  assumes "length hs = length gs" and "1 \<le> length hs" and "length hs \<le> 2 ^ 31"
    and "tree_hash hs = tree_hash gs"
  shows "hs = gs \<or> (\<exists>p \<in> set (hashed_pairs hash_pair (tree_hash_tree hs)).
    \<exists>q \<in> set (hashed_pairs hash_pair (tree_hash_tree gs)). p \<noteq> q \<and> case_prod hash_pair p = case_prod hash_pair q)"
proof (cases "length hs = 1")
  case True
  then show ?thesis using assms by (auto simp: length_Suc_conv tree_hash_def)
next
  case False
  define h where "h = tree_height (length hs)"
  define zs where "zs = zip hs gs"
  have two: "2 \<le> length hs" "2 \<le> length gs" "length gs \<le> 2 ^ 31" using assms False by auto
  note h = tree_height_bounds [OF two(1), folded h_def]
  have zs: "hs = map fst zs" "gs = map snd zs" "length zs = length hs" using assms(1) by (simp_all add: zs_def)
  have bot: "length (bottom (2 * 2 ^ h - length zs) zs) = 2 ^ h"
    using bottom_props(1) [of h zs] h unfolding zs(3) by simp
  have trees: "tree_hash_tree hs = map_mtree fst (mtree_of h zs)" "tree_hash_tree gs = map_mtree snd (mtree_of h zs)"
    using mtree_of_map [OF bot, of fst] mtree_of_map [OF bot, of snd] False assms(1)
    by (simp_all add: tree_hash_tree_def h_def flip: zs(1,2))
  then have "root hash_pair (map_mtree fst (mtree_of h zs)) = root hash_pair (map_mtree snd (mtree_of h zs))"
    using tree_hash_tree_root [OF two(1) assms(3)] tree_hash_tree_root [OF two(2,3)] assms(4) by simp
  moreover have "leaves (mtree_of h zs) = zs" using mtree_of_leaves [of h zs] h unfolding zs(3) by simp
  moreover have "\<exists>p \<in> set zs. fst p \<noteq> snd p" if "hs \<noteq> gs"
    using that zs(1,2) by (metis map_cong)
  ultimately show ?thesis using root_collision [of hash_pair "mtree_of h zs"] unfolding trees by auto
qed

subsection \<open>Properties\<close>

text \<open>
  For up to \<open>2 ^ 31\<close> transactions the rounding of the count is defined, is a power of two, and
  satisfies every assertion of \<open>tree_hash_cnt\<close> and the one on the copied prefix:
  \<open>count \<le> 2 * cnt\<close> makes the subtraction in \<open>tree_hash\<close> free of wrap-around.
\<close>

theorem tree_hash_cnt_asserts:
  assumes "3 \<le> count" and "count \<le> 2 ^ 31"
  shows "\<exists>cnt. tree_hash_cnt count = Some cnt \<and> 0 < cnt \<and> count div 2 \<le> cnt \<and> cnt < count \<and> count \<le> 2 * cnt
    \<and> ispowerof2_size_t (of_nat cnt)"
proof -
  obtain k where k: "tree_hash_cnt count = Some (2 ^ k)" "k < 31" "2 ^ k < count" "count \<le> 2 ^ (k + 1)"
    using tree_hash_cnt_bounds [OF assms] by auto
  have "(of_nat (2 ^ k) :: u64) = push_bit k 1" by (simp add: push_bit_eq_mult)
  moreover have "(push_bit k 1 :: u64) AND (push_bit k 1 - 1) = 0"
    using and_exp_eq_0_iff_not_bit [of "mask k :: u64" k]
    by (simp add: push_bit_eq_mult bit_mask_iff and.commute flip: mask_eq_exp_minus_1)
  moreover have "bit (push_bit k 1 :: u64) k" using k(2) by (simp add: bit_simps)
  then have "(push_bit k 1 :: u64) \<noteq> 0" using k(2) by auto
  ultimately have "ispowerof2_size_t (of_nat (2 ^ k))" by (simp add: ispowerof2_size_t_def)
  with k show ?thesis by (intro exI [of _ "2 ^ k"]) auto
qed

theorem tree_hash_cnt_asserts_witness:
  "(3 :: nat) \<le> 514 \<and> (514 :: nat) \<le> 2 ^ 31
   \<and> (\<exists>cnt. tree_hash_cnt 514 = Some cnt \<and> 0 < cnt \<and> 514 div 2 \<le> cnt \<and> cnt < 514 \<and> 514 \<le> 2 * cnt
      \<and> ispowerof2_size_t (of_nat cnt))"
  using tree_hash_cnt_asserts [of 514] by simp

text \<open>
  C18. \<open>tree_hash\<close> returns a result for one to \<open>2 ^ 31\<close> hashes, and the result is the root of a
  binary tree of \<open>cn_fast_hash\<close> applications whose leaves are exactly the given hashes in the given
  order, all of them on two neighbouring levels. The array that is overwritten level by level loses
  nothing.
\<close>

theorem tree_hash_is_tree_root:
  assumes "1 \<le> length hs" and "length hs \<le> 2 ^ 31"
  shows "tree_hash hs = Some (root hash_pair (tree_hash_tree hs)) \<and> leaves (tree_hash_tree hs) = hs
    \<and> levels_within (Suc (tree_height (length hs))) (tree_hash_tree hs)"
proof (cases "length hs = 1")
  case True
  then obtain a where "hs = [a]" by (auto simp: length_Suc_conv)
  then show ?thesis by (simp add: tree_hash_def tree_hash_tree_def tree_height.simps)
next
  case False
  then have "2 \<le> length hs" using assms by linarith
  from False tree_hash_tree_root [OF this assms(2)] mtree_of_leaves tree_height_bounds [OF this] show ?thesis
    by (auto simp: tree_hash_tree_def)
qed

theorem tree_hash_is_tree_root_witness:
  "tree_hash [1, 2, 3, 4, 5] = Some (root hash_pair (tree_hash_tree [1, 2, 3, 4, 5]))
   \<and> tree_hash_tree [1, 2, 3, 4, 5 :: hash]
     = Node (Node (Leaf 1) (Leaf 2)) (Node (Leaf 3) (Node (Leaf 4) (Leaf 5)))"
proof
  show "tree_hash [1, 2, 3, 4, 5] = Some (root hash_pair (tree_hash_tree [1, 2, 3, 4, 5]))"
    using tree_hash_is_tree_root [of "[1, 2, 3, 4, 5]"] by simp
  show "tree_hash_tree [1, 2, 3, 4, 5 :: hash]
     = Node (Node (Leaf 1) (Leaf 2)) (Node (Leaf 3) (Node (Leaf 4) (Leaf 5)))"
    by code_simp
qed

end
