(* ===== verification/Base58.thy ===== *)
theory Base58
  imports Varint Keccak
begin

text \<open>
  \<open>src/common/base58.cpp\<close>: the block-wise base 58 encoding of addresses, with its lookup tables,
  the block routines over raw buffers, \<open>encode\<close>/\<open>decode\<close> and the checksummed
  \<open>encode_addr\<close>/\<open>decode_addr\<close>. A write outside the buffer is \<open>None\<close> in \<open>encode_block\<close>; \<open>None\<close> in
  the decoding functions is the return value \<open>false\<close>. Encoding is proved to stay inside its buffer, and
  encoding and decoding to be inverse to each other in both directions.
\<close>

subsection \<open>Tables\<close>

definition alphabet :: blob where
  "alphabet = map of_char ''123456789ABCDEFGHJKLMNPQRSTUVWXYZabcdefghijkmnopqrstuvwxyz''"

definition alphabet_size :: nat where "alphabet_size = 58"

definition encoded_block_sizes :: "nat list" where
  "encoded_block_sizes = [0, 2, 3, 5, 6, 7, 9, 10, 11]"

definition full_block_size :: nat where "full_block_size = 8"
definition full_encoded_block_size :: nat where "full_encoded_block_size = 11"
definition addr_checksum_size :: nat where "addr_checksum_size = 4"

text \<open>
  \<open>char\<close> is signed, so \<open>letter - alphabet[0]\<close> can be negative; as a \<open>size_t\<close> it is then larger than
  the size of the table.
\<close>

definition reverse_alphabet_data :: "int list" where
  "reverse_alphabet_data =
     fold (\<lambda>i m. m[nat (sint (alphabet ! i) - sint (alphabet ! 0)) := int i]) [0..<alphabet_size]
       (replicate (nat (sint (alphabet ! (alphabet_size - 1)) - sint (alphabet ! 0) + 1)) (- 1))"

definition reverse_alphabet :: "u8 \<Rightarrow> int" where
  "reverse_alphabet letter =
     (let idx = sint letter - sint (alphabet ! 0)
      in if 0 \<le> idx \<and> idx < int (length reverse_alphabet_data) then reverse_alphabet_data ! nat idx else - 1)"

definition decoded_block_sizes_data :: "int list" where
  "decoded_block_sizes_data =
     fold (\<lambda>i m. m[encoded_block_sizes ! i := int i]) [0..<full_block_size + 1]
       (replicate (encoded_block_sizes ! full_block_size + 1) (- 1))"

definition decoded_block_sizes :: "nat \<Rightarrow> int" where
  "decoded_block_sizes encoded_block_size = decoded_block_sizes_data ! encoded_block_size"

subsection \<open>Blocks\<close>

text \<open>The switch with fall-through: \<open>size\<close> bytes, most significant first.\<close>

definition uint_8be_to_64 :: "blob \<Rightarrow> nat \<Rightarrow> u64" where
  "uint_8be_to_64 data sz = fold (\<lambda>b res. push_bit 8 res OR ucast b) (take sz data) 0"

definition uint_64_to_8be :: "u64 \<Rightarrow> nat \<Rightarrow> blob" where
  "uint_64_to_8be num sz =
     (let num_be = SWAP64 num in take sz (drop (8 - sz) (bytes_of_word 8 num_be)))"

text \<open>
  The loop of \<open>encode_block\<close> writes the digits from the right end of the block. \<open>res\<close> is the
  buffer from the pointer on.
\<close>

lemma div_58_less [termination_simp]: "0 < num \<Longrightarrow> unat (num div 58 :: u64) < unat num"
  by (simp add: unat_div word_less_nat_alt)

function encode_block_loop :: "u64 \<Rightarrow> int \<Rightarrow> blob \<Rightarrow> blob option" where
  "encode_block_loop num i res =
     (if 0 < num then
        let remainder = num mod 58; num' = num div 58
        in if 0 \<le> i \<and> nat i < length res
           then encode_block_loop num' (i - 1) (res[nat i := alphabet ! unat remainder])
           else None
      else Some res)"
  by pat_completeness auto
termination by (relation "measure (\<lambda>(num, i, res). unat num)") (auto simp: div_58_less)

declare encode_block_loop.simps [simp del]

definition encode_block :: "blob \<Rightarrow> nat \<Rightarrow> blob \<Rightarrow> blob option" where
  "encode_block block sz res =
     encode_block_loop (uint_8be_to_64 block sz) (int (encoded_block_sizes ! sz) - 1) res"

text \<open>
  The loop of \<open>decode_block\<close> runs over the indices \<open>size - 1\<close> down to 0; the argument \<open>k\<close> is the
  number of symbols not yet read.
\<close>

fun decode_block_loop :: "blob \<Rightarrow> nat \<Rightarrow> u64 \<Rightarrow> u64 \<Rightarrow> u64 option" where
  "decode_block_loop block 0 res_num order = Some res_num"
| "decode_block_loop block (Suc i) res_num order =
     (let digit = reverse_alphabet (block ! i)
      in if digit < 0 then None
         else
           let (product_hi, product_lo) = mul128 order (word_of_int digit);
               tmp = res_num + product_lo
           in if tmp < res_num \<or> product_hi \<noteq> 0 then None
              else decode_block_loop block i tmp (order * 58))"

text \<open>The bytes that \<open>decode_block\<close> writes.\<close>

definition decode_block :: "blob \<Rightarrow> nat \<Rightarrow> blob option" where
  "decode_block block sz =
     (let res_size = decoded_block_sizes sz
      in if res_size \<le> 0 then None
         else do {
           res_num \<leftarrow> decode_block_loop block sz 0 1;
           if nat res_size < full_block_size \<and> push_bit (8 * nat res_size) 1 \<le> res_num then None
           else Some (uint_64_to_8be res_num (nat res_size)) })"

subsection \<open>Strings\<close>

fun encode_loop :: "blob \<Rightarrow> nat list \<Rightarrow> blob \<Rightarrow> blob option" where
  "encode_loop data [] res = Some res"
| "encode_loop data (i # is) res = do {
     block \<leftarrow> encode_block (drop (i * full_block_size) data) full_block_size
                (drop (i * full_encoded_block_size) res);
     encode_loop data is (take (i * full_encoded_block_size) res @ block) }"

definition encode :: "blob \<Rightarrow> blob option" where
  "encode data =
     (if data = [] then Some []
      else
        let full_block_count = length data div full_block_size;
            last_block_size = length data mod full_block_size;
            res_size = full_block_count * full_encoded_block_size + encoded_block_sizes ! last_block_size;
            res = replicate res_size (alphabet ! 0)
        in do {
          res \<leftarrow> encode_loop data [0..<full_block_count] res;
          if 0 < last_block_size then do {
            block \<leftarrow> encode_block (drop (full_block_count * full_block_size) data) last_block_size
                       (drop (full_block_count * full_encoded_block_size) res);
            Some (take (full_block_count * full_encoded_block_size) res @ block) }
          else Some res })"

text \<open>A decoded block is written over the bytes of \<open>data\<close> at its offset.\<close>

definition write_at :: "nat \<Rightarrow> blob \<Rightarrow> blob \<Rightarrow> blob" where
  "write_at off b data = take off data @ b @ drop (off + length b) data"

fun decode_loop :: "blob \<Rightarrow> nat list \<Rightarrow> blob \<Rightarrow> blob option" where
  "decode_loop enc [] data = Some data"
| "decode_loop enc (i # is) data = do {
     block \<leftarrow> decode_block (drop (i * full_encoded_block_size) enc) full_encoded_block_size;
     decode_loop enc is (write_at (i * full_block_size) block data) }"

definition decode :: "blob \<Rightarrow> blob option" where
  "decode enc =
     (if enc = [] then Some []
      else
        let full_block_count = length enc div full_encoded_block_size;
            last_block_size = length enc mod full_encoded_block_size;
            last_block_decoded_size = decoded_block_sizes last_block_size
        in if last_block_decoded_size < 0 then None
           else
             let data_size = full_block_count * full_block_size + nat last_block_decoded_size;
                 data = replicate data_size 0
             in do {
               data \<leftarrow> decode_loop enc [0..<full_block_count] data;
               if 0 < last_block_size then do {
                 block \<leftarrow> decode_block (drop (full_block_count * full_encoded_block_size) enc) last_block_size;
                 Some (write_at (full_block_count * full_block_size) block data) }
               else Some data })"

subsection \<open>Addresses\<close>

definition encode_addr :: "u64 \<Rightarrow> blob \<Rightarrow> blob option" where
  "encode_addr tag data =
     (let buf = get_varint_data (unat tag);
          buf = buf @ data;
          hash = cn_fast_hash buf;
          buf = buf @ take addr_checksum_size (bytes_of_word 32 hash)
      in encode buf)"

definition decode_addr :: "blob \<Rightarrow> (u64 \<times> blob) option" where
  "decode_addr addr = do {
     addr_data \<leftarrow> decode addr;
     if length addr_data \<le> addr_checksum_size then None
     else
       let checksum = drop (length addr_data - addr_checksum_size) addr_data;
           addr_data = take (length addr_data - addr_checksum_size) addr_data;
           hash = cn_fast_hash addr_data;
           expected_checksum = take addr_checksum_size (bytes_of_word 32 hash)
       in if expected_checksum \<noteq> checksum then None
          else
            let (rd, tag, rest) = read_varint 64 addr_data
            in if rd \<le> 0 then None
               else Some (of_nat tag, drop (nat rd) addr_data) }"

subsection \<open>Facts on the tables\<close>

lemma length_alphabet: "length alphabet = 58"
  by (simp add: alphabet_def)

lemma alphabet_eq [code]:
  "alphabet = [49, 50, 51, 52, 53, 54, 55, 56, 57, 65, 66, 67, 68, 69, 70, 71, 72, 74, 75, 76, 77, 78, 80, 81, 82,
     83, 84, 85, 86, 87, 88, 89, 90, 97, 98, 99, 100, 101, 102, 103, 104, 105, 106, 107, 109, 110,
     111, 112, 113, 114, 115, 116, 117, 118, 119, 120, 121, 122]"
  by (simp add: alphabet_def)

lemma reverse_alphabet_data_eq [code]:
  "reverse_alphabet_data =
    [0, 1, 2, 3, 4, 5, 6, 7, 8, -1, -1, -1, -1, -1, -1, -1, 9, 10, 11, 12, 13, 14, 15, 16, -1, 17, 18, 19, 20, 21,
     -1, 22, 23, 24, 25, 26, 27, 28, 29, 30, 31, 32, -1, -1, -1, -1, -1, -1, 33, 34, 35, 36, 37, 38, 39, 40, 41, 42,
     43, -1, 44, 45, 46, 47, 48, 49, 50, 51, 52, 53, 54, 55, 56, 57]"
  by code_simp

lemma decoded_block_sizes_data_eq:
  "decoded_block_sizes_data = [0, -1, 1, 2, -1, 3, 4, 5, -1, 6, 7, 8]"
  by code_simp

lemma sint_alphabet_0: "sint (alphabet ! 0) = 49"
  by (simp add: alphabet_def)

lemma reverse_alphabet_code [code]:
  "reverse_alphabet letter =
     (let idx = sint letter - 49
      in if 0 \<le> idx \<and> idx < 74 then reverse_alphabet_data ! nat idx else - 1)"
  by (simp add: reverse_alphabet_def sint_alphabet_0 reverse_alphabet_data_eq)

lemma reverse_alphabet_alphabet_all:
  "list_all (\<lambda>i. reverse_alphabet (alphabet ! i) = int i) [0..<58]"
  by code_simp

lemma alphabet_reverse_all:
  "list_all (\<lambda>c. let d = reverse_alphabet c in d < 0 \<or> d < 58 \<and> alphabet ! nat d = c) (map of_nat [0..<256])"
  by code_simp

lemma reverse_alphabet_nth: "d < 58 \<Longrightarrow> reverse_alphabet (alphabet ! d) = int d"
  using reverse_alphabet_alphabet_all by (simp add: list_all_iff)

lemma reverse_alphabet_valid:
  assumes "0 \<le> reverse_alphabet c"
  shows "nat (reverse_alphabet c) < 58" and "alphabet ! nat (reverse_alphabet c) = c"
proof -
  have "c = of_nat (unat c)" and "unat c < 256" by simp_all
  then have "c \<in> set (map of_nat [0..<256])" by (metis atLeastLessThan_iff image_eqI list.set_map set_upt zero_le)
  then have "reverse_alphabet c < 58 \<and> alphabet ! nat (reverse_alphabet c) = c"
    using alphabet_reverse_all assms by (fastforce simp: list_all_iff Let_def)
  then show "nat (reverse_alphabet c) < 58" "alphabet ! nat (reverse_alphabet c) = c" using assms by auto
qed

subsection \<open>Numbers in base 256 and base 58\<close>

text \<open>Big-endian digits and value of a digit list.\<close>

primrec digits :: "nat \<Rightarrow> nat \<Rightarrow> nat \<Rightarrow> nat list" where
  "digits base 0 n = []"
| "digits base (Suc k) n = digits base k (n div base) @ [n mod base]"

definition digits_value :: "nat \<Rightarrow> nat list \<Rightarrow> nat" where
  "digits_value base ds = fold (\<lambda>d v. base * v + d) ds 0"

lemma digits_value_snoc [simp]: "digits_value base (ds @ [d]) = base * digits_value base ds + d"
  by (simp add: digits_value_def)

lemma digits_value_Nil [simp]: "digits_value base [] = 0"
  by (simp add: digits_value_def)

lemma length_digits [simp]: "length (digits base k n) = k"
  by (induction k arbitrary: n) auto

lemma digits_less: "0 < base \<Longrightarrow> d \<in> set (digits base k n) \<Longrightarrow> d < base"
  by (induction k arbitrary: n) auto

lemma digits_value_digits: "digits_value base (digits base k n) = n mod base ^ k"
  by (induction k arbitrary: n) (simp_all add: mod_mult2_eq)

lemma digits_zero [simp]: "digits base k 0 = replicate k 0"
  by (induction k) (simp_all add: replicate_append_same)

lemma digits_of_value:
  "\<forall>d \<in> set ds. d < base \<Longrightarrow> digits base (length ds) (digits_value base ds) = ds"
  by (induction ds rule: rev_induct) auto

lemma digits_value_less:
  "\<forall>d \<in> set ds. d < base \<Longrightarrow> digits_value base ds < base ^ length ds"
proof (induction ds rule: rev_induct)
  case (snoc d ds)
  then have "base * (digits_value base ds + 1) \<le> base * base ^ length ds"
    by (intro mult_le_mono2) (simp add: Suc_leI)
  then show ?case using snoc.prems by (simp add: algebra_simps)
qed simp

abbreviation be_value :: "blob \<Rightarrow> nat" where
  "be_value bs \<equiv> digits_value 256 (map unat bs)"

lemma be_value_less: "be_value bs < 256 ^ length bs"
  using digits_value_less [of "map unat bs" 256] by simp

lemma be_value_le: "be_value bs = nat_of_le (rev bs)"
  by (induction bs rule: rev_induct) simp_all

lemma uint_8be_to_64_value:
  assumes "length (take sz data) \<le> 8"
  shows "unat (uint_8be_to_64 data sz) = be_value (take sz data)"
proof -
  have "unat (fold (\<lambda>b res. push_bit 8 res OR ucast b) bs (0 :: u64)) = be_value bs" if "length bs \<le> 8" for bs :: blob
    using that
  proof (induction bs rule: rev_induct)
    case (snoc b bs)
    have "(256 :: nat) ^ length bs \<le> 256 ^ 7" using snoc.prems by (intro power_increasing) auto
    with be_value_less [of bs] have "be_value bs < 72057594037927936" by simp
    then show ?case
      using snoc by (simp add: unat_push_or unat_ucast_up)
  qed simp
  then show ?thesis using assms by (simp add: uint_8be_to_64_def)
qed

lemma take_le_of_nat: "k \<le> n \<Longrightarrow> take k (le_of_nat n x) = le_of_nat k x"
proof (induction k arbitrary: n x)
  case (Suc k)
  then obtain m where "n = Suc m" by (cases n) auto
  with Suc show ?case by simp
qed simp

lemma uint_64_to_8be_bytes:
  assumes "sz \<le> 8"
  shows "uint_64_to_8be num sz = rev (bytes_of_word sz num)"
proof -
  have "drop (8 - sz) (rev (bytes_of_word 8 num)) = rev (take sz (bytes_of_word 8 num))"
    using assms by (simp add: rev_take)
  moreover have "take sz (bytes_of_word 8 num) = bytes_of_word sz num"
    using assms by (simp add: bytes_of_word_def take_le_of_nat)
  ultimately show ?thesis using assms by (simp add: uint_64_to_8be_def SWAP64_bytes)
qed

text \<open>The two conversions are inverse to each other on numbers of \<open>sz\<close> bytes.\<close>

lemma uint_64_to_8be_value:
  assumes "1 \<le> sz" and "sz \<le> 8" and "unat num < 256 ^ sz"
  shows "be_value (uint_64_to_8be num sz) = unat num"
  using assms by (simp add: uint_64_to_8be_bytes be_value_le bytes_of_word_def nat_of_le_of_nat)

lemma be_value_inj: "length bs = length cs \<Longrightarrow> be_value bs = be_value cs \<Longrightarrow> bs = cs"
proof -
  assume len: "length bs = length cs" and "be_value bs = be_value cs"
  then have "rev bs = rev cs" by (metis be_value_le le_of_nat_of_le length_rev)
  then show "bs = cs" by simp
qed

subsection \<open>Encoding a block\<close>

lemma encode_block_loop_digits:
  "unat num < 58 ^ k \<Longrightarrow>
   encode_block_loop num (int k - 1) (replicate k (alphabet ! 0) @ rest)
     = Some (map ((!) alphabet) (digits 58 k (unat num)) @ rest)"
proof (induction k arbitrary: num rest)
  case 0
  then show ?case by (simp add: encode_block_loop.simps word_less_nat_alt)
next
  case (Suc k)
  show ?case
  proof (cases "num = 0")
    case True
    then show ?thesis by (simp add: encode_block_loop.simps map_replicate_const)
  next
    case False
    then have pos: "0 < num" by (simp add: word_neq_0_conv)
    define c where "c = alphabet ! unat (num mod 58)"
    define res where "res = replicate (Suc k) (alphabet ! 0) @ rest"
    have upd: "res[k := c] = replicate k (alphabet ! 0) @ (c # rest)"
      using list_update_length [of "replicate k (alphabet ! 0)" "alphabet ! 0" rest c]
      by (simp add: res_def replicate_app_Cons_same)
    have "k < length res" by (simp add: res_def)
    then have step: "encode_block_loop num (int (Suc k) - 1) res
        = encode_block_loop (num div 58) (int k - 1) (res[k := c])"
      using pos by (subst encode_block_loop.simps) (simp add: c_def Let_def)
    have "unat (num div 58) < 58 ^ k"
      using Suc.prems by (simp add: unat_div less_mult_imp_div_less mult.commute)
    from Suc.IH [OF this, of "c # rest"] show ?thesis
      unfolding res_def [symmetric] step upd by (simp add: c_def unat_div unat_mod)
  qed
qed

lemma nat_le_8:
  "(m :: nat) \<le> 8 \<Longrightarrow> m = 8 \<or> m = 7 \<or> m = 6 \<or> m = 5 \<or> m = 4 \<or> m = 3 \<or> m = 2 \<or> m = 1 \<or> m = 0"
  by presburger

text \<open>A block of every size fits into the symbols reserved for it.\<close>

lemma block_fits: "1 \<le> sz \<Longrightarrow> sz \<le> 8 \<Longrightarrow> 256 ^ sz \<le> (58 :: nat) ^ (encoded_block_sizes ! sz)"
  by (drule nat_le_8) (auto simp: encoded_block_sizes_def)

definition enc_block :: "blob \<Rightarrow> blob" where
  "enc_block bs = map ((!) alphabet) (digits 58 (encoded_block_sizes ! length bs) (be_value bs))"

lemma length_enc_block [simp]: "length (enc_block bs) = encoded_block_sizes ! length bs"
  by (simp add: enc_block_def)

lemma encode_block_eq:
  assumes "1 \<le> sz" and "sz \<le> 8" and "sz \<le> length block"
  shows "encode_block block sz (replicate (encoded_block_sizes ! sz) (alphabet ! 0) @ rest)
    = Some (enc_block (take sz block) @ rest)"
proof -
  have len: "length (take sz block) = sz" using assms(3) by simp
  have v: "unat (uint_8be_to_64 block sz) = be_value (take sz block)"
    using assms len by (intro uint_8be_to_64_value) simp
  have "be_value (take sz block) < 58 ^ (encoded_block_sizes ! sz)"
    using be_value_less [of "take sz block"] block_fits [OF assms(1,2)] len by simp
  then show ?thesis
    using encode_block_loop_digits [of "uint_8be_to_64 block sz" "encoded_block_sizes ! sz" rest] v len
    by (simp add: encode_block_def enc_block_def)
qed

subsection \<open>Decoding a block\<close>

abbreviation symbol_digits :: "blob \<Rightarrow> nat list" where
  "symbol_digits cs \<equiv> map (\<lambda>c. nat (reverse_alphabet c)) cs"

definition valid_symbols :: "blob \<Rightarrow> bool" where
  "valid_symbols cs \<longleftrightarrow> (\<forall>c \<in> set cs. 0 \<le> reverse_alphabet c)"

lemma add_overflow_iff: "(x + y :: u64) < x \<longleftrightarrow> 2 ^ 64 \<le> unat x + unat y"
  using carry_add [of x y] unat_lt_64 [of "x + y"] unat_lt_64 [of y] by (auto simp: word_less_nat_alt simp del: unat_lt_64 split: if_splits)

lemma decode_block_loop_value:
  assumes "k \<le> length block" and "j + k \<le> 11" and "k \<noteq> 0 \<longrightarrow> unat order = 58 ^ j"
  shows "decode_block_loop block k r order =
    (let cs = take k block; v = unat r + 58 ^ j * digits_value 58 (symbol_digits cs)
     in if valid_symbols cs \<and> v < 2 ^ 64 then Some (of_nat v) else None)"
  using assms
proof (induction k arbitrary: j r order)
  case 0
  then show ?case by (simp add: valid_symbols_def)
next
  case (Suc i)
  let ?c = "block ! i"
  let ?cs = "take i block"
  have take: "take (Suc i) block = ?cs @ [?c]" using Suc.prems(1) by (simp add: take_Suc_conv_app_nth)
  show ?case
  proof (cases "reverse_alphabet ?c < 0")
    case True
    then show ?thesis by (simp add: take valid_symbols_def)
  next
    case False
    define d where "d = nat (reverse_alphabet ?c)"
    have d: "reverse_alphabet ?c = int d" "d < 58"
      using False reverse_alphabet_valid(1) [of ?c] by (simp_all add: d_def)
    obtain hi lo where m: "mul128 order (word_of_int (int d)) = (hi, lo)" by fastforce
    have "unat (word_of_int (int d) :: u64) = d" using d(2) by (simp add: unat_of_nat)
    with mul128_correct [OF m] Suc.prems(3) have p: "unat hi * 2 ^ 64 + unat lo = 58 ^ j * d" by simp
    let ?v = "digits_value 58 (symbol_digits ?cs)"
    have tot: "unat r + 58 ^ j * digits_value 58 (symbol_digits (take (Suc i) block))
        = unat r + 58 ^ j * d + 58 ^ (j + 1) * ?v"
      by (simp add: take d add_mult_distrib2)
    show ?thesis
    proof (cases "r + lo < r \<or> hi \<noteq> 0")
      case True
      then have "2 ^ 64 \<le> unat r + 58 ^ j * d"
      proof
        assume "r + lo < r"
        then show ?thesis using p unfolding add_overflow_iff by linarith
      next
        assume "hi \<noteq> 0"
        then have "1 \<le> unat hi" using unat_gt_0 [of hi] by simp
        then have "2 ^ 64 \<le> unat hi * 2 ^ 64" by simp
        then show ?thesis using p by linarith
      qed
      then show ?thesis using True m d tot by (auto simp: Let_def)
    next
      case no: False
      then have sum: "unat (r + lo) = unat r + 58 ^ j * d"
        using p by (simp add: add_overflow_iff unat_add_no_overflow)
      have "unat (order * 58) = 58 ^ (j + 1)" if "i \<noteq> 0"
      proof -
        have "(58 :: nat) ^ (j + 1) \<le> 58 ^ 10" using that Suc.prems(2) by (intro power_increasing) auto
        then show ?thesis using Suc.prems(3) by (subst unat_mult_no_overflow) simp_all
      qed
      then have "decode_block_loop block i (r + lo) (order * 58) =
        (let cs = ?cs; v = unat (r + lo) + 58 ^ (j + 1) * digits_value 58 (symbol_digits cs)
         in if valid_symbols cs \<and> v < 2 ^ 64 then Some (of_nat v) else None)"
        using Suc.prems by (intro Suc.IH) auto
      then show ?thesis using no m d sum tot by (simp add: Let_def take valid_symbols_def)
    qed
  qed
qed

subsection \<open>Blocks as a codec\<close>

lemma decoded_size: "n \<le> 8 \<Longrightarrow> decoded_block_sizes (encoded_block_sizes ! n) = int n"
  by (drule nat_le_8) (auto simp: decoded_block_sizes_def decoded_block_sizes_data_eq encoded_block_sizes_def)

lemma nat_lt_12: "(m :: nat) < 12 \<Longrightarrow> m = 11 \<or> m = 10 \<or> m = 9 \<or> m = 8 \<or> m = 7 \<or> m = 6 \<or> m = 5 \<or> m = 4 \<or> m = 3 \<or> m = 2 \<or> m = 1 \<or> m = 0"
  by presburger

lemma decoded_size_inv:
  "sz < 12 \<Longrightarrow> 0 \<le> decoded_block_sizes sz \<Longrightarrow> \<exists>n \<le> 8. decoded_block_sizes sz = int n \<and> sz = encoded_block_sizes ! n"
  by (drule nat_lt_12)
    (auto simp: decoded_block_sizes_def decoded_block_sizes_data_eq encoded_block_sizes_def
      intro: exI [of _ 0] exI [of _ 1] exI [of _ 2] exI [of _ 3] exI [of _ 4] exI [of _ 5] exI [of _ 6]
        exI [of _ 7] exI [of _ 8])

lemma encoded_size_bounds: "n \<le> 8 \<Longrightarrow> encoded_block_sizes ! n \<le> 11 \<and> (encoded_block_sizes ! n = 0 \<longleftrightarrow> n = 0)"
  by (drule nat_le_8) (auto simp: encoded_block_sizes_def)

definition dec_block :: "blob \<Rightarrow> blob option" where
  "dec_block cs =
     (let n = nat (decoded_block_sizes (length cs)); v = digits_value 58 (symbol_digits cs)
      in if length cs < 12 \<and> 0 < decoded_block_sizes (length cs) \<and> valid_symbols cs \<and> v < 256 ^ n
         then Some (rev (le_of_nat n v)) else None)"

lemma decode_block_eq:
  assumes "sz < 12" and "sz \<le> length block"
  shows "decode_block block sz = dec_block (take sz block)"
proof (cases "0 < decoded_block_sizes sz")
  case True
  then obtain n where n: "n \<le> 8" "decoded_block_sizes sz = int n" "sz = encoded_block_sizes ! n" "1 \<le> n"
    using decoded_size_inv [OF assms(1)] by force
  define cs where "cs = take sz block"
  define v where "v = digits_value 58 (symbol_digits cs)"
  have len: "length cs = sz" using assms(2) by (simp add: cs_def)
  have loop: "decode_block_loop block sz 0 1 = (if valid_symbols cs \<and> v < 2 ^ 64 then Some (of_nat v) else None)"
    using decode_block_loop_value [of sz block 0 1 0] assms by (simp add: Let_def cs_def v_def)
  have le64: "(256 :: nat) ^ n \<le> 2 ^ 64" using n(1) power_increasing [of n 8 "256 :: nat"] by simp
  have dec: "dec_block cs = (if valid_symbols cs \<and> v < 256 ^ n then Some (rev (le_of_nat n v)) else None)"
    using True assms(1) n(2) by (simp add: dec_block_def Let_def len v_def)
  have "decode_block block sz = dec_block cs"
  proof (cases "valid_symbols cs \<and> v < 2 ^ 64")
    case False
    then show ?thesis using loop True dec le64 by (auto simp: decode_block_def)
  next
    case ok: True
    have uv: "unat (of_nat v :: u64) = v" using ok by (simp add: unat_of_nat)
    have "unat (push_bit (8 * n) 1 :: u64) = 256 ^ n" if "n < 8"
      using nat_le_8 [OF n(1)] that by (auto simp: unat_push_bit)
    then have "(n < 8 \<and> push_bit (8 * n) 1 \<le> (of_nat v :: u64)) \<longleftrightarrow> \<not> v < 256 ^ n"
      using uv ok n(1) by (cases "n = 8") (auto simp: word_le_nat_alt not_less)
    then show ?thesis using loop True n ok uv dec
      by (simp add: decode_block_def full_block_size_def uint_64_to_8be_bytes bytes_of_word_def)
  qed
  then show ?thesis by (simp add: cs_def)
next
  case False
  then show ?thesis using assms by (simp add: decode_block_def dec_block_def)
qed

interpretation b58_block: codec "\<lambda>bs. 1 \<le> length bs \<and> length bs \<le> 8" enc_block dec_block
proof
  fix bs :: blob assume len: "1 \<le> length bs \<and> length bs \<le> 8"
  let ?k = "encoded_block_sizes ! length bs"
  have "be_value bs < 58 ^ ?k" using be_value_less [of bs] block_fits [of "length bs"] len by simp
  moreover have "map (\<lambda>c. nat (reverse_alphabet c)) (enc_block bs) = digits 58 ?k (be_value bs)"
    unfolding enc_block_def map_map using digits_less [of 58]
    by (intro map_idI) (auto simp: reverse_alphabet_nth)
  moreover have "valid_symbols (enc_block bs)"
    unfolding enc_block_def valid_symbols_def using digits_less [of 58] by (auto simp: reverse_alphabet_nth)
  moreover have "rev (le_of_nat (length bs) (be_value bs)) = bs"
    using le_of_nat_of_le [of "rev bs"] by (simp add: be_value_le)
  ultimately show "dec_block (enc_block bs) = Some bs"
    using len decoded_size [of "length bs"] encoded_size_bounds [of "length bs"] be_value_less [of bs]
    by (auto simp: dec_block_def Let_def digits_value_digits)
next
  fix cs bs assume "dec_block cs = Some bs"
  then obtain v where v: "v = digits_value 58 (symbol_digits cs)" "bs = rev (le_of_nat (nat (decoded_block_sizes (length cs))) v)"
      "v < 256 ^ nat (decoded_block_sizes (length cs))" "valid_symbols cs" "length cs < 12"
      "0 < decoded_block_sizes (length cs)"
    by (auto simp: dec_block_def Let_def split: if_splits)
  then obtain n where n: "n \<le> 8" "decoded_block_sizes (length cs) = int n" "length cs = encoded_block_sizes ! n"
    using decoded_size_inv by force
  have len: "length bs = n" and "be_value bs = v" using v n by (simp_all add: be_value_le nat_of_le_of_nat)
  moreover have "digits 58 (length cs) v = symbol_digits cs"
    using digits_of_value [of "symbol_digits cs" 58] v reverse_alphabet_valid(1) by (auto simp: valid_symbols_def)
  moreover have "map ((!) alphabet) (symbol_digits cs) = cs"
    unfolding map_map using v(4) reverse_alphabet_valid(2) by (intro map_idI) (auto simp: valid_symbols_def)
  ultimately show "(1 \<le> length bs \<and> length bs \<le> 8) \<and> enc_block bs = cs"
    using n v(6) by (simp add: enc_block_def)
qed

subsection \<open>Strings\<close>

lemma full_sizes [simp]: "encoded_block_sizes ! 8 = 11" "encoded_block_sizes ! 0 = 0"
  by (simp_all add: encoded_block_sizes_def)

lemma enc_block_Nil [simp]: "enc_block [] = []"
  by (simp add: enc_block_def)

lemma encode_loop_eq:
  "8 * n \<le> length data \<Longrightarrow> i \<le> n \<Longrightarrow> length out = 11 * i \<Longrightarrow>
   encode_loop data [i..<n] (out @ replicate (11 * (n - i) + t) (alphabet ! 0))
     = Some (out @ concat (map (\<lambda>j. enc_block (take 8 (drop (8 * j) data))) [i..<n]) @ replicate t (alphabet ! 0))"
proof (induction "n - i" arbitrary: i out)
  case 0
  then show ?case by simp
next
  case (Suc m)
  then have i: "i < n" by simp
  let ?b = "enc_block (take 8 (drop (8 * i) data))"
  have "8 * Suc i \<le> 8 * n" using i by (intro mult_le_mono2) simp
  then have len: "8 \<le> length (drop (8 * i) data)" using Suc.prems(1) by simp
  have "11 * (n - i) + t = 11 + (11 * (n - Suc i) + t)" using i by (simp add: Suc_diff_Suc flip: mult_Suc_right)
  then have split: "replicate (11 * (n - i) + t) (alphabet ! 0)
      = replicate (encoded_block_sizes ! 8) (alphabet ! 0) @ replicate (11 * (n - Suc i) + t) (alphabet ! 0)"
    by (simp only: replicate_add full_sizes)
  have "encode_block (drop (8 * i) data) 8 (replicate (11 * (n - i) + t) (alphabet ! 0))
      = Some (?b @ replicate (11 * (n - Suc i) + t) (alphabet ! 0))"
    unfolding split using len by (intro encode_block_eq) auto
  moreover have "length (out @ ?b) = 11 * Suc i" using Suc.prems(3) len by simp
  ultimately show ?case
    using Suc.hyps(1) [of "Suc i" "out @ ?b"] Suc.prems(1,3) Suc.hyps(2) i
    by (simp add: upt_conv_Cons full_block_size_def full_encoded_block_size_def mult.commute)
qed

lemma encode_eq:
  "encode data = Some (concat (map enc_block (chunks 8 (length data div 8) data))
     @ enc_block (drop (8 * (length data div 8)) data))"
proof -
  define n r where "n = length data div 8" and "r = length data mod 8"
  have len: "length data = 8 * n + r" "r < 8" by (simp_all add: n_def r_def)
  let ?full = "concat (map enc_block (chunks 8 n data))"
  have loop: "encode_loop data [0..<n] (replicate (11 * n + t) (alphabet ! 0)) = Some (?full @ replicate t (alphabet ! 0))" for t
    using encode_loop_eq [of n data 0 "[]" t] len by (simp add: chunks_def comp_def)
  have flen: "length ?full = 11 * n"
  proof -
    have "length (enc_block c) = 11" if "c \<in> set (chunks 8 n data)" for c
      using chunk_length [OF _ that] len by simp
    then show ?thesis by (simp add: length_concat comp_def sum_list_triv cong: map_cong)
  qed
  show ?thesis
  proof (cases "data = []")
    case False
    show ?thesis
    proof (cases "r = 0")
      case True
      then show ?thesis using loop [of 0] False len
        by (simp add: encode_def Let_def full_block_size_def full_encoded_block_size_def mult.commute flip: n_def r_def)
    next
      case r: False
      have "encode_block (drop (8 * n) data) r (replicate (encoded_block_sizes ! r) (alphabet ! 0) @ [])
          = Some (enc_block (take r (drop (8 * n) data)) @ [])"
        using r len by (intro encode_block_eq) auto
      then show ?thesis using loop [of "encoded_block_sizes ! r"] False len r flen
        by (simp add: encode_def Let_def full_block_size_def full_encoded_block_size_def mult.commute flip: n_def r_def)
    qed
  qed (simp add: encode_def)
qed

lemma decode_loop_eq:
  "11 * n \<le> length e \<Longrightarrow> i \<le> n \<Longrightarrow> length out = 8 * i \<Longrightarrow>
   decode_loop e [i..<n] (out @ replicate (8 * (n - i) + t) 0)
     = map_option (\<lambda>bs. out @ concat bs @ replicate t 0)
         (those (map (\<lambda>j. dec_block (take 11 (drop (11 * j) e))) [i..<n]))"
proof (induction "n - i" arbitrary: i out)
  case 0
  then show ?case by simp
next
  case (Suc m)
  then have i: "i < n" by simp
  let ?c = "take 11 (drop (11 * i) e)"
  have "11 * Suc i \<le> 11 * n" using i by (intro mult_le_mono2) simp
  then have len: "11 \<le> length (drop (11 * i) e)" using Suc.prems(1) by simp
  then have blk: "decode_block (drop (11 * i) e) 11 = dec_block ?c" by (intro decode_block_eq) auto
  show ?case
  proof (cases "dec_block ?c")
    case None
    then show ?thesis using i blk
      by (simp add: upt_conv_Cons full_block_size_def full_encoded_block_size_def mult.commute)
  next
    case (Some b)
    then have "length b = 8"
      using b58_block.enc_dec [OF Some] len nat_le_8 [of "length b"]
      by (auto simp: encoded_block_sizes_def dest!: arg_cong [of _ _ length])
    moreover have "8 * (n - i) + t = 8 + (8 * (n - Suc i) + t)" using i by (simp add: Suc_diff_Suc flip: mult_Suc_right)
    ultimately have "write_at (8 * i) b (out @ replicate (8 * (n - i) + t) 0) = (out @ b) @ replicate (8 * (n - Suc i) + t) 0"
      using Suc.prems(3) by (simp add: write_at_def replicate_add)
    moreover have "length (out @ b) = 8 * Suc i" using Suc.prems(3) \<open>length b = 8\<close> by simp
    ultimately show ?thesis
      using Suc.hyps(1) [of "Suc i" "out @ b"] Suc.prems(1) Suc.hyps(2) i blk Some
      by (simp add: upt_conv_Cons full_block_size_def full_encoded_block_size_def mult.commute
          option.map_comp comp_def)
  qed
qed

lemma enc_block_11: "1 \<le> length b \<Longrightarrow> length b \<le> 8 \<Longrightarrow> encoded_block_sizes ! length b = 11 \<longleftrightarrow> length b = 8"
  using nat_le_8 [of "length b"] by (auto simp: encoded_block_sizes_def)

lemma dec_block_length:
  assumes "dec_block c = Some b"
  shows "decoded_block_sizes (length c) = int (length b)" and "length c = encoded_block_sizes ! length b"
    and "1 \<le> length b" and "length b \<le> 8" and "length c = 11 \<Longrightarrow> length b = 8"
proof -
  have b: "1 \<le> length b" "length b \<le> 8" "enc_block b = c" using b58_block.enc_dec [OF assms] by auto
  then show "length c = encoded_block_sizes ! length b" by (metis length_enc_block)
  with b show "decoded_block_sizes (length c) = int (length b)" "1 \<le> length b" "length b \<le> 8"
      "length c = 11 \<Longrightarrow> length b = 8"
    by (simp_all add: decoded_size enc_block_11)
qed

lemma decoded_blocks:
  assumes "those (map dec_block (chunks 11 n e)) = Some bs" and "11 * n \<le> length e"
  shows "map enc_block bs = chunks 11 n e" and "length bs = n" and "\<And>b. b \<in> set bs \<Longrightarrow> length b = 8"
    and "length (concat bs) = 8 * n"
proof -
  show map: "map enc_block bs = chunks 11 n e" using assms(1) by (simp add: b58_block.those_map_dec)
  show len: "length bs = n" using arg_cong [OF map, of length] by simp
  show b8: "length b = 8" if "b \<in> set bs" for b
  proof -
    have "1 \<le> length b" "length b \<le> 8" using assms(1) that by (auto simp: b58_block.those_map_dec list_all_iff)
    moreover have "enc_block b \<in> set (chunks 11 n e)" using that by (simp flip: map)
    ultimately show ?thesis using chunk_length [OF assms(2)] enc_block_11 [of b] by fastforce
  qed
  show "length (concat bs) = 8 * n" using len b8 by (simp add: length_concat sum_list_triv cong: map_cong)
qed

lemma decode_eq:
  fixes e :: blob
  defines "n \<equiv> length e div 11" and "r \<equiv> length e mod 11"
  shows "decode e =
    (if decoded_block_sizes r < 0 then None
     else do {
       bs \<leftarrow> those (map dec_block (chunks 11 n e));
       last \<leftarrow> (if r = 0 then Some [] else dec_block (drop (11 * n) e));
       Some (concat bs @ last) })"
proof (cases "decoded_block_sizes r < 0 \<or> e = []")
  case True
  then show ?thesis by (auto simp: decode_def Let_def full_encoded_block_size_def n_def r_def
        decoded_block_sizes_def decoded_block_sizes_data_eq)
next
  case False
  have len: "length e = 11 * n + r" "r < 11" by (simp_all add: n_def r_def)
  let ?ld = "nat (decoded_block_sizes r)"
  have loop: "decode_loop e [0..<n] (replicate (8 * n + t) 0)
      = map_option (\<lambda>bs. concat bs @ replicate t 0) (those (map dec_block (chunks 11 n e)))" for t
    using decode_loop_eq [of n e 0 "[]" t] len by (simp add: chunks_def comp_def)
  show ?thesis
  proof (cases "those (map dec_block (chunks 11 n e))")
    case None
    then show ?thesis using False loop [of ?ld]
      by (simp add: decode_def Let_def full_block_size_def full_encoded_block_size_def mult.commute flip: n_def r_def)
  next
    case (Some bs)
    show ?thesis
    proof (cases "r = 0")
      case True
      moreover have "decoded_block_sizes 0 = 0" by (simp add: decoded_block_sizes_def decoded_block_sizes_data_eq)
      ultimately show ?thesis using False loop [of 0] Some
        by (simp add: decode_def Let_def full_block_size_def full_encoded_block_size_def mult.commute flip: n_def r_def)
    next
      case r: False
      have clen: "length (concat bs) = 8 * n" using decoded_blocks(4) [OF Some] len by simp
      have blk: "decode_block (drop (11 * n) e) r = dec_block (drop (11 * n) e)"
        using decode_block_eq [of r "drop (11 * n) e"] len by simp
      show ?thesis
      proof (cases "dec_block (drop (11 * n) e)")
        case None
        then show ?thesis using False loop [of ?ld] Some blk r
          by (simp add: decode_def Let_def full_block_size_def full_encoded_block_size_def mult.commute flip: n_def r_def)
      next
        case last: (Some b)
        then have "?ld = length b" using dec_block_length(1) [OF last] len by simp
        then have "write_at (8 * n) b (concat bs @ replicate ?ld 0) = concat bs @ b"
          using clen by (simp add: write_at_def)
        then show ?thesis using False loop [of ?ld] Some last blk r
          by (simp add: decode_def Let_def full_block_size_def full_encoded_block_size_def mult.commute flip: n_def r_def)
      qed
    qed
  qed
qed

text \<open>Decoding accepts exactly the encodings.\<close>

lemma decode_encode:
  assumes "encode d = Some e"
  shows "decode e = Some d"
proof -
  define n where "n = length d div 8"
  define last where "last = drop (8 * n) d"
  have last: "length last = length d mod 8" by (simp add: last_def n_def minus_mult_div_eq_mod)
  have e: "e = concat (map enc_block (chunks 8 n d)) @ enc_block last"
    using assms by (simp add: encode_eq n_def last_def)
  have n: "8 * n \<le> length d" by (simp add: n_def)
  have c8: "length c = 8" if "c \<in> set (chunks 8 n d)" for c using chunk_length [OF n that] .
  have small: "encoded_block_sizes ! length last < 11"
    using nat_le_8 [of "length last"] last by (auto simp: encoded_block_sizes_def)
  have full: "length (concat (map enc_block (chunks 8 n d))) = 11 * n"
    using c8 by (simp add: length_concat comp_def sum_list_triv cong: map_cong)
  have len: "length e div 11 = n" "length e mod 11 = encoded_block_sizes ! length last"
    using full small by (simp_all add: e)
  have "chunks 11 (length (map enc_block (chunks 8 n d))) e = map enc_block (chunks 8 n d)"
    unfolding e using c8 by (intro chunks_concat) auto
  then have ch: "chunks 11 n e = map enc_block (chunks 8 n d)" by simp
  have "those (map dec_block (chunks 11 n e)) = Some (chunks 8 n d)"
    unfolding ch using c8 by (auto simp: b58_block.those_map_dec list_all_iff simp del: map_map)
  moreover have "drop (11 * n) e = enc_block last" using full by (simp add: e)
  moreover have "(if encoded_block_sizes ! length last = 0 then Some [] else dec_block (enc_block last)) = Some last"
    using encoded_size_bounds [of "length last"] last b58_block.dec_enc [of last] by auto
  moreover have "decoded_block_sizes (encoded_block_sizes ! length last) = int (length last)"
    using last by (intro decoded_size) simp
  moreover have "concat (chunks 8 n d) @ last = d" by (simp add: concat_chunks [OF n] last_def)
  ultimately show ?thesis unfolding decode_eq len by (auto split: if_splits)
qed

lemma encode_decode:
  assumes "decode e = Some d"
  shows "encode d = Some e"
proof -
  define n r where "n = length e div 11" and "r = length e mod 11"
  have len: "length e = 11 * n + r" "r < 11" by (simp_all add: n_def r_def)
  obtain bs last where bs: "those (map dec_block (chunks 11 n e)) = Some bs"
    and last: "(if r = 0 then Some [] else dec_block (drop (11 * n) e)) = Some last" and d: "d = concat bs @ last"
    using assms unfolding decode_eq n_def [symmetric] r_def [symmetric]
    by (auto split: if_splits bind_splits)
  have "11 * n \<le> length e" using len by simp
  note full = decoded_blocks [OF bs this]
  have l: "length last < 8" "enc_block last = drop (11 * n) e"
  proof -
    show "enc_block last = drop (11 * n) e"
      using last len b58_block.enc_dec [of "drop (11 * n) e" last] by (auto split: if_splits)
    then have "encoded_block_sizes ! length last = r" using len by (metis add_diff_cancel_left' length_drop length_enc_block)
    moreover have "length last \<le> 8" using last dec_block_length(4) [of "drop (11 * n) e" last] by (auto split: if_splits)
    ultimately show "length last < 8" using len(2) nat_le_8 [of "length last"] by auto
  qed
  have dn: "length d div 8 = n" using l(1) full(4) by (simp add: d)
  have "chunks 8 (length bs) d = bs" unfolding d using full(3) by (intro chunks_concat) auto
  then have "chunks 8 n d = bs" using full(2) by simp
  moreover have "drop (8 * n) d = last" using full(4) by (simp add: d)
  moreover have "concat (chunks 11 n e) @ drop (11 * n) e = e" using concat_chunks [of 11 n e] len by simp
  ultimately show ?thesis by (simp add: encode_eq dn full(1) l(2))
qed

interpretation b58: codec "\<lambda>d. True" "\<lambda>d. the (encode d)" decode
proof
  fix d :: blob
  show "decode (the (encode d)) = Some d" using decode_encode [of d] by (simp add: encode_eq)
next
  fix e d assume "decode e = Some d"
  then show "True \<and> the (encode d) = e" using encode_decode by simp
qed

subsection \<open>Addresses\<close>

lemma encode_addr_decodes:
  assumes "encode_addr tag data = Some a"
  shows "decode_addr a = Some (tag, data)"
proof -
  define buf where "buf = write_varint (unat tag) @ data"
  define sum where "sum = take 4 (bytes_of_word 32 (cn_fast_hash buf))"
  have "encode (buf @ sum) = Some a"
    using assms by (simp add: encode_addr_def get_varint_data_def addr_checksum_size_def Let_def buf_def sum_def)
  then have "decode a = Some (buf @ sum)" by (rule decode_encode)
  moreover have "length sum = 4" by (simp add: sum_def)
  moreover have "write_varint (unat tag) \<noteq> []" by (subst write_varint.simps) simp
  moreover from this have "0 < length (write_varint (unat tag))" by simp
  moreover have "read_varint 64 buf = (int (length (write_varint (unat tag))), unat tag, data)"
    using read_write_loop [of "unat tag" 64 0 0 0 data] by (simp add: read_varint_def buf_def)
  ultimately show ?thesis
    by (simp add: decode_addr_def addr_checksum_size_def Let_def buf_def sum_def)
qed

subsection \<open>Properties\<close>

text \<open>
  C26. Base 58 encoding never writes outside its buffer, and decoding its result returns the
  original bytes, for byte strings of every length.
\<close>

theorem base58_round_trip: "\<exists>e. encode d = Some e \<and> decode e = Some d"
  using b58.dec_enc [of d] by (auto simp: encode_eq)

text \<open>
  C27. Base 58 strings are canonical: a string that \<open>decode\<close> accepts is exactly the encoding of the
  bytes it returns, so no two strings decode to the same bytes. This rests on every rejection in
  \<open>decode_block\<close>: invalid sizes, invalid symbols, 64-bit overflow and values too large for the block.
\<close>

theorem base58_canonical:
  assumes "decode e = Some d"
  shows "encode d = Some e"
  using b58.enc_dec [OF assms] by (simp add: encode_eq)

theorem base58_canonical_witness:
  "decode [0x35, 0x51] = Some [0xff] \<and> encode [0xff] = Some [0x35, 0x51]"
proof -
  have "encode [0xff] = Some [0x35, 0x51]"
    by code_simp
  then have d: "decode [0x35, 0x51] = Some [0xff]" by (rule decode_encode)
  show ?thesis using base58_canonical [OF d] d by simp
qed

text \<open>
  An address survives its text form: for every tag and payload \<open>encode_addr\<close> succeeds and
  \<open>decode_addr\<close> accepts the checksum and returns the same tag and payload.
\<close>

theorem address_round_trip: "\<exists>a. encode_addr tag data = Some a \<and> decode_addr a = Some (tag, data)"
proof -
  have "\<exists>a. encode_addr tag data = Some a" by (simp add: encode_addr_def encode_eq Let_def)
  then show ?thesis using encode_addr_decodes by blast
qed

text \<open>
  Addresses are canonical: a string that \<open>decode_addr\<close> accepts with a non-empty payload is the
  string \<open>encode_addr\<close> produces for the tag and payload returned. In particular its last four bytes
  are the checksum of everything before them.
\<close>

theorem address_canonical:
  assumes "decode_addr a = Some (tag, data)" and "data \<noteq> []"
  shows "encode_addr tag data = Some a"
proof -
  obtain full where full: "decode a = Some full" "4 < length full"
    using assms(1) by (auto simp: decode_addr_def addr_checksum_size_def Let_def split: bind_splits if_splits prod.splits)
  define buf where "buf = take (length full - 4) full"
  obtain rd v rest where rd: "read_varint 64 buf = (rd, v, rest)" by (metis prod_cases3)
  have sum: "drop (length full - 4) full = take 4 (bytes_of_word 32 (cn_fast_hash buf))"
    and "0 < rd" and tag: "tag = of_nat v" and data: "data = drop (nat rd) buf"
    using assms(1) full rd
    by (auto simp: decode_addr_def addr_checksum_size_def Let_def simp flip: buf_def split: if_splits)
  have read: "rd = int (length buf - length rest) \<and> suffix rest buf"
    using read_varint_consumes [OF rd \<open>0 < rd\<close>] .
  then have "rest = data" using data by (auto simp: suffix_def)
  then have "buf = write_varint v @ data \<and> v < 2 ^ 64"
    using read_loop_canonical [of 64 0 0 0 buf rd v rest] rd \<open>0 < rd\<close> assms(2) by (auto simp: read_varint_def)
  moreover from this have "unat tag = v" by (simp add: tag unat_of_nat)
  ultimately have "encode_addr tag data = encode (buf @ drop (length full - 4) full)"
    by (simp add: encode_addr_def get_varint_data_def addr_checksum_size_def sum Let_def)
  then show ?thesis using encode_decode [OF full(1)] by (simp add: buf_def)
qed

theorem address_canonical_witness:
  "\<exists>a. decode_addr a = Some (18, [1, 2, 3]) \<and> encode_addr 18 [1, 2, 3] = Some a"
proof -
  obtain a where "encode_addr 18 [1, 2, 3] = Some a" by (auto simp: encode_addr_def encode_eq Let_def)
  then have "decode_addr a = Some (18, [1, 2, 3])" by (rule encode_addr_decodes)
  then show ?thesis using address_canonical [of a 18 "[1, 2, 3]"] by auto
qed

end
