(* ===== verification/Difficulty.thy ===== *)
theory Difficulty
  imports Int_Util "HOL-Library.Multiset"
begin

text \<open>
  \<open>src/cryptonote_core/difficulty.cpp\<close>: the proof-of-work check and the difficulty of the next
  block. \<open>check_hash\<close> is a carry chain over four 64-bit words; it is proved to be the comparison of
  the 320-bit product of hash and difficulty with \<open>2 ^ 256\<close>. \<open>next_difficulty\<close> is proved to compute
  the rounded-up quotient of work times target and time span of the cut window, or 0 when that does
  not fit 64 bits, with all indices in range.
\<close>

definition DIFFICULTY_WINDOW :: nat where "DIFFICULTY_WINDOW = 720"
definition DIFFICULTY_LAG :: nat where "DIFFICULTY_LAG = 15"
definition DIFFICULTY_CUT :: nat where "DIFFICULTY_CUT = 60"
definition DIFFICULTY_TARGET :: u64 where "DIFFICULTY_TARGET = 60"
definition DIFFICULTY_BLOCKS_COUNT :: nat where
  "DIFFICULTY_BLOCKS_COUNT = DIFFICULTY_WINDOW + DIFFICULTY_LAG"

definition cadd :: "u64 \<Rightarrow> u64 \<Rightarrow> bool" where
  "cadd a b \<longleftrightarrow> a + b < a"

definition cadc :: "u64 \<Rightarrow> u64 \<Rightarrow> bool \<Rightarrow> bool" where
  "cadc a b c \<longleftrightarrow> a + b < a \<or> (c \<and> a + b = - 1)"

text \<open>\<open>((const uint64_t * ) &hash)[i]\<close> on a little-endian machine.\<close>

definition hash_word :: "hash \<Rightarrow> nat \<Rightarrow> u64" where
  "hash_word h i = ucast (drop_bit (64 * i) h)"

definition check_hash :: "hash \<Rightarrow> u64 \<Rightarrow> bool" where
  "check_hash h difficulty =
     (let (high, top) = mul (hash_word h 3) difficulty
      in if high \<noteq> 0 then False
         else
           let (cur, low) = mul (hash_word h 0) difficulty;
               (high, low) = mul (hash_word h 1) difficulty;
               carry = cadd cur low;
               cur = high;
               (high, low) = mul (hash_word h 2) difficulty;
               carry = cadc cur low carry;
               carry = cadc high top carry
           in \<not> carry)"

text \<open>\<open>std::vector::resize\<close>.\<close>

definition resize :: "nat \<Rightarrow> 'a \<Rightarrow> 'a list \<Rightarrow> 'a list" where
  "resize n x xs = take n xs @ replicate (n - length xs) x"

definition difficulty_cut :: "nat \<Rightarrow> nat \<times> nat" where
  "difficulty_cut len =
     (if len \<le> DIFFICULTY_WINDOW - 2 * DIFFICULTY_CUT then (0, len)
      else let cut_begin = (len - (DIFFICULTY_WINDOW - 2 * DIFFICULTY_CUT) + 1) div 2
           in (cut_begin, cut_begin + (DIFFICULTY_WINDOW - 2 * DIFFICULTY_CUT)))"

definition next_difficulty :: "u64 list \<Rightarrow> u64 list \<Rightarrow> u64 \<Rightarrow> u64" where
  "next_difficulty timestamps cumulative_difficulties target_seconds =
     (let (timestamps, cumulative_difficulties) =
            (if DIFFICULTY_WINDOW < length timestamps
             then (resize DIFFICULTY_WINDOW 0 timestamps, resize DIFFICULTY_WINDOW 0 cumulative_difficulties)
             else (timestamps, cumulative_difficulties));
          len = length timestamps
      in if len \<le> 1 then 1
         else
           let timestamps = sort timestamps;
               (cut_begin, cut_end) = difficulty_cut len;
               time_span = timestamps ! (cut_end - 1) - timestamps ! cut_begin;
               time_span = (if time_span = 0 then 1 else time_span);
               total_work = cumulative_difficulties ! (cut_end - 1) - cumulative_difficulties ! cut_begin;
               (high, low) = mul total_work target_seconds
           in if high \<noteq> 0 \<or> low + time_span - 1 < low then 0
              else (low + time_span - 1) div time_span)"

subsection \<open>The carry chain\<close>

lemma cadd_iff: "cadd a b \<longleftrightarrow> 2 ^ 64 \<le> unat a + unat b"
  using carry_add [of a b] unat_lt_64 [of "a + b"] unat_lt_64 [of b]
  by (auto simp: cadd_def word_less_nat_alt simp del: unat_lt_64 split: if_splits)

lemma minus_1_iff: "(x :: u64) = - 1 \<longleftrightarrow> unat x = 18446744073709551615"
  by (simp add: word_unat_eq_iff unsigned_minus_1_eq_mask mask_eq_exp_minus_1)

lemma cadc_iff: "cadc a b c \<longleftrightarrow> 2 ^ 64 \<le> unat a + unat b + of_bool c"
proof (cases "2 ^ 64 \<le> unat a + unat b")
  case True
  then show ?thesis using cadd_iff [of a b] by (simp add: cadc_def cadd_def)
next
  case False
  then have "unat (a + b) = unat a + unat b" by (simp add: unat_add_no_overflow)
  then show ?thesis using False cadd_iff [of a b] by (auto simp: cadc_def cadd_def minus_1_iff)
qed

lemma hash_words:
  "unat h = unat (hash_word h 0) + unat (hash_word h 1) * 2 ^ 64 + unat (hash_word h 2) * 2 ^ 128
    + unat (hash_word h 3) * 2 ^ 192"
proof -
  define x where "x = unat h"
  have w: "unat (hash_word h i) = x div 2 ^ (64 * i) mod 2 ^ 64" for i
    by (simp add: hash_word_def unsigned_ucast_eq unat_drop_bit take_bit_eq_mod x_def)
  have "x < 2 ^ 64 * (2 ^ 64 * (2 ^ 64 * 2 ^ 64))"
    using unsigned_less [of h, where ?'a = nat] by (simp add: x_def)
  then have "x div 2 ^ 192 < 2 ^ 64" by (simp add: less_mult_imp_div_less)
  then have w3: "unat (hash_word h 3) = x div 2 ^ 192" by (simp add: w)
  have split: "y = y mod 2 ^ 64 + y div 2 ^ 64 * 2 ^ 64" for y :: nat by simp
  have "x = x mod 2 ^ 64 + (x div 2 ^ 64 mod 2 ^ 64 + (x div 2 ^ 128 mod 2 ^ 64 + x div 2 ^ 192 * 2 ^ 64) * 2 ^ 64) * 2 ^ 64"
    using split [of x] split [of "x div 2 ^ 64"] split [of "x div 2 ^ 128"]
    by (simp add: div_mult2_eq [symmetric])
  then show ?thesis unfolding w3 w [of 0] w [of 1] w [of 2] x_def [symmetric] by (simp add: algebra_simps)
qed

lemma carry_split: "s < 2 * X \<Longrightarrow> \<exists>r < X. s = r + of_bool (X \<le> s) * (X :: nat)"
  by (cases "X \<le> s") (auto intro: exI [of _ "s - X"])

lemma carry_chain:
  fixes X l0 h0 l1 h1 l2 h2 l3 h3 :: nat
  assumes "l0 < X" "l1 < X" "l2 < X" "l3 < X" "h0 < X" "h1 < X" "h2 < X"
  defines "c1 \<equiv> of_bool (X \<le> h0 + l1)"
  defines "c2 \<equiv> of_bool (X \<le> h1 + l2 + c1)"
  shows "l0 + h0 * X + (l1 + h1 * X) * X + (l2 + h2 * X) * X ^ 2 + (l3 + h3 * X) * X ^ 3 < X ^ 4
    \<longleftrightarrow> h3 = 0 \<and> \<not> X \<le> h2 + l3 + c2"
proof -
  define c3 :: nat where "c3 = of_bool (X \<le> h2 + l3 + c2)"
  have c: "c1 \<le> 1" "c2 \<le> 1" by (simp_all add: c1_def c2_def)
  obtain r1 where r1: "r1 < X" "h0 + l1 = r1 + c1 * X"
    using carry_split [of "h0 + l1" X] assms by (auto simp: c1_def)
  obtain r2 where r2: "r2 < X" "h1 + l2 + c1 = r2 + c2 * X"
    using carry_split [of "h1 + l2 + c1" X] assms(1-7) c unfolding c2_def by auto
  obtain r3 where r3: "r3 < X" "h2 + l3 + c2 = r3 + c3 * X"
    using carry_split [of "h2 + l3 + c2" X] assms(1-7) c unfolding c3_def by auto
  have pow: "X ^ 2 = X * X" "X ^ 3 = X * (X * X)" "X ^ 4 = X * (X * (X * X))"
    by (simp_all add: power2_eq_square power3_eq_cube power4_eq_xxxx mult.assoc)
  let ?low = "l0 + r1 * X + r2 * X ^ 2 + r3 * X ^ 3"
  have "l0 + h0 * X + (l1 + h1 * X) * X + (l2 + h2 * X) * X ^ 2 + (l3 + h3 * X) * X ^ 3
      + c1 * X ^ 2 + c2 * X ^ 3
    = l0 + (h0 + l1) * X + (h1 + l2 + c1) * X ^ 2 + (h2 + l3 + c2) * X ^ 3 + h3 * X ^ 4"
    unfolding pow by (simp add: algebra_simps)
  also have "\<dots> = ?low + (h3 + c3) * X ^ 4 + c1 * X ^ 2 + c2 * X ^ 3"
    unfolding r1(2) r2(2) r3(2) pow by (simp add: algebra_simps)
  finally have tot: "l0 + h0 * X + (l1 + h1 * X) * X + (l2 + h2 * X) * X ^ 2 + (l3 + h3 * X) * X ^ 3
    = ?low + (h3 + c3) * X ^ 4" by simp
  have "?low < X ^ 4"
  proof -
    have "(r3 + 1) * X ^ 3 \<le> X * X ^ 3" "(r2 + 1) * X ^ 2 \<le> X * X ^ 2" "(r1 + 1) * X \<le> X * X"
      using r1(1) r2(1) r3(1) by (intro mult_le_mono1; simp)+
    then show ?thesis using assms(1) unfolding pow by (simp add: algebra_simps)
  qed
  then show ?thesis unfolding tot by (cases "h3 + c3") (auto simp: c3_def)
qed

subsection \<open>The next difficulty\<close>

lemma difficulty_cut_bounds:
  assumes "2 \<le> len" and "len \<le> DIFFICULTY_WINDOW" and "difficulty_cut len = (b, e)"
  shows "b + 2 \<le> e \<and> e \<le> len"
  using assms by (auto simp: difficulty_cut_def DIFFICULTY_WINDOW_def DIFFICULTY_CUT_def Let_def split: if_splits)

text \<open>
  The specification over natural numbers: time span and work of the window between the cuts, and
  the quotient rounded up.
\<close>

definition spec_time_span :: "u64 list \<Rightarrow> nat" where
  "spec_time_span ts = (let (b, e) = difficulty_cut (length ts)
     in max 1 (unat (sort ts ! (e - 1)) - unat (sort ts ! b)))"

definition spec_total_work :: "u64 list \<Rightarrow> nat" where
  "spec_total_work cds = (let (b, e) = difficulty_cut (length cds)
     in unat (cds ! (e - 1)) - unat (cds ! b))"

lemma spec_time_span_pos: "0 < spec_time_span ts"
  by (cases "difficulty_cut (length ts)") (simp add: spec_time_span_def less_max_iff_disj)

lemma sorted_diff:
  assumes "i \<le> j" and "j < length xs"
  shows "unat (sort xs ! j - sort xs ! i :: u64) = unat (sort xs ! j) - unat (sort xs ! i)"
  using assms by (intro unat_sub_no_underflow sorted_nth_mono) auto

lemma round_up:
  assumes "0 < unat s"
  shows "low + s - 1 < (low :: u64) \<longleftrightarrow> 2 ^ 64 \<le> unat low + (unat s - 1)"
    and "\<not> low + s - 1 < low \<Longrightarrow> unat ((low + s - 1) div s) = (unat low + (unat s - 1)) div unat s"
proof -
  have s1: "unat (s - 1) = unat s - 1"
    using assms unat_sub_no_underflow [of 1 s] by (simp add: word_le_nat_alt Suc_leI)
  have eq: "low + s - 1 = low + (s - 1)" by simp
  show iff: "low + s - 1 < low \<longleftrightarrow> 2 ^ 64 \<le> unat low + (unat s - 1)"
    unfolding eq using cadd_iff [of low "s - 1"] s1 by (simp add: cadd_def)
  show "unat ((low + s - 1) div s) = (unat low + (unat s - 1)) div unat s" if "\<not> low + s - 1 < low"
  proof -
    have "unat (low + (s - 1)) = unat low + (unat s - 1)"
      using that iff s1 by (subst unat_add_no_overflow) auto
    then show ?thesis unfolding eq by (simp add: unat_div)
  qed
qed

lemma next_difficulty_value:
  assumes "length ts = length cds" and "2 \<le> length ts" and "length ts \<le> DIFFICULTY_WINDOW" and "sorted cds"
  shows "unat (next_difficulty ts cds target) =
    (let n = spec_total_work cds * unat target + (spec_time_span ts - 1)
     in if n < 2 ^ 64 then n div spec_time_span ts else 0)"
proof -
  obtain b e where cut: "difficulty_cut (length ts) = (b, e)" by fastforce
  have be: "b + 2 \<le> e" "e \<le> length ts" using difficulty_cut_bounds [OF assms(2,3) cut] by auto
  define span where "span = sort ts ! (e - 1) - sort ts ! b"
  define s where "s = (if span = 0 then 1 else span)"
  define work where "work = cds ! (e - 1) - cds ! b"
  obtain high low where m: "mul work target = (high, low)" by fastforce
  have "unat span = unat (sort ts ! (e - 1)) - unat (sort ts ! b)"
    unfolding span_def using be by (intro sorted_diff) auto
  moreover have "span \<noteq> 0 \<Longrightarrow> 0 < unat span" by (simp add: unat_gt_0)
  ultimately have s: "unat s = spec_time_span ts"
    by (auto simp: s_def spec_time_span_def cut max_def unat_eq_zero)
  then have "0 < unat s" by (simp add: spec_time_span_pos)
  have "unat work = spec_total_work cds"
    unfolding work_def spec_total_work_def using cut assms(1,4) be
    by (simp, intro unat_sub_no_underflow sorted_nth_mono) auto
  then have p: "unat high * 2 ^ 64 + unat low = spec_total_work cds * unat target"
    using mul_correct [OF m] by simp
  have "next_difficulty ts cds target = (if high \<noteq> 0 \<or> low + s - 1 < low then 0 else (low + s - 1) div s)"
    unfolding s_def span_def using assms(2,3) cut m [unfolded work_def] by (simp add: next_difficulty_def Let_def)
  moreover have "(high \<noteq> 0 \<or> low + s - 1 < low) \<longleftrightarrow> \<not> spec_total_work cds * unat target + (unat s - 1) < 2 ^ 64"
  proof (cases "high = 0")
    case True
    then show ?thesis using round_up(1) [OF \<open>0 < unat s\<close>, of low] p by auto
  next
    case False
    then have "2 ^ 64 \<le> unat high * 2 ^ 64" using unat_gt_0 [of high] by simp
    with False p show ?thesis by auto
  qed
  moreover have "unat ((low + s - 1) div s) = (spec_total_work cds * unat target + (unat s - 1)) div unat s"
    if "high = 0" "\<not> low + s - 1 < low"
    using round_up(2) [OF \<open>0 < unat s\<close> that(2)] p that(1) by simp
  ultimately show ?thesis
    by (cases "high \<noteq> 0 \<or> low + s - 1 < low") (auto simp: s [symmetric] Let_def)
qed

subsection \<open>Properties\<close>

text \<open>
  C28. The proof-of-work check is exact: a hash passes at a difficulty if and only if their product,
  as natural numbers, is below \<open>2 ^ 256\<close>. The carries between the four partial products, the early
  exit on the top word and the 64-bit additions lose nothing.
\<close>

theorem check_hash_exact: "check_hash h d \<longleftrightarrow> unat h * unat d < 2 ^ 256"
proof -
  obtain h0 l0 where m0: "mul (hash_word h 0) d = (h0, l0)" by fastforce
  obtain h1 l1 where m1: "mul (hash_word h 1) d = (h1, l1)" by fastforce
  obtain h2 l2 where m2: "mul (hash_word h 2) d = (h2, l2)" by fastforce
  obtain h3 l3 where m3: "mul (hash_word h 3) d = (h3, l3)" by fastforce
  note p = mul_correct [OF m0] mul_correct [OF m1] mul_correct [OF m2] mul_correct [OF m3]
  let ?X = "2 ^ 64 :: nat"
  have "unat h * unat d = unat (hash_word h 0) * unat d + unat (hash_word h 1) * unat d * ?X
      + unat (hash_word h 2) * unat d * ?X ^ 2 + unat (hash_word h 3) * unat d * ?X ^ 3"
    unfolding hash_words [of h] by (simp add: algebra_simps)
  then have "unat h * unat d = unat l0 + unat h0 * ?X + (unat l1 + unat h1 * ?X) * ?X
      + (unat l2 + unat h2 * ?X) * ?X ^ 2 + (unat l3 + unat h3 * ?X) * ?X ^ 3"
    unfolding p [symmetric] by (simp only: add.commute)
  moreover have "unat x < ?X" for x :: u64 by simp
  ultimately have "unat h * unat d < ?X ^ 4 \<longleftrightarrow>
      unat h3 = 0 \<and> \<not> cadc h2 l3 (cadc h1 l2 (cadd h0 l1))"
    by (simp only: carry_chain cadc_iff cadd_iff)
  moreover have "check_hash h d \<longleftrightarrow> h3 = 0 \<and> \<not> cadc h2 l3 (cadc h1 l2 (cadd h0 l1))"
    by (simp add: check_hash_def m0 m1 [unfolded One_nat_def] m2 m3 Let_def)
  moreover have "?X ^ 4 = 2 ^ 256" by (simp flip: power_mult)
  ultimately show ?thesis by (simp only: unat_eq_zero)
qed



text \<open>
  The cut window is inside the timestamps and holds at least two blocks, for every window
  length that occurs, as the assertions in \<open>next_difficulty\<close> demand, and the result does not
  depend on the order in which the timestamps are given.
\<close>

theorem next_difficulty_window:
  assumes "2 \<le> length ts" and "length ts \<le> DIFFICULTY_WINDOW" and "mset ts = mset ts'"
  shows "fst (difficulty_cut (length ts)) + 2 \<le> snd (difficulty_cut (length ts))
    \<and> snd (difficulty_cut (length ts)) \<le> length ts
    \<and> next_difficulty ts cds target = next_difficulty ts' cds target"
proof -
  have "sort ts = sort ts'" using assms(3) by (metis mset_sort properties_for_sort sorted_sort)
  moreover have "length ts = length ts'" using assms(3) by (rule mset_eq_length)
  ultimately have "next_difficulty ts cds target = next_difficulty ts' cds target"
    using assms(2) by (simp add: next_difficulty_def Let_def)
  then show ?thesis
    using difficulty_cut_bounds [OF assms(1,2)] by (metis prod.collapse)
qed

theorem next_difficulty_window_witness:
  "mset [3, 1, 2 :: u64] = mset [1, 2, 3]
   \<and> next_difficulty [3, 1, 2] [10, 20, 45] 60 = next_difficulty [1, 2, 3] [10, 20, 45] 60"
  using next_difficulty_window [of "[3, 1, 2]" "[1, 2, 3]"] by (simp add: DIFFICULTY_WINDOW_def)

end
