(* ===== verification/Binary_Archive.thy ===== *)
theory Binary_Archive
  imports Varint
begin

text \<open>
  \<open>src/serialization\<close>: the binary archive and the containers it serializes
  (\<open>binary_archive.h\<close>, \<open>serialization.h\<close>, \<open>vector.h\<close>, \<open>string.h\<close>, \<open>crypto.h\<close>, \<open>variant.h\<close>).

  A reader takes the unread bytes of the stream and returns the value and what remains; \<open>None\<close>
  stands for a return value \<open>false\<close> or a stream that is no longer good, which every enclosing
  \<open>do_serialize\<close> turns into \<open>false\<close>. A writer returns the bytes it has put into the stream and whether
  \<open>do_serialize\<close> returned \<open>true\<close>: a writer that fails leaves the bytes written so far, and
  \<open>t_serializable_object_to_blob\<close> hands them out. Varints are read through a stream buffer iterator:
  an error code of \<open>read_varint\<close> is ignored and the end of the input does not spoil the stream.
\<close>

type_synonym 'a reader = "blob \<Rightarrow> ('a \<times> blob) option"
type_synonym written = "blob \<times> bool"

subsection \<open>Reading\<close>

definition rd_varint :: "'a::len word reader" where
  "rd_varint s = (let (code, v, s') = read_varint LENGTH('a) s in Some (of_nat v, s'))"

definition rd_blob :: "nat \<Rightarrow> blob reader" where
  "rd_blob n s = (if n \<le> length s then Some (take n s, drop n s) else None)"

text \<open>\<open>serialize_uint\<close>: \<open>width\<close> bytes, least significant first, added up.\<close>

fun rd_uint_loop :: "nat \<Rightarrow> nat \<Rightarrow> 'a::len word \<Rightarrow> 'a word reader" where
  "rd_uint_loop 0 shift ret s = Some (ret, s)"
| "rd_uint_loop (Suc n) shift ret [] = None"
| "rd_uint_loop (Suc n) shift ret (c # s) = rd_uint_loop n (shift + 8) (ret + push_bit shift (ucast c)) s"

definition rd_uint :: "'a::len word reader" where
  "rd_uint s = rd_uint_loop (LENGTH('a) div 8) 0 0 s"

text \<open>The plain structs of 32 and 64 bytes.\<close>

definition rd_pod :: "'a::len word reader" where
  "rd_pod s = do { (b, s) \<leftarrow> rd_blob (LENGTH('a) div 8) s; Some (word_of_bytes b, s) }"

fun rd_elements :: "'a reader \<Rightarrow> nat \<Rightarrow> 'a list reader" where
  "rd_elements rd 0 s = Some ([], s)"
| "rd_elements rd (Suc n) s = do {
     (x, s) \<leftarrow> rd s;
     (xs, s) \<leftarrow> rd_elements rd n s;
     Some (x # xs, s) }"

definition rd_vector :: "'a reader \<Rightarrow> 'a list reader" where
  "rd_vector rd s = do {
     (cnt, s) \<leftarrow> (rd_varint :: u64 reader) s;
     if length s < unat cnt then None else rd_elements rd (unat cnt) s }"

definition rd_string :: "blob reader" where
  "rd_string s = do {
     (sz, s) \<leftarrow> (rd_varint :: u64 reader) s;
     if length s < unat sz then None else rd_blob (unat sz) s }"

text \<open>\<open>serialization::serialize\<close> on a loading archive: the whole input has to be used up.\<close>

definition parse_all :: "'a reader \<Rightarrow> blob \<Rightarrow> 'a option" where
  "parse_all rd s = do { (x, rest) \<leftarrow> rd s; if rest = [] then Some x else None }"

subsection \<open>Writing\<close>

fun write_fields :: "written list \<Rightarrow> written" where
  "write_fields [] = ([], True)"
| "write_fields ((b, ok) # ws) =
     (if ok then let (bs, r) = write_fields ws in (b @ bs, r) else (b, False))"

definition wr_varint :: "'a::len word \<Rightarrow> written" where
  "wr_varint v = (write_varint (unat v), True)"

definition wr_blob :: "blob \<Rightarrow> written" where
  "wr_blob b = (b, True)"

definition wr_uint :: "'a::len word \<Rightarrow> written" where
  "wr_uint v = (map (\<lambda>i. ucast (drop_bit (8 * i) v AND 0xff)) [0..<LENGTH('a) div 8], True)"

definition wr_pod :: "'a::len word \<Rightarrow> written" where
  "wr_pod v = (bytes_of_word (LENGTH('a) div 8) v, True)"

definition wr_vector :: "('a \<Rightarrow> written) \<Rightarrow> 'a list \<Rightarrow> written" where
  "wr_vector wr v = write_fields (wr_varint (of_nat (length v) :: u64) # map wr v)"

definition wr_string :: "blob \<Rightarrow> written" where
  "wr_string str = write_fields [wr_varint (of_nat (length str) :: u64), wr_blob str]"

subsection \<open>The contract of a serializable type\<close>

text \<open>
  What \<open>do_serialize\<close> has to satisfy in its two instances: writing a valid value succeeds with at
  least one byte, and reading returns the value and leaves what follows it. A vector of such
  elements then round-trips with its length prefix and its sanity check.
\<close>

locale serializable =
  fixes valid :: "'a \<Rightarrow> bool" and wr :: "'a \<Rightarrow> written" and rd :: "'a reader"
  assumes wr_ok: "valid x \<Longrightarrow> snd (wr x)"
    and wr_nonempty: "valid x \<Longrightarrow> fst (wr x) \<noteq> []"
    and rd_wr: "valid x \<Longrightarrow> rd (fst (wr x) @ rest) = Some (x, rest)"
begin

lemma rd_wr_end: "valid x \<Longrightarrow> rd (fst (wr x)) = Some (x, [])"
  using rd_wr [of x "[]"] by simp

lemma parse_wr: "valid x \<Longrightarrow> parse_all rd (fst (wr x)) = Some x"
  by (simp add: parse_all_def rd_wr_end)

lemma wr_inj: "valid x \<Longrightarrow> valid y \<Longrightarrow> fst (wr x) = fst (wr y) \<Longrightarrow> x = y"
  using parse_wr by (metis option.inject)

lemma elements:
  "list_all valid xs \<Longrightarrow> snd (write_fields (map wr xs))
     \<and> rd_elements rd (length xs) (fst (write_fields (map wr xs)) @ rest) = Some (xs, rest)
     \<and> length xs \<le> length (fst (write_fields (map wr xs)))"
proof (induction xs)
  case (Cons x xs)
  then have x: "snd (wr x)" "fst (wr x) \<noteq> []" "\<And>r. rd (fst (wr x) @ r) = Some (x, r)"
    using wr_ok wr_nonempty rd_wr by auto
  from x(2) have "1 \<le> length (fst (wr x))" by (cases "fst (wr x)") auto
  with Cons x show ?case
    by (cases "wr x"; cases "write_fields (map wr xs)") auto
qed simp

end

lemma write_fields_Cons:
  "snd w \<Longrightarrow> write_fields (w # ws) = (fst w @ fst (write_fields ws), snd (write_fields ws))"
  by (cases w) (simp split: prod.splits)

lemma snd_write_fields [simp]: "snd (write_fields (w # ws)) \<longleftrightarrow> snd w \<and> snd (write_fields ws)"
  by (cases w) (simp split: prod.splits)

declare write_fields.simps(2) [simp del]

lemma rd_varint_wr: "rd_varint (fst (wr_varint v) @ rest) = Some (v :: 'a::len word, rest)"
proof -
  have "unat v < 2 ^ LENGTH('a)" by simp
  then show ?thesis
    using read_write_loop [of "unat v" "LENGTH('a)" 0 0 0 rest]
    by (simp add: rd_varint_def wr_varint_def read_varint_def)
qed

lemma snd_wr_varint [simp]: "snd (wr_varint v)"
  by (simp add: wr_varint_def)

lemma fst_wr_varint: "fst (wr_varint v) = write_varint (unat v)"
  by (simp add: wr_varint_def)

lemma write_varint_nonempty [simp]: "write_varint i \<noteq> []"
  by (subst write_varint.simps) simp

context serializable
begin

lemma vector_round_trip:
  assumes "list_all valid xs" and "length xs < 2 ^ 64"
  shows "snd (wr_vector wr xs)" and "fst (wr_vector wr xs) \<noteq> []"
    and "rd_vector rd (fst (wr_vector wr xs) @ rest) = Some (xs, rest)"
proof -
  note el = elements [OF assms(1)]
  have len: "unat (of_nat (length xs) :: u64) = length xs" using assms(2) by (simp add: unat_of_nat)
  show "snd (wr_vector wr xs)" "fst (wr_vector wr xs) \<noteq> []"
    using el by (simp_all add: wr_vector_def write_fields_Cons fst_wr_varint)
  show "rd_vector rd (fst (wr_vector wr xs) @ rest) = Some (xs, rest)"
    using el [of rest] len
    by (simp add: wr_vector_def write_fields_Cons rd_vector_def rd_varint_wr not_less trans_le_add1)
qed

end

subsection \<open>The basic types satisfy it\<close>

interpretation varint: serializable "\<lambda>v :: 'a::len word. True" wr_varint rd_varint
  by unfold_locales (simp_all add: rd_varint_wr, simp add: wr_varint_def)

lemma snd_wr_pod [simp]: "snd (wr_pod v)"
  by (simp add: wr_pod_def)

lemma length_wr_pod [simp]: "length (fst (wr_pod (v :: 'a::len word))) = LENGTH('a) div 8"
  by (simp add: wr_pod_def)

interpretation pod32: serializable "\<lambda>v :: 256 word. True" wr_pod rd_pod
  by unfold_locales (simp_all add: wr_pod_def rd_pod_def rd_blob_def, simp add: bytes_of_word_conv)

interpretation pod64: serializable "\<lambda>v :: 512 word. True" wr_pod rd_pod
  by unfold_locales (simp_all add: wr_pod_def rd_pod_def rd_blob_def, simp add: bytes_of_word_conv)

lemma string_round_trip:
  assumes "length str < 2 ^ 64"
  shows "snd (wr_string str)" and "fst (wr_string str) \<noteq> []"
    and "rd_string (fst (wr_string str) @ rest) = Some (str, rest)"
proof -
  have len: "unat (of_nat (length str) :: u64) = length str" using assms by (simp add: unat_of_nat)
  show "snd (wr_string str)" "fst (wr_string str) \<noteq> []"
    by (simp_all add: wr_string_def write_fields_Cons wr_blob_def fst_wr_varint)
  show "rd_string (fst (wr_string str) @ rest) = Some (str, rest)"
    using len by (simp add: wr_string_def write_fields_Cons wr_blob_def rd_string_def rd_varint_wr rd_blob_def)
qed

lemma rd_uint_loop_eq:
  "n \<le> length s \<Longrightarrow> rd_uint_loop n (8 * k) ret s
     = Some (ret + push_bit (8 * k) (word_of_bytes (take n s)), drop n s)"
proof (induction n arbitrary: k ret s)
  case 0
  then show ?case by (simp add: word_of_bytes_def)
next
  case (Suc n)
  then obtain c t where s: "s = c # t" by (cases s) auto
  have "push_bit (8 * k) (word_of_bytes (c # take n t) :: 'a word)
      = push_bit (8 * k) (ucast c) + push_bit (8 * Suc k) (word_of_bytes (take n t))"
    by (simp add: word_of_bytes_def push_bit_eq_mult power_add algebra_simps)
  then show ?case using Suc.IH [of t "Suc k"] Suc.prems by (simp add: s add.assoc add.commute [of _ 8])
qed

lemma wr_uint_bytes: "wr_uint (v :: 'a::len word) = (bytes_of_word (LENGTH('a) div 8) v, True)"
proof -
  have "(ucast (x AND 0xff) :: u8) = ucast (x :: 'a word)" for x
    by (rule bit_word_eqI) (auto simp: bit_simps nat_lt_8 dest: bit_imp_le_length)
  then show ?thesis by (simp add: wr_uint_def bytes_of_word_conv)
qed

lemma rd_uint_bytes:
  "LENGTH('a) div 8 \<le> length s \<Longrightarrow>
   rd_uint s = Some (word_of_bytes (take (LENGTH('a) div 8) s) :: 'a::len word, drop (LENGTH('a) div 8) s)"
  using rd_uint_loop_eq [of "LENGTH('a) div 8" s 0 "0 :: 'a word"] by (simp add: rd_uint_def)

lemma snd_wr_uint [simp]: "snd (wr_uint v)"
  by (simp add: wr_uint_def)

interpretation uint8: serializable "\<lambda>v :: u8. True" wr_uint rd_uint
  by unfold_locales (simp_all add: wr_uint_bytes rd_uint_bytes, simp add: bytes_of_word_conv)

interpretation uint32: serializable "\<lambda>v :: u32. True" wr_uint rd_uint
  by unfold_locales (simp_all add: wr_uint_bytes rd_uint_bytes, simp add: bytes_of_word_conv)

end
