(* ===== verification/Cryptonote_Basic.thy ===== *)
theory Cryptonote_Basic
  imports Binary_Archive
begin

text \<open>
  \<open>src/cryptonote_core/cryptonote_basic.h\<close>: inputs, outputs, transactions and blocks, with the two
  instances of their \<open>do_serialize\<close>. A transaction or block that satisfies its well-formedness
  condition is written completely and read back unchanged; the reader also accepts byte strings
  that the writer never produces, because it ignores the error codes of \<open>read_varint\<close>.
\<close>

type_synonym signature = "512 word"

abbreviation null_hash :: hash where "null_hash \<equiv> 0"
abbreviation null_pkey :: public_key where "null_pkey \<equiv> 0"

definition CURRENT_TRANSACTION_VERSION :: u64 where "CURRENT_TRANSACTION_VERSION = 1"
definition CURRENT_BLOCK_MAJOR_VERSION :: u8 where "CURRENT_BLOCK_MAJOR_VERSION = 1"
definition CURRENT_BLOCK_MINOR_VERSION :: u8 where "CURRENT_BLOCK_MINOR_VERSION = 0"

subsection \<open>Data\<close>

datatype txout_target =
    txout_to_script "public_key list" blob
  | txout_to_scripthash hash
  | txout_to_key public_key

record tx_out =
  amount :: u64
  target :: txout_target

datatype txin =
    txin_gen u64
  | txin_to_script hash u64 blob
  | txin_to_scripthash hash u64 "public_key list" blob blob
  | txin_to_key u64 "u64 list" key_image

record transaction =
  version :: u64
  unlock_time :: u64
  vin :: "txin list"
  vout :: "tx_out list"
  extra :: blob
  signatures :: "signature list list"

record block =
  major_version :: u8
  minor_version :: u8
  timestamp :: u64
  prev_id :: hash
  nonce :: u32
  miner_tx :: transaction
  tx_hashes :: "hash list"

record account_public_address =
  m_spend_public_key :: public_key
  m_view_public_key :: public_key

definition set_null :: transaction where
  "set_null = \<lparr>version = 0, unlock_time = 0, vin = [], vout = [], extra = [], signatures = []\<rparr>"

fun get_signature_size :: "txin \<Rightarrow> nat" where
  "get_signature_size (txin_to_key amt key_offsets k_image) = length key_offsets"
| "get_signature_size _ = 0"

subsection \<open>Writing\<close>

definition wr_tag :: "u8 \<Rightarrow> written" where
  "wr_tag t = wr_uint t"

fun wr_txout_target :: "txout_target \<Rightarrow> written" where
  "wr_txout_target (txout_to_script keys script) =
     write_fields [wr_tag 0x0, wr_vector wr_pod keys, wr_vector wr_uint script]"
| "wr_txout_target (txout_to_scripthash h) = write_fields [wr_tag 0x1, wr_pod h]"
| "wr_txout_target (txout_to_key key) = write_fields [wr_tag 0x2, wr_pod key]"

definition wr_tx_out :: "tx_out \<Rightarrow> written" where
  "wr_tx_out out = write_fields [wr_varint (amount out), wr_txout_target (target out)]"

fun wr_txin :: "txin \<Rightarrow> written" where
  "wr_txin (txin_gen height) = write_fields [wr_tag 0xff, wr_varint height]"
| "wr_txin (txin_to_script prev prevout sigset) =
     write_fields [wr_tag 0x0, wr_pod prev, wr_varint prevout, wr_vector wr_uint sigset]"
| "wr_txin (txin_to_scripthash prev prevout keys script sigset) =
     write_fields [wr_tag 0x1, wr_pod prev, wr_varint prevout, wr_vector wr_pod keys,
       wr_vector wr_uint script, wr_vector wr_uint sigset]"
| "wr_txin (txin_to_key amt key_offsets k_image) =
     write_fields [wr_tag 0x2, wr_varint amt, wr_vector wr_varint key_offsets, wr_pod k_image]"

definition wr_transaction_prefix :: "transaction \<Rightarrow> written" where
  "wr_transaction_prefix tx =
     write_fields
       [wr_varint (version tx), ([], \<not> CURRENT_TRANSACTION_VERSION < version tx),
        wr_varint (unlock_time tx), wr_vector wr_txin (vin tx), wr_vector wr_tx_out (vout tx),
        wr_vector wr_uint (extra tx)]"

text \<open>
  The loop over the inputs: without signatures every input has to need none; with signatures
  each input has to have as many as its ring has members.
\<close>

definition wr_signatures :: "txin list \<Rightarrow> signature list list \<Rightarrow> written" where
  "wr_signatures ins sigs =
     (if sigs = [] then ([], list_all (\<lambda>i. get_signature_size i = 0) ins)
      else if length ins \<noteq> length sigs then ([], False)
      else write_fields (map2 (\<lambda>i ss.
             if get_signature_size i \<noteq> length ss then ([], False) else write_fields (map wr_pod ss)) ins sigs))"

definition wr_transaction :: "transaction \<Rightarrow> written" where
  "wr_transaction tx =
     write_fields [wr_transaction_prefix tx, wr_signatures (vin tx) (signatures tx)]"

definition wr_block_header :: "block \<Rightarrow> written" where
  "wr_block_header b =
     write_fields
       [wr_varint (major_version b), ([], \<not> CURRENT_BLOCK_MAJOR_VERSION < major_version b),
        wr_varint (minor_version b), wr_varint (timestamp b), wr_pod (prev_id b), wr_uint (nonce b)]"

definition wr_block :: "block \<Rightarrow> written" where
  "wr_block b = write_fields [wr_block_header b, wr_transaction (miner_tx b), wr_vector wr_pod (tx_hashes b)]"

definition wr_account_public_address :: "account_public_address \<Rightarrow> written" where
  "wr_account_public_address a = write_fields [wr_pod (m_spend_public_key a), wr_pod (m_view_public_key a)]"

subsection \<open>Reading\<close>

definition rd_tag :: "u8 reader" where
  "rd_tag s = rd_uint s"

definition rd_txout_target :: "txout_target reader" where
  "rd_txout_target s = do {
     (t, s) \<leftarrow> rd_tag s;
     if t = 0x0 then do {
       (keys, s) \<leftarrow> rd_vector rd_pod s;
       (script, s) \<leftarrow> rd_vector rd_uint s;
       Some (txout_to_script keys script, s) }
     else if t = 0x1 then do { (h, s) \<leftarrow> rd_pod s; Some (txout_to_scripthash h, s) }
     else if t = 0x2 then do { (key, s) \<leftarrow> rd_pod s; Some (txout_to_key key, s) }
     else None }"

definition rd_tx_out :: "tx_out reader" where
  "rd_tx_out s = do {
     (amt, s) \<leftarrow> rd_varint s;
     (tgt, s) \<leftarrow> rd_txout_target s;
     Some (\<lparr>amount = amt, target = tgt\<rparr>, s) }"

definition rd_txin :: "txin reader" where
  "rd_txin s = do {
     (t, s) \<leftarrow> rd_tag s;
     if t = 0xff then do { (height, s) \<leftarrow> rd_varint s; Some (txin_gen height, s) }
     else if t = 0x0 then do {
       (prev, s) \<leftarrow> rd_pod s;
       (prevout, s) \<leftarrow> rd_varint s;
       (sigset, s) \<leftarrow> rd_vector rd_uint s;
       Some (txin_to_script prev prevout sigset, s) }
     else if t = 0x1 then do {
       (prev, s) \<leftarrow> rd_pod s;
       (prevout, s) \<leftarrow> rd_varint s;
       (keys, s) \<leftarrow> rd_vector rd_pod s;
       (script, s) \<leftarrow> rd_vector rd_uint s;
       (sigset, s) \<leftarrow> rd_vector rd_uint s;
       Some (txin_to_scripthash prev prevout keys script sigset, s) }
     else if t = 0x2 then do {
       (amt, s) \<leftarrow> rd_varint s;
       (key_offsets, s) \<leftarrow> rd_vector rd_varint s;
       (k_image, s) \<leftarrow> rd_pod s;
       Some (txin_to_key amt key_offsets k_image, s) }
     else None }"

text \<open>
  The signatures of one input: the vector has been resized to the number expected, and that many
  blobs of 64 bytes are read after a check that they are there.
\<close>

definition rd_signature_vector :: "nat \<Rightarrow> signature list reader" where
  "rd_signature_vector cnt s = (if length s < cnt * 64 then None else rd_elements rd_pod cnt s)"

fun rd_signatures :: "txin list \<Rightarrow> signature list list reader" where
  "rd_signatures [] s = Some ([], s)"
| "rd_signatures (i # ins) s = do {
     (sigs, s) \<leftarrow> rd_signature_vector (get_signature_size i) s;
     (rest, s) \<leftarrow> rd_signatures ins s;
     Some (sigs # rest, s) }"

definition rd_transaction :: "transaction reader" where
  "rd_transaction s = do {
     (ver, s) \<leftarrow> rd_varint s;
     if CURRENT_TRANSACTION_VERSION < ver then None
     else do {
       (unlock, s) \<leftarrow> rd_varint s;
       (ins, s) \<leftarrow> rd_vector rd_txin s;
       (outs, s) \<leftarrow> rd_vector rd_tx_out s;
       (ext, s) \<leftarrow> rd_vector rd_uint s;
       (sigs, s) \<leftarrow> rd_signatures ins s;
       Some (\<lparr>version = ver, unlock_time = unlock, vin = ins, vout = outs, extra = ext, signatures = sigs\<rparr>, s) } }"

definition rd_block :: "block reader" where
  "rd_block s = do {
     (major, s) \<leftarrow> rd_varint s;
     if CURRENT_BLOCK_MAJOR_VERSION < major then None
     else do {
       (minor, s) \<leftarrow> rd_varint s;
       (time, s) \<leftarrow> rd_varint s;
       (prev, s) \<leftarrow> rd_pod s;
       (nnc, s) \<leftarrow> rd_uint s;
       (mtx, s) \<leftarrow> rd_transaction s;
       (hashes, s) \<leftarrow> rd_vector rd_pod s;
       Some (\<lparr>major_version = major, minor_version = minor, timestamp = time, prev_id = prev, nonce = nnc,
               miner_tx = mtx, tx_hashes = hashes\<rparr>, s) } }"

definition rd_account_public_address :: "account_public_address reader" where
  "rd_account_public_address s = do {
     (spend, s) \<leftarrow> rd_pod s;
     (view, s) \<leftarrow> rd_pod s;
     Some (\<lparr>m_spend_public_key = spend, m_view_public_key = view\<rparr>, s) }"

subsection \<open>Round trips\<close>

text \<open>All containers have a size that fits \<open>size_t\<close>.\<close>

fun sizes_txout_target :: "txout_target \<Rightarrow> bool" where
  "sizes_txout_target (txout_to_script keys script) \<longleftrightarrow> length keys < 2 ^ 64 \<and> length script < 2 ^ 64"
| "sizes_txout_target _ \<longleftrightarrow> True"

fun sizes_txin :: "txin \<Rightarrow> bool" where
  "sizes_txin (txin_gen height) \<longleftrightarrow> True"
| "sizes_txin (txin_to_script prev prevout sigset) \<longleftrightarrow> length sigset < 2 ^ 64"
| "sizes_txin (txin_to_scripthash prev prevout keys script sigset) \<longleftrightarrow>
     length keys < 2 ^ 64 \<and> length script < 2 ^ 64 \<and> length sigset < 2 ^ 64"
| "sizes_txin (txin_to_key amt key_offsets k_image) \<longleftrightarrow> length key_offsets < 2 ^ 64"

definition sizes_tx :: "transaction \<Rightarrow> bool" where
  "sizes_tx tx \<longleftrightarrow> length (vin tx) < 2 ^ 64 \<and> list_all sizes_txin (vin tx)
     \<and> length (vout tx) < 2 ^ 64 \<and> list_all (\<lambda>x. sizes_txout_target (target x)) (vout tx)
     \<and> length (extra tx) < 2 ^ 64"

text \<open>A transaction without signatures comes back with one empty list per input.\<close>

definition loaded_signatures :: "transaction \<Rightarrow> signature list list" where
  "loaded_signatures tx = (if signatures tx = [] then map (\<lambda>i. []) (vin tx) else signatures tx)"

definition as_loaded :: "transaction \<Rightarrow> transaction" where
  "as_loaded tx = tx\<lparr>signatures := loaded_signatures tx\<rparr>"

lemma fst_wr_uint_nonempty [simp]: "fst (wr_uint (v :: u8)) \<noteq> []"
  by (simp add: uint8.wr_nonempty)

lemma snd_wr_tag [simp]: "snd (wr_tag t)"
  by (simp add: wr_tag_def)

lemma rd_tag_wr [simp]: "rd_tag (fst (wr_tag t) @ rest) = Some (t, rest)"
  by (simp add: wr_tag_def rd_tag_def uint8.rd_wr)

lemma wr_tag_nonempty [simp]: "fst (wr_tag t) \<noteq> []"
  by (simp add: wr_tag_def)

lemma true_list: "list_all (\<lambda>x. True) xs"
  by (simp add: list_all_iff)

lemmas pod32_vector = pod32.vector_round_trip [OF true_list] and uint8_vector = uint8.vector_round_trip [OF true_list]
  and varint_vector = varint.vector_round_trip [OF true_list]

lemmas rd_round_trips = write_fields_Cons varint.rd_wr pod32.rd_wr pod64.rd_wr uint8.rd_wr uint32.rd_wr
  pod32_vector uint8_vector varint_vector

interpretation txout_target: serializable sizes_txout_target wr_txout_target rd_txout_target
  by unfold_locales (erule sizes_txout_target.elims; simp add: rd_txout_target_def rd_round_trips)+

interpretation tx_out: serializable "\<lambda>x. sizes_txout_target (target x)" wr_tx_out rd_tx_out
  by unfold_locales
    (simp_all add: wr_tx_out_def rd_tx_out_def rd_round_trips txout_target.rd_wr txout_target.wr_ok
      txout_target.wr_nonempty)

interpretation txin: serializable sizes_txin wr_txin rd_txin
  by unfold_locales (erule sizes_txin.elims; simp add: rd_txin_def rd_round_trips)+

lemma rd_signatures_wr:
  assumes "snd (wr_signatures ins sigs)"
  shows "rd_signatures ins (fst (wr_signatures ins sigs) @ rest)
    = Some (if sigs = [] then map (\<lambda>i. []) ins else sigs, rest)"
proof (cases "sigs = []")
  case True
  with assms have "list_all (\<lambda>i. get_signature_size i = 0) ins" by (simp add: wr_signatures_def)
  then have "rd_signatures ins rest = Some (map (\<lambda>i. []) ins, rest)"
    by (induction ins) (auto simp: rd_signature_vector_def)
  then show ?thesis using True by (simp add: wr_signatures_def)
next
  case False
  let ?one = "\<lambda>i ss. if get_signature_size i \<noteq> length ss then ([], False) else write_fields (map wr_pod ss)"
  have len: "length ins = length sigs" and ok: "snd (write_fields (map2 ?one ins sigs))"
    using assms False by (auto simp: wr_signatures_def split: if_splits)
  have "rd_signatures ins (fst (write_fields (map2 ?one ins sigs)) @ rest) = Some (sigs, rest)"
    using len ok
  proof (induction ins sigs rule: list_induct2)
    case (Cons i ins ss sigs)
    then have n: "get_signature_size i = length ss" and ok': "snd (write_fields (map2 ?one ins sigs))"
      by (auto split: if_splits prod.splits)
    note el = pod64.elements [OF true_list, of ss]
    have "length ss * 64 \<le> length (fst (write_fields (map wr_pod ss)))"
      by (induction ss) (simp_all add: write_fields_Cons)
    then have "rd_signature_vector (length ss) (fst (write_fields (map wr_pod ss)) @ r) = Some (ss, r)" for r
      using el [of r] by (simp add: rd_signature_vector_def)
    then show ?case
      using Cons.IH [OF ok'] n el by (simp add: write_fields_Cons)
  qed simp
  then show ?thesis using False len by (simp add: wr_signatures_def)
qed

lemma as_loaded_eq:
  "as_loaded tx = \<lparr>version = version tx, unlock_time = unlock_time tx, vin = vin tx, vout = vout tx,
     extra = extra tx, signatures = loaded_signatures tx\<rparr>"
  by (cases tx) (simp add: as_loaded_def)

lemma rd_transaction_wr:
  assumes "sizes_tx tx" and "snd (wr_transaction tx)"
  shows "rd_transaction (fst (wr_transaction tx) @ rest) = Some (as_loaded tx, rest)"
proof -
  note vin = txin.vector_round_trip [of "vin tx"] and vout = tx_out.vector_round_trip [of "vout tx"]
    and ext = uint8.vector_round_trip [of "extra tx"]
  have ver: "\<not> CURRENT_TRANSACTION_VERSION < version tx" and pre: "snd (wr_transaction_prefix tx)"
    and sig: "snd (wr_signatures (vin tx) (signatures tx))"
    using assms(2) by (simp_all add: wr_transaction_def, simp add: wr_transaction_prefix_def)
  have "rd_signatures (vin tx) (fst (wr_signatures (vin tx) (signatures tx)) @ rest) = Some (loaded_signatures tx, rest)"
    using rd_signatures_wr [OF sig] by (simp add: loaded_signatures_def)
  then show ?thesis
    using assms(1) vin vout ext ver
    by (simp add: sizes_tx_def wr_transaction_def write_fields_Cons pre sig)
      (simp add: wr_transaction_prefix_def write_fields_Cons rd_transaction_def varint.rd_wr as_loaded_eq
        list_all_iff)
qed

lemma block_miner_tx_update:
  "b\<lparr>miner_tx := tx\<rparr> = \<lparr>major_version = major_version b, minor_version = minor_version b,
     timestamp = timestamp b, prev_id = prev_id b, nonce = nonce b, miner_tx = tx, tx_hashes = tx_hashes b\<rparr>"
  by (cases b) simp

lemma rd_block_wr:
  assumes "sizes_tx (miner_tx b)" and "length (tx_hashes b) < 2 ^ 64" and "snd (wr_block b)"
  shows "rd_block (fst (wr_block b) @ rest) = Some (b\<lparr>miner_tx := as_loaded (miner_tx b)\<rparr>, rest)"
proof -
  have ver: "\<not> CURRENT_BLOCK_MAJOR_VERSION < major_version b" and hd: "snd (wr_block_header b)"
    and tx: "snd (wr_transaction (miner_tx b))"
    using assms(3) by (simp_all add: wr_block_def, simp add: wr_block_header_def)
  show ?thesis
    using ver pod32_vector [OF assms(2)] rd_transaction_wr [OF assms(1) tx]
    by (simp add: wr_block_def write_fields_Cons hd tx)
      (simp add: wr_block_header_def rd_block_def rd_round_trips block_miner_tx_update)
qed

interpretation account_address: serializable "\<lambda>a. True" wr_account_public_address rd_account_public_address
  by unfold_locales
    (auto simp: wr_account_public_address_def rd_account_public_address_def rd_round_trips pod32.wr_nonempty)

subsection \<open>Properties\<close>

text \<open>
  C22. A transaction that can be written is read back: if \<open>do_serialize\<close> of the saving archive
  returns \<open>true\<close> and all containers have a size that fits \<open>size_t\<close>, parsing the bytes uses them all
  up and returns the transaction, with an absent signature list read as one empty list per input.
\<close>

theorem transaction_round_trip:
  assumes "sizes_tx tx" and "snd (wr_transaction tx)"
  shows "parse_all rd_transaction (fst (wr_transaction tx)) = Some (as_loaded tx)"
  using rd_transaction_wr [OF assms, of "[]"] by (simp add: parse_all_def)

theorem transaction_round_trip_witness:
  "let tx = \<lparr>version = 1, unlock_time = 70, vin = [txin_gen 10], vout = [\<lparr>amount = 5, target = txout_to_key 7\<rparr>],
     extra = [1, 2], signatures = []\<rparr>
   in sizes_tx tx \<and> snd (wr_transaction tx)
     \<and> parse_all rd_transaction (fst (wr_transaction tx)) = Some (tx\<lparr>signatures := [[]]\<rparr>)"
proof -
  define tx where "tx = \<lparr>version = 1, unlock_time = 70, vin = [txin_gen 10],
    vout = [\<lparr>amount = 5, target = txout_to_key 7\<rparr>], extra = [1, 2], signatures = []\<rparr>"
  have "sizes_tx tx" by (simp add: tx_def sizes_tx_def)
  moreover have "snd (wr_transaction tx)"
    by (simp add: tx_def wr_transaction_def wr_transaction_prefix_def wr_signatures_def wr_vector_def
        wr_tx_out_def CURRENT_TRANSACTION_VERSION_def)
  ultimately show ?thesis
    using transaction_round_trip [of tx] by (simp add: as_loaded_def loaded_signatures_def flip: tx_def)
      (simp add: tx_def)
qed

text \<open>
  C23. The same for blocks: header, coinbase transaction and transaction hashes survive the round
  trip, whenever writing succeeds.
\<close>

theorem block_round_trip:
  assumes "sizes_tx (miner_tx b)" and "length (tx_hashes b) < 2 ^ 64" and "snd (wr_block b)"
  shows "parse_all rd_block (fst (wr_block b)) = Some (b\<lparr>miner_tx := as_loaded (miner_tx b)\<rparr>)"
  using rd_block_wr [OF assms, of "[]"] by (simp add: parse_all_def)

theorem block_round_trip_witness:
  "let b = \<lparr>major_version = 1, minor_version = 0, timestamp = 99, prev_id = 3, nonce = 10000,
     miner_tx = set_null, tx_hashes = [4, 5]\<rparr>
   in sizes_tx (miner_tx b) \<and> snd (wr_block b) \<and> parse_all rd_block (fst (wr_block b)) = Some b"
proof -
  define b where "b = \<lparr>major_version = 1, minor_version = 0, timestamp = 99, prev_id = 3, nonce = 10000,
    miner_tx = set_null, tx_hashes = [4, 5]\<rparr>"
  have "sizes_tx (miner_tx b)" "length (tx_hashes b) < 2 ^ 64" by (simp_all add: b_def set_null_def sizes_tx_def)
  moreover have "snd (wr_block b)"
    by (simp add: b_def set_null_def wr_block_def wr_block_header_def wr_transaction_def wr_vector_def
        wr_transaction_prefix_def wr_signatures_def CURRENT_TRANSACTION_VERSION_def CURRENT_BLOCK_MAJOR_VERSION_def)
  moreover have "b\<lparr>miner_tx := as_loaded (miner_tx b)\<rparr> = b"
    by (simp add: b_def as_loaded_def loaded_signatures_def set_null_def)
  ultimately show ?thesis using block_round_trip [of b] by (simp flip: b_def)
qed

text \<open>
  The reader accepts more than the writer produces: a redundant zero byte in the unlock time makes
  \<open>read_varint\<close> return an error that is ignored, and the two byte strings denote the same transaction.
  The transaction id that \<open>parse_and_validate_tx_from_blob\<close> computes from the bytes differs from the
  one that \<open>get_transaction_hash\<close> computes from the transaction.
\<close>

lemma transaction_blob_not_unique:
  "parse_all rd_transaction [1, 0, 0, 0, 0] = parse_all rd_transaction [1, 0x80, 0, 0, 0, 0]
   \<and> parse_all rd_transaction [1, 0x80, 0, 0, 0, 0] \<noteq> None"
  by (simp add: parse_all_def rd_transaction_def rd_varint_def read_varint_eval rd_vector_def
      CURRENT_TRANSACTION_VERSION_def)

end
