(* ===== verification/Emission.thy ===== *)
theory Emission
  imports Int_Util
begin

text \<open>
  \<open>get_block_reward\<close> of \<open>src/cryptonote_core/cryptonote_basic_impl.cpp\<close>: the emission curve and the
  quadratic penalty for blocks above the median size, computed with 128-bit products and two long
  divisions. The result is proved to be the rounded value of the formula, the assertions on it to
  hold, and no intermediate product to wrap.
\<close>

definition MONEY_SUPPLY :: u64 where "MONEY_SUPPLY = - 1"
definition EMISSION_SPEED_FACTOR :: nat where "EMISSION_SPEED_FACTOR = 20"
definition FINAL_SUBSIDY_PER_MINUTE :: u64 where "FINAL_SUBSIDY_PER_MINUTE = 300000000000"
definition CRYPTONOTE_BLOCK_GRANTED_FULL_REWARD_ZONE :: u64 where
  "CRYPTONOTE_BLOCK_GRANTED_FULL_REWARD_ZONE = 20000"
definition COIN :: u64 where "COIN = 1000000000000"

text \<open>
  The result is \<open>reward\<close>, or \<open>None\<close> where the function returns \<open>false\<close>. The remainder of the
  second division is discarded, as in the source. A median whose low 32 bits are zero would divide by
  zero; the assertion on the median excludes it.
\<close>

definition get_block_reward :: "u64 \<Rightarrow> u64 \<Rightarrow> u64 \<Rightarrow> u64 option" where
  "get_block_reward median_size current_block_size already_generated_coins =
     (let base_reward = drop_bit EMISSION_SPEED_FACTOR (MONEY_SUPPLY - already_generated_coins);
          base_reward = (if base_reward < FINAL_SUBSIDY_PER_MINUTE then FINAL_SUBSIDY_PER_MINUTE else base_reward);
          median_size = (if median_size < CRYPTONOTE_BLOCK_GRANTED_FULL_REWARD_ZONE
                         then CRYPTONOTE_BLOCK_GRANTED_FULL_REWARD_ZONE else median_size)
      in if current_block_size \<le> median_size then Some base_reward
         else if 2 * median_size < current_block_size then None
         else
           let (product_hi, product_lo) = mul128 base_reward (current_block_size * (2 * median_size - current_block_size))
           in do {
             (reward_hi, reward_lo, r) \<leftarrow> div128_32 product_hi product_lo (ucast median_size);
             (reward_hi, reward_lo, r) \<leftarrow> div128_32 reward_hi reward_lo (ucast median_size);
             Some reward_lo })"

subsection \<open>The formula\<close>

definition spec_base_reward :: "nat \<Rightarrow> nat" where
  "spec_base_reward generated = max ((2 ^ 64 - 1 - generated) div 2 ^ 20) 300000000000"

definition spec_median :: "nat \<Rightarrow> nat" where
  "spec_median m = max m 20000"

definition spec_reward :: "nat \<Rightarrow> nat \<Rightarrow> nat \<Rightarrow> nat option" where
  "spec_reward median current generated =
     (let m = spec_median median; base = spec_base_reward generated
      in if current \<le> m then Some base
         else if 2 * m < current then None
         else Some (base * (current * (2 * m - current)) div m ^ 2))"

lemma base_reward_value:
  "unat (let b = drop_bit EMISSION_SPEED_FACTOR (MONEY_SUPPLY - g)
         in if b < FINAL_SUBSIDY_PER_MINUTE then FINAL_SUBSIDY_PER_MINUTE else b) = spec_base_reward (unat g)"
proof -
  have "unat (MONEY_SUPPLY - g) = 2 ^ 64 - 1 - unat g"
    unfolding MONEY_SUPPLY_def using word_order.extremum [of g]
    by (subst unat_sub_no_underflow) (simp_all add: unsigned_minus_1_eq_mask mask_eq_exp_minus_1)
  then have "unat (drop_bit EMISSION_SPEED_FACTOR (MONEY_SUPPLY - g)) = (2 ^ 64 - 1 - unat g) div 2 ^ 20"
    by (simp add: unat_drop_bit EMISSION_SPEED_FACTOR_def)
  then show ?thesis
    by (simp add: Let_def spec_base_reward_def FINAL_SUBSIDY_PER_MINUTE_def word_less_nat_alt max_def not_less)
qed

lemma penalty_bound:
  assumes "m < c" and "c \<le> 2 * (m :: nat)"
  shows "c * (2 * m - c) < m ^ 2"
proof -
  obtain d where d: "c = m + d" and "0 < d" "d \<le> m" using assms
    by (metis add_le_cancel_left less_imp_add_positive mult_2)
  then have "c * (2 * m - c) + d * d = m ^ 2"
    using mult_le_mono [of d m d m]
    by (simp add: power2_eq_square algebra_simps diff_mult_distrib2 diff_mult_distrib)
  moreover have "0 < d * d" using \<open>0 < d\<close> by simp
  ultimately show ?thesis by linarith
qed

lemma div128_32_div:
  assumes "d \<noteq> 0"
  obtains qh ql r where "div128_32 h l d = Some (qh, ql, r)"
    and "unat qh * 2 ^ 64 + unat ql = (unat h * 2 ^ 64 + unat l) div unat d"
proof -
  obtain qh ql r where div: "div128_32 h l d = Some (qh, ql, r)" and r: "unat r < unat d"
    and eq: "unat h * 2 ^ 64 + unat l = (unat qh * 2 ^ 64 + unat ql) * unat d + unat r"
    using div128_32_correct [OF assms] by blast
  have "(unat h * 2 ^ 64 + unat l) div unat d = unat qh * 2 ^ 64 + unat ql"
    unfolding eq using r by simp
  with div show thesis using that by metis
qed

lemma unat_ucast_32: "unat (m :: u64) < 2 ^ 32 \<Longrightarrow> unat (ucast m :: u32) = unat m"
  by (simp add: unsigned_ucast_eq take_bit_nat_eq_self)

lemma get_block_reward_value:
  assumes "spec_median (unat median) < 2 ^ 32"
  shows "map_option unat (get_block_reward median current generated)
    = spec_reward (unat median) (unat current) (unat generated)"
proof -
  define base where "base = (let b = drop_bit EMISSION_SPEED_FACTOR (MONEY_SUPPLY - generated)
    in if b < FINAL_SUBSIDY_PER_MINUTE then FINAL_SUBSIDY_PER_MINUTE else b)"
  define m where "m = (if median < CRYPTONOTE_BLOCK_GRANTED_FULL_REWARD_ZONE
    then CRYPTONOTE_BLOCK_GRANTED_FULL_REWARD_ZONE else median)"
  have base: "unat base = spec_base_reward (unat generated)" unfolding base_def by (rule base_reward_value)
  have m: "unat m = spec_median (unat median)"
    by (simp add: m_def spec_median_def CRYPTONOTE_BLOCK_GRANTED_FULL_REWARD_ZONE_def word_less_nat_alt max_def)
  have m32: "unat m < 2 ^ 32" "20000 \<le> unat m" using assms by (simp_all add: m spec_median_def)
  have m2: "unat (2 * m) = 2 * unat m" using m32(1) by (subst unat_mult_no_overflow) auto
  have md: "unat (ucast m :: u32) = unat m" using m32(1) by (rule unat_ucast_32)
  then have mnz: "(ucast m :: u32) \<noteq> 0" using m32(2) by auto
  have cond: "current \<le> m \<longleftrightarrow> unat current \<le> spec_median (unat median)"
      "2 * m < current \<longleftrightarrow> 2 * spec_median (unat median) < unat current"
    using m m2 by (simp_all add: word_le_nat_alt word_less_nat_alt)
  have code: "get_block_reward median current generated =
    (if current \<le> m then Some base else if 2 * m < current then None
     else let (product_hi, product_lo) = mul128 base (current * (2 * m - current)) in do {
       (reward_hi, reward_lo, r) \<leftarrow> div128_32 product_hi product_lo (ucast m);
       (reward_hi, reward_lo, r) \<leftarrow> div128_32 reward_hi reward_lo (ucast m);
       Some reward_lo })"
    by (simp only: get_block_reward_def base_def m_def Let_def)
  show ?thesis
  proof (cases "current \<le> m \<or> 2 * m < current")
    case True
    then show ?thesis using base cond unfolding code spec_reward_def Let_def by auto
  next
    case False
    then have c: "unat m < unat current" "unat current \<le> 2 * unat m" using cond m by auto
    have sub: "unat (2 * m - current) = 2 * unat m - unat current"
      using False m2 by (subst unat_sub_no_underflow) (auto simp: not_less)
    note pen = penalty_bound [OF c]
    have "unat m ^ 2 \<le> (2 ^ 32) ^ 2" using m32(1) by (intro power_mono) auto
    then have prod: "unat (current * (2 * m - current)) = unat current * (2 * unat m - unat current)"
      using pen sub by (subst unat_mult_no_overflow) auto
    obtain ph pl where mul: "mul128 base (current * (2 * m - current)) = (ph, pl)" by fastforce
    obtain qh ql r where q: "div128_32 ph pl (ucast m) = Some (qh, ql, r)"
        "unat qh * 2 ^ 64 + unat ql = (unat ph * 2 ^ 64 + unat pl) div unat m"
      using div128_32_div [OF mnz, of ph pl] md by metis
    obtain rh rl r' where r: "div128_32 qh ql (ucast m) = Some (rh, rl, r')"
        "unat rh * 2 ^ 64 + unat rl = (unat qh * 2 ^ 64 + unat ql) div unat m"
      using div128_32_div [OF mnz, of qh ql] md by metis
    let ?v = "unat base * (unat current * (2 * unat m - unat current)) div unat m ^ 2"
    have v: "unat rh * 2 ^ 64 + unat rl = ?v"
      using r(2) q(2) mul128_correct [OF mul] prod by (simp add: div_mult2_eq power2_eq_square)
    have "?v \<le> unat base * (unat m ^ 2) div unat m ^ 2" using pen by (intro div_le_mono mult_le_mono2) simp
    then have "?v \<le> unat base" using m32(2) by simp
    then have "?v < 2 ^ 64" by (rule le_less_trans) simp
    with v have "unat rh = 0" by (cases "unat rh") auto
    with v have "unat rl = ?v" by simp
    then show ?thesis
      using False cond mul q(1) r(1) base m unfolding code spec_reward_def by (simp add: Let_def)
  qed
qed

subsection \<open>Properties\<close>

text \<open>
  C25. The block reward is the formula of the emission curve: for every median below \<open>2 ^ 32\<close>, the
  128-bit product, the two truncating divisions and the 32-bit divisor give exactly the base reward
  for blocks up to the median, no reward above twice the median, and in between the base reward scaled by
  \<open>c (2 m - c) / m\<^sup>2\<close>, rounded down once.
\<close>

theorem get_block_reward_formula:
  assumes "spec_median (unat median) < 2 ^ 32"
  shows "map_option unat (get_block_reward median current generated)
    = spec_reward (unat median) (unat current) (unat generated)"
  using assms by (rule get_block_reward_value)

theorem get_block_reward_formula_witness:
  "spec_median (unat (30000 :: u64)) < 2 ^ 32
   \<and> map_option unat (get_block_reward 30000 45000 0) = Some (17592186044415 * (45000 * 15000) div 30000 ^ 2)"
  using get_block_reward_formula [of 30000 45000 0] by (simp add: spec_reward_def spec_median_def spec_base_reward_def)

text \<open>
  A block pays for its size: the reward never exceeds the base reward, and it is strictly
  smaller as soon as the block is larger than the median, which is the assertion at the end of
  \<open>get_block_reward\<close>. The function fails exactly for blocks larger than twice the median.
\<close>

theorem get_block_reward_penalty:
  assumes "spec_median (unat median) < 2 ^ 32"
  shows "(get_block_reward median current generated = None \<longleftrightarrow> 2 * spec_median (unat median) < unat current)
    \<and> (\<forall>r. get_block_reward median current generated = Some r \<longrightarrow>
        (if unat current \<le> spec_median (unat median) then unat r = spec_base_reward (unat generated)
         else unat r < spec_base_reward (unat generated)))"
proof -
  let ?m = "spec_median (unat median)" and ?b = "spec_base_reward (unat generated)"
  have m: "0 < ?m" "0 < ?b" by (simp_all add: spec_median_def spec_base_reward_def less_max_iff_disj)
  have pen: "?b * (unat current * (2 * ?m - unat current)) div ?m ^ 2 < ?b"
    if "?m < unat current" "unat current \<le> 2 * ?m"
  proof -
    have "?b * (unat current * (2 * ?m - unat current)) < ?b * ?m ^ 2"
      using penalty_bound [OF that] m by simp
    then show ?thesis by (simp add: less_mult_imp_div_less)
  qed
  have v: "map_option unat (get_block_reward median current generated)
      = spec_reward (unat median) (unat current) (unat generated)"
    using assms by (rule get_block_reward_value)
  show ?thesis
  proof (cases "get_block_reward median current generated")
    case None
    then show ?thesis using v m by (auto simp: spec_reward_def Let_def split: if_splits)
  next
    case (Some r)
    then show ?thesis using v pen by (auto simp: spec_reward_def Let_def not_less not_le split: if_splits)
  qed
qed

theorem get_block_reward_penalty_witness:
  "spec_median (unat (0 :: u64)) < 2 ^ 32 \<and> get_block_reward 0 40001 0 = None"
  using get_block_reward_penalty [of 0 40001 0] by (simp add: spec_median_def)

end
