(* ===== verification/Tx_Extra.thy ===== *)
theory Tx_Extra
  imports Cryptonote_Basic
begin

text \<open>
  \<open>src/cryptonote_core/tx_extra.h\<close> and the functions of \<open>cryptonote_format_utils.cpp\<close> on the extra
  field of a transaction: a sequence of tagged fields (padding, transaction public key, nonce,
  merge-mining tag). Every valid sequence of fields is parsed back; the public key and the payment
  id that the wallet writes are found again.
\<close>

definition TX_EXTRA_PADDING_MAX_COUNT :: nat where "TX_EXTRA_PADDING_MAX_COUNT = 255"
definition TX_EXTRA_NONCE_MAX_COUNT :: nat where "TX_EXTRA_NONCE_MAX_COUNT = 255"
definition TX_EXTRA_TAG_PADDING :: u8 where "TX_EXTRA_TAG_PADDING = 0x00"
definition TX_EXTRA_TAG_PUBKEY :: u8 where "TX_EXTRA_TAG_PUBKEY = 0x01"
definition TX_EXTRA_NONCE :: u8 where "TX_EXTRA_NONCE = 0x02"
definition TX_EXTRA_MERGE_MINING_TAG :: u8 where "TX_EXTRA_MERGE_MINING_TAG = 0x03"
definition TX_EXTRA_NONCE_PAYMENT_ID :: u8 where "TX_EXTRA_NONCE_PAYMENT_ID = 0x00"

lemmas tx_extra_tags = TX_EXTRA_TAG_PADDING_def TX_EXTRA_TAG_PUBKEY_def TX_EXTRA_NONCE_def
  TX_EXTRA_MERGE_MINING_TAG_def

datatype tx_extra_field =
    tx_extra_padding nat
  | tx_extra_pub_key public_key
  | tx_extra_nonce blob
  | tx_extra_merge_mining_tag u64 hash

subsection \<open>Loading\<close>

text \<open>The loop over the zeros of a padding; \<open>sz\<close> counts the tag as the first one.\<close>

fun rd_padding_loop :: "nat \<Rightarrow> nat reader" where
  "rd_padding_loop sz [] = (if sz \<le> TX_EXTRA_PADDING_MAX_COUNT then Some (sz, []) else None)"
| "rd_padding_loop sz (zero # s) =
     (if sz \<le> TX_EXTRA_PADDING_MAX_COUNT then if zero \<noteq> 0 then None else rd_padding_loop (sz + 1) s
      else None)"

definition rd_tx_extra_pub_key :: "public_key reader" where
  "rd_tx_extra_pub_key s = rd_pod s"

definition rd_tx_extra_nonce :: "blob reader" where
  "rd_tx_extra_nonce s = do {
     (n, s) \<leftarrow> rd_string s;
     if TX_EXTRA_NONCE_MAX_COUNT < length n then None else Some (n, s) }"

definition rd_merge_mining_helper :: "(u64 \<times> hash) reader" where
  "rd_merge_mining_helper s = do {
     (depth, s) \<leftarrow> rd_varint s;
     (merkle_root, s) \<leftarrow> rd_pod s;
     Some ((depth, merkle_root), s) }"

definition rd_tx_extra_merge_mining_tag :: "(u64 \<times> hash) reader" where
  "rd_tx_extra_merge_mining_tag s = do {
     (field, s) \<leftarrow> rd_string s;
     mm \<leftarrow> parse_all rd_merge_mining_helper field;
     Some (mm, s) }"

definition rd_tx_extra_field :: "tx_extra_field reader" where
  "rd_tx_extra_field s = do {
     (t, s) \<leftarrow> rd_tag s;
     if t = TX_EXTRA_TAG_PADDING then do { (sz, s) \<leftarrow> rd_padding_loop 1 s; Some (tx_extra_padding sz, s) }
     else if t = TX_EXTRA_TAG_PUBKEY then do { (k, s) \<leftarrow> rd_tx_extra_pub_key s; Some (tx_extra_pub_key k, s) }
     else if t = TX_EXTRA_NONCE then do { (n, s) \<leftarrow> rd_tx_extra_nonce s; Some (tx_extra_nonce n, s) }
     else if t = TX_EXTRA_MERGE_MINING_TAG then do {
       ((d, r), s) \<leftarrow> rd_tx_extra_merge_mining_tag s;
       Some (tx_extra_merge_mining_tag d r, s) }
     else None }"

lemma read_varint_loop_length: "read_varint_loop bits sh rd wr s = (c, v, s') \<Longrightarrow> length s' \<le> length s"
  by (induction bits sh rd wr s rule: read_varint_loop.induct) (auto simp: Let_def split: if_splits)

lemma rd_varint_length: "rd_varint s = Some (v, s') \<Longrightarrow> length s' \<le> length s"
  by (auto simp: rd_varint_def read_varint_def dest: read_varint_loop_length split: prod.splits)

lemma rd_blob_length: "rd_blob n s = Some (b, s') \<Longrightarrow> length s' \<le> length s"
  by (auto simp: rd_blob_def split: if_splits)

lemma rd_string_length: "rd_string s = Some (b, s') \<Longrightarrow> length s' \<le> length s"
  by (auto simp: rd_string_def split: bind_splits if_splits dest!: rd_varint_length rd_blob_length)

lemma rd_padding_length: "rd_padding_loop sz s = Some (n, s') \<Longrightarrow> length s' \<le> length s"
  by (induction sz s rule: rd_padding_loop.induct) (auto split: if_splits)

lemma rd_tag_length: "rd_tag s = Some (t, s') \<Longrightarrow> length s' < length s"
  by (cases s) (auto simp: rd_tag_def rd_uint_def)

lemma rd_tx_extra_field_length: "rd_tx_extra_field s = Some (f, s') \<Longrightarrow> length s' < length s"
  by (auto simp: rd_tx_extra_field_def rd_tx_extra_pub_key_def rd_pod_def rd_tx_extra_nonce_def
      rd_tx_extra_merge_mining_tag_def split: bind_splits if_splits
      dest!: rd_tag_length rd_padding_length rd_blob_length rd_string_length)

text \<open>
  The loop of \<open>parse_tx_extra\<close>. When a field cannot be read the function returns \<open>false\<close> and leaves
  the fields read so far.
\<close>

function parse_tx_extra_loop :: "blob \<Rightarrow> bool \<times> tx_extra_field list" where
  "parse_tx_extra_loop s =
     (case rd_tx_extra_field s of
        None \<Rightarrow> (False, [])
      | Some (field, s') \<Rightarrow>
          if s' = [] then (True, [field])
          else let (r, fields) = parse_tx_extra_loop s' in (r, field # fields))"
  by pat_completeness auto
termination by (relation "measure length") (auto dest: rd_tx_extra_field_length)

declare parse_tx_extra_loop.simps [simp del]

definition parse_tx_extra :: "blob \<Rightarrow> bool \<times> tx_extra_field list" where
  "parse_tx_extra tx_extra = (if tx_extra = [] then (True, []) else parse_tx_extra_loop tx_extra)"

fun find_tx_extra_pub_key :: "tx_extra_field list \<Rightarrow> public_key option" where
  "find_tx_extra_pub_key [] = None"
| "find_tx_extra_pub_key (tx_extra_pub_key k # fs) = Some k"
| "find_tx_extra_pub_key (f # fs) = find_tx_extra_pub_key fs"

fun find_tx_extra_nonce :: "tx_extra_field list \<Rightarrow> blob option" where
  "find_tx_extra_nonce [] = None"
| "find_tx_extra_nonce (tx_extra_nonce n # fs) = Some n"
| "find_tx_extra_nonce (f # fs) = find_tx_extra_nonce fs"

definition get_tx_pub_key_from_extra :: "blob \<Rightarrow> public_key" where
  "get_tx_pub_key_from_extra tx_extra =
     (case find_tx_extra_pub_key (snd (parse_tx_extra tx_extra)) of None \<Rightarrow> null_pkey | Some k \<Rightarrow> k)"

subsection \<open>Storing\<close>

fun wr_tx_extra_field :: "tx_extra_field \<Rightarrow> written" where
  "wr_tx_extra_field (tx_extra_padding sz) =
     write_fields [wr_tag TX_EXTRA_TAG_PADDING,
       if TX_EXTRA_PADDING_MAX_COUNT < sz then ([], False) else (replicate (sz - 1) 0, True)]"
| "wr_tx_extra_field (tx_extra_pub_key k) = write_fields [wr_tag TX_EXTRA_TAG_PUBKEY, wr_pod k]"
| "wr_tx_extra_field (tx_extra_nonce n) =
     write_fields [wr_tag TX_EXTRA_NONCE, wr_string n, ([], \<not> TX_EXTRA_NONCE_MAX_COUNT < length n)]"
| "wr_tx_extra_field (tx_extra_merge_mining_tag d r) =
     write_fields [wr_tag TX_EXTRA_MERGE_MINING_TAG, wr_string (fst (write_fields [wr_varint d, wr_pod r]))]"

text \<open>Appending to the extra field: resize, then tag, length and data at the end.\<close>

definition add_tx_pub_key_to_extra :: "blob \<Rightarrow> public_key \<Rightarrow> blob" where
  "add_tx_pub_key_to_extra tx_extra tx_pub_key = tx_extra @ TX_EXTRA_TAG_PUBKEY # bytes_of_word 32 tx_pub_key"

definition add_extra_nonce_to_tx_extra :: "blob \<Rightarrow> blob \<Rightarrow> blob option" where
  "add_extra_nonce_to_tx_extra tx_extra extra_nonce =
     (if length extra_nonce \<le> TX_EXTRA_NONCE_MAX_COUNT
      then Some (tx_extra @ TX_EXTRA_NONCE # of_nat (length extra_nonce) # extra_nonce)
      else None)"

definition set_payment_id_to_tx_extra_nonce :: "hash \<Rightarrow> blob" where
  "set_payment_id_to_tx_extra_nonce payment_id = TX_EXTRA_NONCE_PAYMENT_ID # bytes_of_word 32 payment_id"

definition get_payment_id_from_tx_extra_nonce :: "blob \<Rightarrow> hash option" where
  "get_payment_id_from_tx_extra_nonce extra_nonce =
     (if 32 + 1 \<noteq> length extra_nonce then None
      else if TX_EXTRA_NONCE_PAYMENT_ID \<noteq> extra_nonce ! 0 then None
      else Some (word_of_bytes (drop 1 extra_nonce)))"

subsection \<open>Round trips\<close>

text \<open>
  A sequence of fields as it can be stored: a padding has 1 to 255 bytes and is the last field,
  nonces have at most 255 bytes.
\<close>

fun valid_extra :: "tx_extra_field list \<Rightarrow> bool" where
  "valid_extra [] \<longleftrightarrow> True"
| "valid_extra (tx_extra_padding sz # fs) \<longleftrightarrow> 1 \<le> sz \<and> sz \<le> 255 \<and> fs = []"
| "valid_extra (tx_extra_nonce n # fs) \<longleftrightarrow> length n \<le> 255 \<and> valid_extra fs"
| "valid_extra (f # fs) \<longleftrightarrow> valid_extra fs"

definition extra_of :: "tx_extra_field list \<Rightarrow> blob" where
  "extra_of fs = concat (map (\<lambda>f. fst (wr_tx_extra_field f)) fs)"

lemma rd_padding_zeros: "sz + n \<le> 255 \<Longrightarrow> rd_padding_loop sz (replicate n 0) = Some (sz + n, [])"
  by (induction n arbitrary: sz) (auto simp: TX_EXTRA_PADDING_MAX_COUNT_def)

lemma rd_merge_mining_wr: "parse_all rd_merge_mining_helper (fst (write_fields [wr_varint d, wr_pod r])) = Some (d, r)"
  by (simp add: parse_all_def rd_merge_mining_helper_def write_fields_Cons rd_round_trips pod32.rd_wr_end)

lemma length_merge_mining: "length (fst (write_fields [wr_varint (d :: u64), wr_pod (r :: hash)])) < 2 ^ 64"
proof -
  have "length (write_varint (unat d)) \<le> 10"
    using length_write_varint [of "unat d" 10] unat_lt_64 [of d] by (simp del: unat_lt_64)
  then show ?thesis by (simp add: write_fields_Cons fst_wr_varint)
qed

lemma rd_field_wr:
  assumes "valid_extra (f # fs)"
  shows "rd_tx_extra_field (fst (wr_tx_extra_field f) @ extra_of fs) = Some (f, extra_of fs)"
proof (cases f)
  case (tx_extra_padding sz)
  then have "1 \<le> sz" "sz \<le> 255" "fs = []" using assms by auto
  then show ?thesis
    using tx_extra_padding rd_padding_zeros [of 1 "sz - 1"]
    by (simp add: write_fields_Cons rd_tx_extra_field_def tx_extra_tags extra_of_def TX_EXTRA_PADDING_MAX_COUNT_def)
next
  case (tx_extra_pub_key k)
  then show ?thesis
    by (simp add: write_fields_Cons rd_tx_extra_field_def tx_extra_tags rd_tx_extra_pub_key_def pod32.rd_wr)
next
  case (tx_extra_nonce n)
  then have "length n \<le> 255" using assms by simp
  then show ?thesis
    using tx_extra_nonce string_round_trip [of n]
    by (simp add: write_fields_Cons rd_tx_extra_field_def tx_extra_tags rd_tx_extra_nonce_def TX_EXTRA_NONCE_MAX_COUNT_def)
next
  case (tx_extra_merge_mining_tag d r)
  then show ?thesis
    using string_round_trip [OF length_merge_mining [of d r]]
    by (simp add: write_fields_Cons [of "wr_tag _"] write_fields_Cons [of "wr_string _"] rd_tx_extra_field_def
        tx_extra_tags rd_tx_extra_merge_mining_tag_def rd_merge_mining_wr)
qed

lemma wr_field_nonempty: "fst (wr_tx_extra_field f) \<noteq> []"
  by (cases f) (simp_all add: write_fields_Cons)

lemma parse_extra_of: "valid_extra fs \<Longrightarrow> parse_tx_extra (extra_of fs) = (True, fs)"
proof (induction fs)
  case Nil
  then show ?case by (simp add: parse_tx_extra_def extra_of_def)
next
  case (Cons f fs)
  have ne: "extra_of (f # fs) \<noteq> []" using wr_field_nonempty by (simp add: extra_of_def)
  have valid: "valid_extra fs" using Cons.prems by (cases f) auto
  have ne': "extra_of fs = [] \<longleftrightarrow> fs = []" using wr_field_nonempty by (cases fs) (auto simp: extra_of_def)
  have "extra_of (f # fs) = fst (wr_tx_extra_field f) @ extra_of fs" by (simp add: extra_of_def)
  then have "parse_tx_extra_loop (extra_of (f # fs)) =
      (if fs = [] then (True, [f]) else let (r, fields) = parse_tx_extra_loop (extra_of fs) in (r, f # fields))"
    using rd_field_wr [OF Cons.prems] ne' by (subst parse_tx_extra_loop.simps) simp
  then show ?case
    using Cons.IH [OF valid] ne ne' by (auto simp: parse_tx_extra_def split: if_splits)
qed

lemma extra_of_append: "extra_of (fs @ gs) = extra_of fs @ extra_of gs"
  by (simp add: extra_of_def)

definition no_padding :: "tx_extra_field list \<Rightarrow> bool" where
  "no_padding fs \<longleftrightarrow> (\<forall>f \<in> set fs. \<forall>sz. f \<noteq> tx_extra_padding sz)"

lemma valid_extra_append: "valid_extra fs \<Longrightarrow> no_padding fs \<Longrightarrow> valid_extra gs \<Longrightarrow> valid_extra (fs @ gs)"
proof (induction fs)
  case (Cons f fs)
  then show ?case by (cases f) (auto simp: no_padding_def)
qed simp

lemma add_pub_key_extra_of: "add_tx_pub_key_to_extra (extra_of fs) k = extra_of (fs @ [tx_extra_pub_key k])"
  by (simp add: add_tx_pub_key_to_extra_def extra_of_def write_fields_Cons wr_tag_def wr_uint_bytes wr_pod_def
      bytes_of_word_conv TX_EXTRA_TAG_PUBKEY_def)

lemma find_pub_key_append:
  "find_tx_extra_pub_key fs = None \<Longrightarrow> find_tx_extra_pub_key (fs @ [tx_extra_pub_key k]) = Some k"
proof (induction fs)
  case (Cons f fs)
  then show ?case by (cases f) auto
qed simp

lemma add_nonce_extra_of:
  assumes "length n < 128"
  shows "add_extra_nonce_to_tx_extra (extra_of fs) n = Some (extra_of (fs @ [tx_extra_nonce n]))"
proof -
  have "write_varint (unat (of_nat (length n) :: u64)) = [of_nat (length n)]"
    using assms by (simp add: unat_of_nat write_varint_small)
  then show ?thesis
    using assms
    by (simp add: add_extra_nonce_to_tx_extra_def extra_of_def write_fields_Cons wr_string_def wr_blob_def
        fst_wr_varint wr_tag_def wr_uint_bytes bytes_of_word_conv TX_EXTRA_NONCE_def TX_EXTRA_NONCE_MAX_COUNT_def)
qed

lemma find_nonce_append:
  "find_tx_extra_nonce fs = None \<Longrightarrow> find_tx_extra_nonce (fs @ tx_extra_nonce n # gs) = Some n"
proof (induction fs)
  case (Cons f fs)
  then show ?case by (cases f) auto
qed simp

lemma find_pub_key_skip_nonce: "find_tx_extra_pub_key (fs @ [tx_extra_nonce n]) = find_tx_extra_pub_key fs"
proof (induction fs)
  case (Cons f fs)
  then show ?case by (cases f) auto
qed simp

lemma get_set_payment_id: "get_payment_id_from_tx_extra_nonce (set_payment_id_to_tx_extra_nonce pid) = Some pid"
  by (simp add: get_payment_id_from_tx_extra_nonce_def set_payment_id_to_tx_extra_nonce_def)

text \<open>A length byte of 128 or more is read as the first byte of a longer varint.\<close>

lemma rd_varint_cont_length:
  assumes "128 \<le> unat b" and "rd_varint (b # c # s) = Some (v :: u64, s')"
  shows "length s' \<le> length s"
proof -
  obtain code x where r: "read_varint 64 (b # c # s) = (code, x, s')"
    using assms(2) by (auto simp: rd_varint_def split: prod.splits)
  have "b \<noteq> 0" using assms(1) by auto
  then show ?thesis using r assms(1) read_varint_loop_length [of 64]
    by (auto simp: read_varint_def Let_def and_80_iff split: if_splits)
qed

lemma long_nonce_lost:
  assumes "128 \<le> length n" and "add_extra_nonce_to_tx_extra [] n = Some e"
  shows "parse_tx_extra e \<noteq> (True, [tx_extra_nonce n])"
proof
  assume parse: "parse_tx_extra e = (True, [tx_extra_nonce n])"
  obtain c t where n: "n = c # t" using assms(1) by (cases n) auto
  have len: "length n \<le> 255" and e: "e = TX_EXTRA_NONCE # of_nat (length n) # n"
    using assms(2) by (auto simp: add_extra_nonce_to_tx_extra_def TX_EXTRA_NONCE_MAX_COUNT_def split: if_splits)
  have "parse_tx_extra_loop e = (True, [tx_extra_nonce n])" using parse by (simp add: parse_tx_extra_def e)
  then obtain s' where "rd_tx_extra_field e = Some (tx_extra_nonce n, s')"
    by (subst (asm) parse_tx_extra_loop.simps) (auto split: option.splits if_splits prod.splits)
  then have "rd_tx_extra_nonce (of_nat (length n) # n) = Some (n, s')"
    by (auto simp: e rd_tx_extra_field_def tx_extra_tags rd_tag_def rd_uint_def split: bind_splits)
  then obtain v r where v: "rd_varint (of_nat (length n) # n) = Some (v :: u64, r)" and blob: "rd_blob (unat v) r = Some (n, s')"
    by (auto simp: rd_tx_extra_nonce_def rd_string_def split: bind_splits if_splits)
  have "128 \<le> unat (of_nat (length n) :: u8)" using assms(1) len by (simp add: unat_of_nat)
  then have "length r \<le> length t"
    using rd_varint_cont_length [of "of_nat (length n)" c t v r] v by (simp add: n)
  moreover have "length n \<le> length r" using blob by (auto simp: rd_blob_def split: if_splits)
  ultimately show False by (simp add: n)
qed

subsection \<open>Properties\<close>

text \<open>
  C29. The extra field is parsed exactly: the bytes of every valid sequence of fields (padding last,
  nonces of at most 255 bytes) are parsed successfully into the same sequence.
\<close>

theorem tx_extra_round_trip:
  assumes "valid_extra fs"
  shows "parse_tx_extra (extra_of fs) = (True, fs)"
  using assms by (rule parse_extra_of)

theorem tx_extra_round_trip_witness:
  "let fs = [tx_extra_pub_key 5, tx_extra_nonce [1, 2], tx_extra_merge_mining_tag 3 9, tx_extra_padding 4]
   in valid_extra fs \<and> parse_tx_extra (extra_of fs) = (True, fs)"
  using tx_extra_round_trip [of "[tx_extra_pub_key 5, tx_extra_nonce [1, 2], tx_extra_merge_mining_tag 3 9, tx_extra_padding 4]"]
  by simp

text \<open>
  C30. What a sender puts into the extra field the receiver finds: after a payment id has been added
  as a nonce and then the transaction public key, to an extra field without padding that has neither,
  \<open>get_tx_pub_key_from_extra\<close> returns the key and the first nonce decodes to the payment id.
\<close>

theorem payment_id_and_key_found:
  assumes "valid_extra fs" and "no_padding fs" and "find_tx_extra_pub_key fs = None" and "find_tx_extra_nonce fs = None"
  shows "\<exists>e. add_extra_nonce_to_tx_extra (extra_of fs) (set_payment_id_to_tx_extra_nonce pid) = Some e
    \<and> get_tx_pub_key_from_extra (add_tx_pub_key_to_extra e k) = k
    \<and> Option.bind (find_tx_extra_nonce (snd (parse_tx_extra (add_tx_pub_key_to_extra e k))))
        get_payment_id_from_tx_extra_nonce = Some pid"
proof -
  let ?n = "set_payment_id_to_tx_extra_nonce pid"
  let ?fs = "fs @ [tx_extra_nonce ?n]"
  have len: "length ?n = 33" by (simp add: set_payment_id_to_tx_extra_nonce_def)
  have "valid_extra (?fs @ [tx_extra_pub_key k])"
    using assms(1,2) len by (intro valid_extra_append) (auto simp: no_padding_def)
  then have "parse_tx_extra (add_tx_pub_key_to_extra (extra_of ?fs) k) = (True, ?fs @ [tx_extra_pub_key k])"
    unfolding add_pub_key_extra_of by (rule parse_extra_of)
  then show ?thesis
    using add_nonce_extra_of [of ?n fs] len assms(3,4) find_pub_key_append [of ?fs k]
      find_nonce_append [of fs ?n "[tx_extra_pub_key k]"]
    by (simp add: get_tx_pub_key_from_extra_def find_pub_key_skip_nonce get_set_payment_id)
qed

theorem payment_id_and_key_found_witness:
  "\<exists>e. add_extra_nonce_to_tx_extra (extra_of []) (set_payment_id_to_tx_extra_nonce 77) = Some e
    \<and> get_tx_pub_key_from_extra (add_tx_pub_key_to_extra e 42) = 42"
  using payment_id_and_key_found [of "[]" 77 42] by (auto simp: no_padding_def)

text \<open>
  C31. A nonce of 128 to 255 bytes is accepted by \<open>add_extra_nonce_to_tx_extra\<close> but written with a
  one-byte length that the parser reads as the first byte of a longer varint: the nonce is never read
  back.
\<close>

theorem long_extra_nonce_is_lost:
  assumes "128 \<le> length n" and "length n \<le> TX_EXTRA_NONCE_MAX_COUNT"
  shows "\<exists>e. add_extra_nonce_to_tx_extra [] n = Some e \<and> parse_tx_extra e \<noteq> (True, [tx_extra_nonce n])"
  using assms long_nonce_lost [OF assms(1)] by (simp add: add_extra_nonce_to_tx_extra_def)

theorem long_extra_nonce_is_lost_witness:
  "length (replicate 200 (1 :: u8)) = 200 \<and> (\<exists>e. add_extra_nonce_to_tx_extra [] (replicate 200 1) = Some e
    \<and> parse_tx_extra e \<noteq> (True, [tx_extra_nonce (replicate 200 1)]))"
  using long_extra_nonce_is_lost [of "replicate 200 1"] by (simp add: TX_EXTRA_NONCE_MAX_COUNT_def)

end
