(* ===== verification/Scalar_Ops.thy ===== *)
theory Scalar_Ops
  imports Prelude "HOL-Library.Monad_Syntax"
begin

unbundle bit_operations_syntax

text \<open>
  \<open>src/crypto/crypto-ops.c\<close>, the arithmetic on scalars modulo the order of the base point:
  \<open>sc_reduce\<close>, \<open>sc_reduce32\<close>, \<open>sc_add\<close>, \<open>sc_sub\<close>, \<open>sc_mulsub\<close>, \<open>sc_check\<close>, \<open>sc_isnonzero\<close> and \<open>sc_0\<close>.
  Scalars are 256-bit words, read as little-endian bytes. An interval analysis of the digits, run by
  the simplifier, shows that no \<open>int64_t\<close> operation overflows and that the final digits are
  canonical; together with the value of each line modulo the order it gives that every routine
  returns exactly the residue its comment promises.
\<close>

subsection \<open>Loading digits\<close>

definition load_3 :: "blob \<Rightarrow> nat \<Rightarrow> u64" where
  "load_3 inp i = ucast (inp ! i) OR push_bit 8 (ucast (inp ! (i + 1))) OR push_bit 16 (ucast (inp ! (i + 2)))"

definition load_4 :: "blob \<Rightarrow> nat \<Rightarrow> u64" where
  "load_4 inp i = ucast (inp ! i) OR push_bit 8 (ucast (inp ! (i + 1))) OR push_bit 16 (ucast (inp ! (i + 2)))
     OR push_bit 24 (ucast (inp ! (i + 3)))"

text \<open>
  The 21-bit digits of a scalar: \<open>sc_load_11\<close> is the common beginning of all routines, the lines
  for \<open>s0\<close> to \<open>s10\<close> from byte \<open>i\<close> on. The top digit of a 32-byte scalar is not masked.
\<close>

definition sc_load_11 :: "blob \<Rightarrow> nat \<Rightarrow> int list" where
  "sc_load_11 s i = map sint
     [2097151 AND load_3 s i,
      2097151 AND drop_bit 5 (load_4 s (i + 2)),
      2097151 AND drop_bit 2 (load_3 s (i + 5)),
      2097151 AND drop_bit 7 (load_4 s (i + 7)),
      2097151 AND drop_bit 4 (load_4 s (i + 10)),
      2097151 AND drop_bit 1 (load_3 s (i + 13)),
      2097151 AND drop_bit 6 (load_4 s (i + 15)),
      2097151 AND drop_bit 3 (load_3 s (i + 18)),
      2097151 AND load_3 s (i + 21),
      2097151 AND drop_bit 5 (load_4 s (i + 23)),
      2097151 AND drop_bit 2 (load_3 s (i + 26))]"

definition sc_load_32 :: "blob \<Rightarrow> int list" where
  "sc_load_32 s = sc_load_11 s 0 @ [sint (drop_bit 7 (load_4 s 28))]"

definition sc_load_64 :: "blob \<Rightarrow> int list" where
  "sc_load_64 s = sc_load_11 s 0 @ map sint
     [2097151 AND drop_bit 7 (load_4 s 28),
      2097151 AND drop_bit 4 (load_4 s 31),
      2097151 AND drop_bit 1 (load_3 s 34),
      2097151 AND drop_bit 6 (load_4 s 36),
      2097151 AND drop_bit 3 (load_3 s 39),
      2097151 AND load_3 s 42,
      2097151 AND drop_bit 5 (load_4 s 44),
      2097151 AND drop_bit 2 (load_3 s 47),
      2097151 AND drop_bit 7 (load_4 s 49),
      2097151 AND drop_bit 4 (load_4 s 52),
      2097151 AND drop_bit 1 (load_3 s 55),
      2097151 AND drop_bit 6 (load_4 s 57),
      drop_bit 3 (load_4 s 60)]"

subsection \<open>The lines of the reductions\<close>

text \<open>
  The variables \<open>s0\<close>, \<open>s1\<close>, \<open>...\<close> of type \<open>int64_t\<close> are a list of integers; every addition,
  subtraction, multiplication and shift is checked to stay in the range of the type, so \<open>None\<close> is
  signed overflow. Shifting a negative number to the left is multiplication, and shifting it to the
  right rounds down, as compilers implement it.
\<close>

definition int64 :: "int \<Rightarrow> int option" where
  "int64 x = (if - (2 ^ 63) \<le> x \<and> x < 2 ^ 63 then Some x else None)"

text \<open>One line \<open>carry = (s_i + rnd) >> 21; s_j += carry; s_i -= carry << 21;\<close> with \<open>j = i + 1\<close>.\<close>

definition sc_carry :: "int \<Rightarrow> nat \<Rightarrow> int list \<Rightarrow> int list option" where
  "sc_carry rnd i s = do {
     t \<leftarrow> int64 (s ! i + rnd);
     let carry = drop_bit 21 t;
     up \<leftarrow> int64 (s ! (i + 1) + carry);
     d \<leftarrow> int64 (push_bit 21 carry);
     low \<leftarrow> int64 (s ! i - d);
     Some (s[i + 1 := up, i := low]) }"

text \<open>
  The six lines \<open>s_j += s_k * c\<close> (or \<open>-=\<close>, for a negative entry) that fold digit \<open>k\<close> into the digits
  twelve places down, with the digits of \<open>2 ^ 252\<close> modulo the group order as factors.
\<close>

definition sc_coefficients :: "int list" where
  "sc_coefficients = [666643, 470296, 654183, - 997805, 136657, - 683901]"

fun sc_fold :: "nat \<Rightarrow> nat \<Rightarrow> int list \<Rightarrow> int list \<Rightarrow> int list option" where
  "sc_fold k j [] s = Some s"
| "sc_fold k j (c # cs) s = do {
     p \<leftarrow> int64 (s ! k * \<bar>c\<bar>);
     v \<leftarrow> int64 (if 0 \<le> c then s ! j + p else s ! j - p);
     sc_fold k (j + 1) cs (s[j := v]) }"

text \<open>
  The reductions are straight-line programs of four kinds of lines: a carry that rounds to the
  nearest, a carry that rounds down, a fold, and \<open>s_k = 0\<close>.
\<close>

datatype sc_line = Round nat | Floor nat | Fold nat | Clear nat

fun sc_step :: "sc_line \<Rightarrow> int list \<Rightarrow> int list option" where
  "sc_step (Round i) s = sc_carry (2 ^ 20) i s"
| "sc_step (Floor i) s = sc_carry 0 i s"
| "sc_step (Fold k) s = sc_fold k (k - 12) sc_coefficients s"
| "sc_step (Clear k) s = Some (s[k := 0])"

fun sc_run :: "sc_line list \<Rightarrow> int list \<Rightarrow> int list option" where
  "sc_run [] s = Some s"
| "sc_run (i # is) s = do { s' \<leftarrow> sc_step i s; sc_run is s' }"

text \<open>The lines of \<open>sc_reduce\<close> and \<open>sc_mulsub\<close> that fold the digits 23 to 12, in their order.\<close>

definition sc_lines_high :: "sc_line list" where
  "sc_lines_high = map Fold [23, 22, 21, 20, 19, 18] @ map Round [6, 8, 10, 12, 14, 16] @ map Round [7, 9, 11, 13, 15]
     @ map Fold [17, 16, 15, 14, 13, 12] @ [Clear 12]"

text \<open>The lines all routines share: one round of carries, then the fold of digit 12.\<close>

definition sc_lines_low :: "sc_line list" where
  "sc_lines_low = map Round [0, 2, 4, 6, 8, 10] @ map Round [1, 3, 5, 7, 9, 11] @ [Fold 12, Clear 12]"

text \<open>The last two rounds of floor carries, with a fold of digit 12 between them.\<close>

definition sc_lines_final :: "sc_line list" where
  "sc_lines_final = map Floor [0, 1, 2, 3, 4, 5, 6, 7, 8, 9, 10, 11] @ [Fold 12] @ map Floor [0, 1, 2, 3, 4, 5, 6, 7, 8, 9, 10]"

text \<open>The 32 bytes written at the end; the assignments to \<open>unsigned char\<close> keep the low eight bits.\<close>

definition sc_pack :: "int list \<Rightarrow> blob" where
  "sc_pack s = map word_of_int
     [drop_bit 0 (s ! 0), drop_bit 8 (s ! 0), drop_bit 16 (s ! 0) OR push_bit 5 (s ! 1),
      drop_bit 3 (s ! 1), drop_bit 11 (s ! 1), drop_bit 19 (s ! 1) OR push_bit 2 (s ! 2),
      drop_bit 6 (s ! 2), drop_bit 14 (s ! 2) OR push_bit 7 (s ! 3),
      drop_bit 1 (s ! 3), drop_bit 9 (s ! 3), drop_bit 17 (s ! 3) OR push_bit 4 (s ! 4),
      drop_bit 4 (s ! 4), drop_bit 12 (s ! 4), drop_bit 20 (s ! 4) OR push_bit 1 (s ! 5),
      drop_bit 7 (s ! 5), drop_bit 15 (s ! 5) OR push_bit 6 (s ! 6),
      drop_bit 2 (s ! 6), drop_bit 10 (s ! 6), drop_bit 18 (s ! 6) OR push_bit 3 (s ! 7),
      drop_bit 5 (s ! 7), drop_bit 13 (s ! 7),
      drop_bit 0 (s ! 8), drop_bit 8 (s ! 8), drop_bit 16 (s ! 8) OR push_bit 5 (s ! 9),
      drop_bit 3 (s ! 9), drop_bit 11 (s ! 9), drop_bit 19 (s ! 9) OR push_bit 2 (s ! 10),
      drop_bit 6 (s ! 10), drop_bit 14 (s ! 10) OR push_bit 7 (s ! 11),
      drop_bit 1 (s ! 11), drop_bit 9 (s ! 11), drop_bit 17 (s ! 11)]"

definition sc_finish :: "sc_line list \<Rightarrow> int list \<Rightarrow> 256 word option" where
  "sc_finish ls s = do { s' \<leftarrow> sc_run (ls @ sc_lines_final) s; Some (word_of_bytes (sc_pack s')) }"

subsection \<open>The routines\<close>

definition sc_reduce :: "512 word \<Rightarrow> 256 word option" where
  "sc_reduce s = sc_finish (sc_lines_high @ sc_lines_low) (sc_load_64 (bytes_of_word 64 s))"

definition sc_reduce32 :: "256 word \<Rightarrow> 256 word option" where
  "sc_reduce32 s = sc_finish sc_lines_low (sc_load_32 (bytes_of_word 32 s) @ [0])"

definition sc_add :: "256 word \<Rightarrow> 256 word \<Rightarrow> 256 word option" where
  "sc_add a b = do {
     s \<leftarrow> those (map2 (\<lambda>x y. int64 (x + y)) (sc_load_32 (bytes_of_word 32 a)) (sc_load_32 (bytes_of_word 32 b)));
     sc_finish sc_lines_low (s @ [0]) }"

definition sc_sub :: "256 word \<Rightarrow> 256 word \<Rightarrow> 256 word option" where
  "sc_sub a b = do {
     s \<leftarrow> those (map2 (\<lambda>x y. int64 (x - y)) (sc_load_32 (bytes_of_word 32 a)) (sc_load_32 (bytes_of_word 32 b)));
     sc_finish sc_lines_low (s @ [0]) }"

text \<open>
  The products of \<open>sc_mulsub\<close>: digit \<open>n\<close> is \<open>c_n\<close> minus the sum of all \<open>a_i * b_j\<close> with \<open>i + j = n\<close>,
  added from left to right.
\<close>

fun sc_dot :: "int list \<Rightarrow> int list \<Rightarrow> nat \<Rightarrow> int \<Rightarrow> nat list \<Rightarrow> int option" where
  "sc_dot a b n acc [] = Some acc"
| "sc_dot a b n acc (i # is) = do {
     p \<leftarrow> int64 (a ! i * b ! (n - i));
     acc' \<leftarrow> int64 (acc + p);
     sc_dot a b n acc' is }"

definition sc_mulsub_limbs :: "int list \<Rightarrow> int list \<Rightarrow> int list \<Rightarrow> int list option" where
  "sc_mulsub_limbs a b c = those (map (\<lambda>n.
     if n = 23 then Some 0
     else do {
       d \<leftarrow> sc_dot a b n 0 [n - 11..<Suc (min n 11)];
       int64 ((if n < 12 then c ! n else 0) - d) }) [0..<24])"

definition sc_mulsub_lines :: "sc_line list" where
  "sc_mulsub_lines = map Round [0, 2, 4, 6, 8, 10, 12, 14, 16, 18, 20, 22]
     @ map Round [1, 3, 5, 7, 9, 11, 13, 15, 17, 19, 21] @ sc_lines_high @ sc_lines_low"

definition sc_mulsub :: "256 word \<Rightarrow> 256 word \<Rightarrow> 256 word \<Rightarrow> 256 word option" where
  "sc_mulsub a b c = do {
     s \<leftarrow> sc_mulsub_limbs (sc_load_32 (bytes_of_word 32 a)) (sc_load_32 (bytes_of_word 32 b)) (sc_load_32 (bytes_of_word 32 c));
     sc_finish sc_mulsub_lines s }"

text \<open>The comparison of \<open>sc_check\<close>, over the eight 32-bit words of the scalar, and the zero test.\<close>

definition signum :: "int \<Rightarrow> int" where
  "signum a = drop_bit 63 a - drop_bit 63 (- a)"

definition sc_check :: "256 word \<Rightarrow> int" where
  "sc_check w =
     (let s = bytes_of_word 32 w;
          s0 = sint (load_4 s 0); s1 = sint (load_4 s 4); s2 = sint (load_4 s 8); s3 = sint (load_4 s 12);
          s4 = sint (load_4 s 16); s5 = sint (load_4 s 20); s6 = sint (load_4 s 24); s7 = sint (load_4 s 28)
      in drop_bit 8 (signum (1559614444 - s0) + push_bit 1 (signum (1477600026 - s1)) + push_bit 2 (signum (2734136534 - s2))
           + push_bit 3 (signum (350157278 - s3)) + push_bit 4 (signum (- s4)) + push_bit 5 (signum (- s5))
           + push_bit 6 (signum (- s6)) + push_bit 7 (signum (268435456 - s7))))"

definition sc_isnonzero :: "256 word \<Rightarrow> int" where
  "sc_isnonzero w = drop_bit 8 (uint (fold (OR) (bytes_of_word 32 w) 0) - 1) + 1"

definition sc_0 :: "256 word" where
  "sc_0 = word_of_bytes (replicate 32 0)"

subsection \<open>Digits of the loaded bytes\<close>

lemma bit_nat_of_le: "bit (nat_of_le bs) n \<longleftrightarrow> n div 8 < length bs \<and> bit (bs ! (n div 8)) (n mod 8)"
proof (induction bs arbitrary: n)
  case (Cons b bs)
  have "int (nat_of_le (b # bs)) = concat_bit 8 (uint b) (int (nat_of_le bs))"
    using uint_lt2p [of b] by (simp add: concat_bit_eq push_bit_eq_mult take_bit_int_eq_self)
  then have "bit (int (nat_of_le (b # bs))) n \<longleftrightarrow> n < 8 \<and> bit (uint b) n \<or> 8 \<le> n \<and> bit (int (nat_of_le bs)) (n - 8)" for n
    by (simp only: bit_concat_bit_iff)
  then have byte: "bit (nat_of_le (b # bs)) n \<longleftrightarrow> (if n < 8 then bit b n else bit (nat_of_le bs) (n - 8))" for n
    by (simp add: bit_of_nat_iff_bit bit_unsigned_iff del: nat_of_le.simps)
  show ?case
  proof (cases "n < 8")
    case False
    then have "n div 8 = Suc ((n - 8) div 8)" "n mod 8 = (n - 8) mod 8" by (simp_all add: le_div_geq le_mod_geq)
    then show ?thesis unfolding byte using False by (simp add: Cons.IH)
  qed (simp add: byte del: nat_of_le.simps)
qed simp

lemma not_bit_u8: "8 \<le> n \<Longrightarrow> \<not> bit (b :: u8) n"
  by (auto dest: bit_imp_le_length)

lemma bit_load_3:
  "bit (load_3 inp i) n \<longleftrightarrow> n < 24 \<and> bit (inp ! (i + n div 8)) (n mod 8)"
proof -
  have digits: "n mod 8 = n - 8 * (n div 8)" by (simp add: minus_mult_div_eq_mod)
  consider "n div 8 = 0" | "n div 8 = 1" | "n div 8 = 2" | "24 \<le> n" by linarith
  then show ?thesis
    by cases (auto simp: load_3_def bit_simps digits not_bit_u8)
qed

lemma bit_load_4:
  "bit (load_4 inp i) n \<longleftrightarrow> n < 32 \<and> bit (inp ! (i + n div 8)) (n mod 8)"
proof -
  have "load_4 inp i = load_3 inp i OR push_bit 24 (ucast (inp ! (i + 3)))"
    by (simp add: load_4_def load_3_def or.assoc)
  moreover have "n div 8 = 3" "n mod 8 = n - 24" if "24 \<le> n" "n < 32"
  proof -
    show "n div 8 = 3" using that by simp
    then show "n mod 8 = n - 24" by (simp add: minus_div_mult_eq_mod [symmetric])
  qed
  ultimately show ?thesis
    by (cases "n < 24"; cases "n < 32") (auto simp: bit_simps bit_load_3 not_bit_u8)
qed

lemma load_3_value:
  assumes "i + 3 \<le> length inp"
  shows "unat (load_3 inp i) = take_bit 24 (drop_bit (8 * i) (nat_of_le inp))"
proof (rule bit_eqI)
  fix n
  show "bit (unat (load_3 inp i)) n = bit (take_bit 24 (drop_bit (8 * i) (nat_of_le inp))) n"
    using assms by (auto simp: bit_simps bit_load_3 bit_nat_of_le)
qed

lemma load_4_value:
  assumes "i + 4 \<le> length inp"
  shows "unat (load_4 inp i) = take_bit 32 (drop_bit (8 * i) (nat_of_le inp))"
proof (rule bit_eqI)
  fix n
  show "bit (unat (load_4 inp i)) n = bit (take_bit 32 (drop_bit (8 * i) (nat_of_le inp))) n"
    using assms by (auto simp: bit_simps bit_load_4 bit_nat_of_le)
qed

definition limb :: "nat \<Rightarrow> nat \<Rightarrow> int" where
  "limb N i = int (take_bit 21 (drop_bit (21 * i) N))"

lemma take_drop_take:
  "r + 21 \<le> w \<Longrightarrow> b + r = c \<Longrightarrow> take_bit 21 (drop_bit r (take_bit w (drop_bit b N))) = take_bit 21 (drop_bit c (N :: nat))"
  by (rule bit_eqI) (auto simp: bit_simps ac_simps)

lemma sint_small: "unat (w :: u64) < 2 ^ 63 \<Longrightarrow> sint w = int (unat w)"
proof -
  assume "unat w < 2 ^ 63"
  then have "int (unat w) < int (2 ^ 63)" by (simp only: of_nat_less_iff)
  moreover have "- (2 ^ 63) \<le> uint w" by (rule order_trans [OF _ uint_ge_0]) simp
  ultimately show ?thesis by (simp add: sint_uint signed_take_bit_int_eq_self)
qed

lemma masked: "sint (2097151 AND w :: u64) = int (take_bit 21 (unat w))"
proof -
  have "2097151 AND w = take_bit 21 w"
    using take_bit_eq_mask [of 21 w] by (simp add: mask_eq_exp_minus_1 and.commute)
  moreover have "take_bit 21 (unat w) < 2 ^ 63" using take_bit_nat_less_exp [of 21 "unat w"] by simp
  ultimately show ?thesis by (simp add: sint_small unsigned_take_bit_eq)
qed

lemma masked_load_3:
  assumes "i + 3 \<le> length inp" "r + 21 \<le> 24" "21 dvd 8 * i + r"
  shows "sint (2097151 AND drop_bit r (load_3 inp i)) = limb (nat_of_le inp) ((8 * i + r) div 21)"
  using assms by (simp add: masked unat_drop_bit load_3_value take_drop_take limb_def flip: drop_bit_eq_div)

lemma masked_load_4:
  assumes "i + 4 \<le> length inp" "r + 21 \<le> 32" "21 dvd 8 * i + r"
  shows "sint (2097151 AND drop_bit r (load_4 inp i)) = limb (nat_of_le inp) ((8 * i + r) div 21)"
  using assms by (simp add: masked unat_drop_bit load_4_value take_drop_take limb_def flip: drop_bit_eq_div)

lemma last_load_4:
  assumes "i + 4 = length inp" "r \<le> 32"
  shows "sint (drop_bit r (load_4 inp i)) = int (drop_bit (8 * i + r) (nat_of_le inp))"
proof -
  have "(256 :: nat) ^ (i + 4) = 2 ^ (8 * i + 32)" by (simp add: power_add power_mult)
  then have bound: "nat_of_le inp < 2 ^ (8 * i + 32)" using nat_of_le_bound [of inp] assms(1) by simp
  then have "take_bit 32 (drop_bit (8 * i) (nat_of_le inp)) = drop_bit (8 * i) (nat_of_le inp)"
    by (simp add: take_bit_nat_eq_self_iff drop_bit_eq_div less_mult_imp_div_less power_add ac_simps)
  then have w: "unat (load_4 inp i) = drop_bit (8 * i) (nat_of_le inp)" using assms by (simp add: load_4_value)
  then have "unat (drop_bit r (load_4 inp i)) = drop_bit (8 * i + r) (nat_of_le inp)"
    using assms by (simp add: unat_drop_bit ac_simps flip: drop_bit_eq_div)
  moreover have "unat (load_4 inp i) < 2 ^ 63"
    using load_4_value [of i inp] assms(1) take_bit_nat_less_exp [of 32 "drop_bit (8 * i) (nat_of_le inp)"] by simp
  moreover have "unat (drop_bit r (load_4 inp i)) \<le> unat (load_4 inp i)" by (simp only: unat_drop_bit div_le_dividend)
  ultimately show ?thesis using sint_small [of "drop_bit r (load_4 inp i)"] by (simp only: le_less_trans)
qed

lemmas masked_loads = masked_load_3 [where r = 0, simplified] masked_load_3 masked_load_4

lemma upt_11: "[0..<11] = [0, 1, 2, 3, 4, 5, 6, 7, 8, 9, 10 :: nat]"
  by (simp add: upt_rec)

lemma sc_load_11_limbs:
  assumes "29 \<le> length s"
  shows "sc_load_11 s 0 = map (limb (nat_of_le s)) [0..<11]"
  using assms unfolding sc_load_11_def upt_11 
  by (simp add: masked_loads)

lemma sc_load_32_limbs:
  "length s = 32 \<Longrightarrow> sc_load_32 s = map (limb (nat_of_le s)) [0..<11] @ [int (drop_bit 231 (nat_of_le s))]"
  by (simp add: sc_load_32_def sc_load_11_limbs last_load_4)

lemma upt_24_32: "[0..<23] = [0, 1, 2, 3, 4, 5, 6, 7, 8, 9, 10 :: nat] @ [11, 12, 13, 14, 15, 16, 17, 18, 19, 20, 21, 22]"
  by (simp add: upt_rec)

lemma sc_load_64_limbs:
  "length s = 64 \<Longrightarrow> sc_load_64 s = map (limb (nat_of_le s)) [0..<23] @ [int (drop_bit 483 (nat_of_le s))]"
  unfolding upt_24_32 by (simp add: sc_load_64_def sc_load_11_limbs upt_11 masked_loads last_load_4)

definition val :: "nat \<Rightarrow> int list \<Rightarrow> int" where
  "val n s = (\<Sum>i<n. s ! i * 2 ^ (21 * i))"

lemma digit_sum:
  "(\<Sum>i<n. int (take_bit w (drop_bit (w * i) N)) * 2 ^ (w * i)) + int (drop_bit (w * n) N) * 2 ^ (w * n) = int N"
proof (induction n)
  case (Suc n)
  have "drop_bit (w * n) N = take_bit w (drop_bit (w * n) N) + 2 ^ w * drop_bit (w * Suc n) N"
    using bits_ident [of w "drop_bit (w * n) N"] by (simp add: push_bit_eq_mult ac_simps)
  then have "int (drop_bit (w * n) N) = int (take_bit w (drop_bit (w * n) N)) + 2 ^ w * int (drop_bit (w * Suc n) N)"
    by (metis of_nat_add of_nat_mult of_nat_numeral of_nat_power)
  then show ?case using Suc.IH by (simp add: algebra_simps power_add)
qed simp

lemma limb_sum: "(\<Sum>i<n. limb N i * 2 ^ (21 * i)) + int (drop_bit (21 * n) N) * 2 ^ (21 * n) = int N"
  using digit_sum [where w = 21] by (simp add: limb_def)

lemma val_limbs: "val (Suc n) (map (limb N) [0..<n] @ [int (drop_bit (21 * n) N)]) = int N"
  using limb_sum [of N n] by (simp add: val_def nth_append)

lemma val_load_32: "length s = 32 \<Longrightarrow> val 12 (sc_load_32 s) = int (nat_of_le s)"
  using val_limbs [of 11] by (simp add: sc_load_32_limbs)

lemma val_load_64: "length s = 64 \<Longrightarrow> val 24 (sc_load_64 s) = int (nat_of_le s)"
  using val_limbs [of 23] by (simp add: sc_load_64_limbs)

text \<open>The order of the base point.\<close>

definition ell :: int where "ell = 2 ^ 252 + 27742317777372353535851937790883648493"

subsection \<open>Ranges of the digits\<close>

text \<open>
  A range for every digit, and its image under each kind of line; \<open>None\<close> where a range leaves
  \<open>int64_t\<close>. A carry leaves its digit in a fixed range, whatever it was before.
\<close>

type_synonym range = "int \<times> int"

definition within :: "int list \<Rightarrow> range list \<Rightarrow> bool" where
  "within s B \<longleftrightarrow> list_all2 (\<lambda>x (lo, hi). lo \<le> x \<and> x \<le> hi) s B"

definition range64 :: "range \<Rightarrow> bool" where
  "range64 r \<longleftrightarrow> - (2 ^ 63) \<le> fst r \<and> snd r < 2 ^ 63"

definition carry_range :: "int \<Rightarrow> nat \<Rightarrow> range list \<Rightarrow> range list option" where
  "carry_range rnd i B =
     (if i + 1 < length B then
        let (lo, hi) = B ! i; (ulo, uhi) = B ! (i + 1);
            clo = (lo + rnd) div 2 ^ 21; chi = (hi + rnd) div 2 ^ 21
        in if range64 (lo + rnd, hi + rnd) \<and> range64 (ulo + clo, uhi + chi) \<and> range64 (2 ^ 21 * clo, 2 ^ 21 * chi)
           then Some (B[i + 1 := (ulo + clo, uhi + chi), i := (- rnd, 2 ^ 21 - 1 - rnd)]) else None
      else None)"

fun fold_range :: "nat \<Rightarrow> nat \<Rightarrow> int list \<Rightarrow> range list \<Rightarrow> range list option" where
  "fold_range k j [] B = Some B"
| "fold_range k j (c # cs) B =
     (if j < k \<and> k < length B then
        let (lo, hi) = B ! k; (vlo, vhi) = B ! j;
            plo = lo * \<bar>c\<bar>; phi = hi * \<bar>c\<bar>;
            r = (if 0 \<le> c then (vlo + plo, vhi + phi) else (vlo - phi, vhi - plo))
        in if range64 (plo, phi) \<and> range64 r then fold_range k (j + 1) cs (B[j := r]) else None
      else None)"

fun step_range :: "sc_line \<Rightarrow> range list \<Rightarrow> range list option" where
  "step_range (Round i) B = carry_range (2 ^ 20) i B"
| "step_range (Floor i) B = carry_range 0 i B"
| "step_range (Fold k) B = fold_range k (k - 12) sc_coefficients B"
| "step_range (Clear k) B = Some (B[k := (0, 0)])"

fun run_range :: "sc_line list \<Rightarrow> range list \<Rightarrow> range list option" where
  "run_range [] B = Some B"
| "run_range (i # is) B = do { B' \<leftarrow> step_range i B; run_range is B' }"

lemma int64_within: "range64 (lo, hi) \<Longrightarrow> lo \<le> x \<Longrightarrow> x \<le> hi \<Longrightarrow> int64 x = Some x"
  by (auto simp: int64_def range64_def)

lemma within_nth: "within s B \<Longrightarrow> i < length B \<Longrightarrow> B ! i = (lo, hi) \<Longrightarrow> lo \<le> s ! i \<and> s ! i \<le> hi"
  by (auto simp: within_def list_all2_conv_all_nth split: prod.splits)

lemma within_update: "within s B \<Longrightarrow> lo \<le> x \<Longrightarrow> x \<le> hi \<Longrightarrow> within (s[i := x]) (B[i := (lo, hi)])"
  by (auto simp: within_def intro!: list_all2_update_cong)

lemma within_length: "within s B \<Longrightarrow> length s = length B"
  by (auto simp: within_def dest: list_all2_lengthD)

lemma carry_range_sound:
  assumes "within s B" "carry_range rnd i B = Some B'" "0 \<le> rnd" "rnd \<le> 2 ^ 20"
  shows "\<exists>s'. sc_carry rnd i s = Some s' \<and> within s' B'"
proof -
  obtain lo hi where r: "B ! i = (lo, hi)" by fastforce
  obtain ulo uhi where u: "B ! (i + 1) = (ulo, uhi)" by fastforce
  let ?clo = "(lo + rnd) div 2 ^ 21" and ?chi = "(hi + rnd) div 2 ^ 21" and ?c = "(s ! i + rnd) div 2 ^ 21"
  from assms(2) r u have i: "i + 1 < length B" and r64: "range64 (lo + rnd, hi + rnd)" "range64 (ulo + ?clo, uhi + ?chi)"
      "range64 (2 ^ 21 * ?clo, 2 ^ 21 * ?chi)"
    and B': "B' = B[i + 1 := (ulo + ?clo, uhi + ?chi), i := (- rnd, 2 ^ 21 - 1 - rnd)]"
    by (auto simp: carry_range_def Let_def split: if_splits)
  have si: "lo \<le> s ! i" "s ! i \<le> hi" using within_nth [OF assms(1) _ r] i by auto
  have su: "ulo \<le> s ! (i + 1)" "s ! (i + 1) \<le> uhi" using within_nth [OF assms(1) _ u] i by auto
  have c: "?clo \<le> ?c" "?c \<le> ?chi" using si by (auto intro: zdiv_mono1)
  have t: "int64 (s ! i + rnd) = Some (s ! i + rnd)" using si by (intro int64_within [OF r64(1)]) auto
  have up: "int64 (s ! (i + 1) + ?c) = Some (s ! (i + 1) + ?c)" using su c by (intro int64_within [OF r64(2)]) auto
  have d: "int64 (2 ^ 21 * ?c) = Some (2 ^ 21 * ?c)" using c by (intro int64_within [OF r64(3)]) auto
  have low: "s ! i - 2 ^ 21 * ?c = (s ! i + rnd) mod 2 ^ 21 - rnd"
    by (simp add: minus_mult_div_eq_mod [symmetric] algebra_simps)
  have "0 \<le> (s ! i + rnd) mod 2 ^ 21" "(s ! i + rnd) mod 2 ^ 21 < 2 ^ 21" by simp_all
  then have lr: "- rnd \<le> s ! i - 2 ^ 21 * ?c" "s ! i - 2 ^ 21 * ?c \<le> 2 ^ 21 - 1 - rnd" unfolding low by simp_all
  have "int64 (s ! i - 2 ^ 21 * ?c) = Some (s ! i - 2 ^ 21 * ?c)"
    using lr assms(3, 4) by (intro int64_within [where lo = "- rnd" and hi = "2 ^ 21 - 1 - rnd"]) (auto simp: range64_def)
  then have "sc_carry rnd i s = Some (s[i + 1 := s ! (i + 1) + ?c, i := s ! i - 2 ^ 21 * ?c])"
    using t up d by (simp only: sc_carry_def drop_bit_eq_div push_bit_eq_mult mult.commute [of _ "2 ^ 21"] Let_def bind.bind_lunit)
  moreover have "within (s[i + 1 := s ! (i + 1) + ?c, i := s ! i - 2 ^ 21 * ?c]) B'"
    unfolding B' using su c by (intro within_update assms(1) lr) linarith+
  ultimately show ?thesis by blast
qed

lemma fold_range_sound:
  "within s B \<Longrightarrow> fold_range k j cs B = Some B' \<Longrightarrow> \<exists>s'. sc_fold k j cs s = Some s' \<and> within s' B'"
proof (induction cs arbitrary: j s B)
  case (Cons c cs)
  obtain lo hi where r: "B ! k = (lo, hi)" by fastforce
  obtain vlo vhi where v: "B ! j = (vlo, vhi)" by fastforce
  let ?p = "s ! k * \<bar>c\<bar>" and ?v = "if 0 \<le> c then s ! j + s ! k * \<bar>c\<bar> else s ! j - s ! k * \<bar>c\<bar>"
  let ?r = "if 0 \<le> c then (vlo + lo * \<bar>c\<bar>, vhi + hi * \<bar>c\<bar>) else (vlo - hi * \<bar>c\<bar>, vhi - lo * \<bar>c\<bar>)"
  from Cons.prems(2) r v have b: "j < k" "k < length B" "range64 (lo * \<bar>c\<bar>, hi * \<bar>c\<bar>)" "range64 ?r"
    and rest: "fold_range k (j + 1) cs (B[j := ?r]) = Some B'"
    by (auto simp: Let_def split: if_splits)
  have sk: "lo \<le> s ! k" "s ! k \<le> hi" using within_nth [OF Cons.prems(1) _ r] b by auto
  have sv: "vlo \<le> s ! j" "s ! j \<le> vhi" using within_nth [OF Cons.prems(1) _ v] b by auto
  have p: "lo * \<bar>c\<bar> \<le> ?p" "?p \<le> hi * \<bar>c\<bar>" using sk by (auto intro: mult_right_mono)
  have ip: "int64 ?p = Some ?p" using p by (intro int64_within [OF b(3)])
  have vr: "fst ?r \<le> ?v" "?v \<le> snd ?r"
    using p sv by (cases "0 \<le> c"; simp only: if_True if_False fst_conv snd_conv add_mono diff_mono)+
  have iv: "int64 ?v = Some ?v" using vr b(4) by (intro int64_within [of "fst ?r" "snd ?r"]) auto
  have "within (s[j := ?v]) (B[j := ?r])" using within_update [OF Cons.prems(1) vr, of j] by simp
  then obtain s' where "sc_fold k (j + 1) cs (s[j := ?v]) = Some s'" "within s' B'"
    using Cons.IH [OF _ rest] by blast
  then show ?case using ip iv by (auto simp: Let_def)
qed simp

lemma step_range_sound: "within s B \<Longrightarrow> step_range i B = Some B' \<Longrightarrow> \<exists>s'. sc_step i s = Some s' \<and> within s' B'"
  by (cases i) (auto intro: carry_range_sound fold_range_sound within_update)

lemma run_range_sound: "within s B \<Longrightarrow> run_range is B = Some B' \<Longrightarrow> \<exists>s'. sc_run is s = Some s' \<and> within s' B'"
proof (induction "is" arbitrary: s B)
  case (Cons i "is")
  then obtain B1 where "step_range i B = Some B1" "run_range is B1 = Some B'" by (auto split: Option.bind_splits)
  moreover from this(1) obtain s1 where "sc_step i s = Some s1" "within s1 B1"
    using step_range_sound Cons.prems(1) by blast
  ultimately show ?case using Cons.IH [of s1 B1] by auto
qed auto

subsection \<open>Values modulo the group order\<close>

lemma val_Suc: "val (Suc n) s = val n s + s ! n * 2 ^ (21 * n)"
  by (simp add: val_def)

lemma val_update: "i < n \<Longrightarrow> i < length s \<Longrightarrow> val n (s[i := x]) = val n s + (x - s ! i) * 2 ^ (21 * i)"
proof (induction n)
  case (Suc n)
  show ?case
  proof (cases "i = n")
    case True
    have "val n (s[n := x]) = val n s" unfolding val_def by (intro sum.cong) auto
    then show ?thesis using True Suc.prems by (simp add: val_Suc algebra_simps)
  next
    case False
    then show ?thesis using Suc by (simp add: val_Suc)
  qed
qed simp

lemma val_update_beyond [simp]: "n \<le> i \<Longrightarrow> val n (s[i := x]) = val n s"
  unfolding val_def by (intro sum.cong) auto

lemma int64_Some: "int64 x = Some y \<longleftrightarrow> - (2 ^ 63) \<le> x \<and> x < 2 ^ 63 \<and> y = x"
  by (auto simp: int64_def)

lemma sc_carry_eq:
  "sc_carry rnd i s = Some s' \<Longrightarrow>
   s' = s[i + 1 := s ! (i + 1) + (s ! i + rnd) div 2 ^ 21, i := s ! i - (s ! i + rnd) div 2 ^ 21 * 2 ^ 21]"
  by (auto simp: int64_Some sc_carry_def bind_eq_Some_conv drop_bit_eq_div push_bit_eq_mult Let_def)

lemma val_carry:
  assumes "sc_carry rnd i s = Some s'" "i + 1 < n" "n \<le> length s"
  shows "val n s' = val n s"
proof -
  let ?c = "(s ! i + rnd) div 2 ^ 21"
  have "val n s' = val n s + ?c * 2 ^ (21 * (i + 1)) + (- (?c * 2 ^ 21)) * 2 ^ (21 * i)"
    unfolding sc_carry_eq [OF assms(1)] using assms(2, 3) by (simp only: val_update length_list_update nth_list_update_neq) (simp add: algebra_simps)
  also have "21 * (i + 1) = 21 + 21 * i" by simp
  also have "(2 :: int) ^ (21 + 21 * i) = 2 ^ 21 * 2 ^ (21 * i)" by (rule power_add)
  finally show ?thesis by (simp add: algebra_simps)
qed

lemma length_sc_carry: "sc_carry rnd i s = Some s' \<Longrightarrow> length s' = length s"
  by (auto dest: sc_carry_eq)

lemma sc_fold_value:
  assumes "sc_fold k j cs s = Some s'" "j + length cs \<le> k" "k < length s"
  shows "length s' = length s \<and> s' ! k = s ! k
    \<and> val k s' = val k s + s ! k * (\<Sum>i<length cs. cs ! i * 2 ^ (21 * (j + i)))"
  using assms
proof (induction cs arbitrary: j s)
  case (Cons c cs)
  let ?v = "s ! j + s ! k * c"
  have run: "sc_fold k (j + 1) cs (s[j := ?v]) = Some s'"
    using Cons.prems(1) by (auto simp: int64_Some bind_eq_Some_conv split: if_splits)
  have "length s' = length (s[j := ?v]) \<and> s' ! k = s[j := ?v] ! k
    \<and> val k s' = val k (s[j := ?v]) + s[j := ?v] ! k * (\<Sum>i<length cs. cs ! i * 2 ^ (21 * (j + 1 + i)))"
    using Cons.prems(2, 3) by (intro Cons.IH [OF run]) auto
  moreover have "(\<Sum>i<length (c # cs). (c # cs) ! i * 2 ^ (21 * (j + i))) = c * 2 ^ (21 * j) + (\<Sum>i<length cs. cs ! i * 2 ^ (21 * (j + 1 + i)))"
    unfolding length_Cons sum.lessThan_Suc_shift by simp
  ultimately show ?case using Cons.prems(2, 3) by (simp add: val_update algebra_simps)
qed simp

lemma coefficients_value: "(\<Sum>i<length sc_coefficients. sc_coefficients ! i * 2 ^ (21 * (j + i))) = 2 ^ (21 * j) * (2 ^ 252 - ell)"
proof -
  have "(\<Sum>i<length sc_coefficients. sc_coefficients ! i * 2 ^ (21 * (j + i))) = 2 ^ (21 * j) * (\<Sum>i<length sc_coefficients. sc_coefficients ! i * 2 ^ (21 * i))"
    by (simp add: sum_distrib_left power_add distrib_left ac_simps)
  also have "(\<Sum>i<length sc_coefficients. sc_coefficients ! i * 2 ^ (21 * i)) = 2 ^ 252 - ell"
    by (simp add: sc_coefficients_def ell_def eval_nat_numeral)
  finally show ?thesis .
qed

lemma val_fold:
  assumes "sc_step (Fold k) s = Some s'" "12 \<le> k" "k < length s"
  shows "length s' = length s \<and> val k s' = val (Suc k) s - s ! k * 2 ^ (21 * (k - 12)) * ell"
proof -
  have *: "length s' = length s \<and> val k s' = val k s + s ! k * (2 ^ (21 * (k - 12)) * (2 ^ 252 - ell))"
    using sc_fold_value [of k "k - 12" sc_coefficients s s'] assms
    unfolding coefficients_value by (simp add: sc_coefficients_def)
  have "(2 :: int) ^ (21 * k) = 2 ^ (21 * (k - 12)) * 2 ^ 252"
    using assms(2) by (simp only: power_add [symmetric]) (simp add: algebra_simps)
  then show ?thesis using * by (simp add: val_Suc algebra_simps)
qed

lemma mod_minus_mult: "(a - k * m) mod m = a mod (m :: int)"
  using mod_mult_self1 [of "a - k * m" k m] by simp

text \<open>How many of the digits still carry the value, before and after a line.\<close>

fun live :: "nat \<Rightarrow> sc_line list \<Rightarrow> nat \<Rightarrow> nat option" where
  "live m [] n = Some n"
| "live m (Round i # is) n = (if i + 1 < n then live m is n else None)"
| "live m (Floor i # is) n = (if i + 1 < n then live m is n else None)"
| "live m (Fold k # is) n = (if n = Suc k \<and> 12 \<le> k then live m is k else None)"
| "live m (Clear k # is) n = (if n = k \<and> k < m then live m is (Suc k) else None)"

lemma sc_run_value:
  "sc_run is s = Some s' \<Longrightarrow> live m is n = Some n' \<Longrightarrow> n \<le> m \<Longrightarrow> length s = m \<Longrightarrow>
   length s' = m \<and> val n' s' mod ell = val n s mod ell"
proof (induction m "is" n arbitrary: s rule: live.induct)
  case (2 m i "is" n)
  then obtain s1 where s1: "sc_carry (2 ^ 20) i s = Some s1" "sc_run is s1 = Some s'" by (auto simp: bind_eq_Some_conv)
  with 2 show ?case using val_carry [OF s1(1)] length_sc_carry [OF s1(1)] by (auto split: if_splits)
next
  case (3 m i "is" n)
  then obtain s1 where s1: "sc_carry 0 i s = Some s1" "sc_run is s1 = Some s'" by (auto simp: bind_eq_Some_conv)
  with 3 show ?case using val_carry [OF s1(1)] length_sc_carry [OF s1(1)] by (auto split: if_splits)
next
  case (4 m k "is" n)
  then obtain s1 where s1: "sc_step (Fold k) s = Some s1" "sc_run is s1 = Some s'" by (auto simp: bind_eq_Some_conv)
  have n: "n = Suc k" "12 \<le> k" "live m is k = Some n'" using 4(3) by (auto split: if_splits)
  have "length s1 = length s \<and> val k s1 = val (Suc k) s - s ! k * 2 ^ (21 * (k - 12)) * ell"
    using val_fold [OF s1(1) n(2)] 4(4, 5) n by auto
  then have "val k s1 mod ell = val (Suc k) s mod ell" "length s1 = m" using 4(5) by (simp_all add: mod_minus_mult)
  then show ?case using 4(1) [OF _ s1(2) n(3)] n 4(4) by auto
next
  case (5 m k "is" n)
  then have n: "n = k" "k < m" "live m is (Suc k) = Some n'" by (auto split: if_splits)
  have "val (Suc k) (s[k := 0]) = val k s" using n 5(5) by (simp add: val_Suc)
  moreover have "length s' = m \<and> val n' s' mod ell = val (Suc k) (s[k := 0]) mod ell"
    using 5 n by (intro 5(1)) auto
  ultimately show ?case using n(1) by simp
qed auto

lemma val_bounds:
  assumes "\<forall>i<n. 0 \<le> s ! i \<and> s ! i < 2 ^ 21"
  shows "0 \<le> val n s \<and> val n s < 2 ^ (21 * n)"
  using assms
proof (induction n)
  case (Suc n)
  define X where "X = (2 :: int) ^ (21 * n)"
  from Suc have IH: "0 \<le> val n s" "val n s < X" and sn: "0 \<le> s ! n" "s ! n \<le> 2097151" by (auto simp: X_def)
  have X: "(2 :: int) ^ (21 * Suc n) = 2097152 * X" "0 < X" by (simp_all add: X_def power_add)
  have "s ! n * X \<le> 2097151 * X" "0 \<le> s ! n * X" using sn X(2) by (simp_all add: mult_right_mono)
  then show ?case using IH unfolding val_Suc X X_def [symmetric] by linarith
qed (simp add: val_def)

lemma sc_run_floors:
  "sc_run (map Floor ks) s = Some s' \<Longrightarrow> \<forall>k\<in>set ks. k + 1 < n \<Longrightarrow> n \<le> length s \<Longrightarrow>
   val n s' = val n s \<and> length s' = length s"
proof (induction ks arbitrary: s)
  case (Cons k ks)
  then obtain s1 where s1: "sc_carry 0 k s = Some s1" "sc_run (map Floor ks) s1 = Some s'" by (auto simp: bind_eq_Some_conv)
  then show ?case using Cons val_carry [OF s1(1)] length_sc_carry [OF s1(1)] by auto
qed auto

lemma ell_bounds: "2 ^ 252 < ell" "ell < 2 ^ 253" "ell < (2 ^ 21 + 1) * 2 ^ 231"
  by (simp_all add: ell_def)

lemma sc_final:
  assumes run: "sc_run (map Floor [0, 1, 2, 3, 4, 5, 6, 7, 8, 9, 10, 11]) s = Some s2"
      "sc_step (Fold 12) s2 = Some s3" "sc_run (map Floor [0, 1, 2, 3, 4, 5, 6, 7, 8, 9, 10]) s3 = Some s4"
    and len: "13 \<le> length s" and s: "s ! 12 = 0" "- (2 ^ 252) \<le> val 12 s" "val 12 s < 2 ^ 252"
    and l2: "\<forall>i<12. 0 \<le> s2 ! i \<and> s2 ! i < 2 ^ 21" and l4: "\<forall>i<11. 0 \<le> s4 ! i \<and> s4 ! i < 2 ^ 21"
  shows "val 12 s4 = val 12 s mod ell \<and> 0 \<le> s4 ! 11 \<and> s4 ! 11 \<le> 2 ^ 21"
proof -
  have v2: "val 13 s2 = val 12 s" "length s2 = length s"
    using sc_run_floors [OF run(1), of 13] len s(1) val_Suc [of 12 s] by simp_all
  have v3: "val 12 s3 = val 12 s - s2 ! 12 * ell" "length s3 = length s"
    using val_fold [OF run(2)] len v2 by simp_all
  have v4: "val 12 s4 = val 12 s3" using sc_run_floors [OF run(3), of 12] len v3(2) by simp
  have low: "0 \<le> val 12 s2" "val 12 s2 < 2 ^ 252" using val_bounds [OF l2] by simp_all
  have q: "val 12 s = val 12 s2 + s2 ! 12 * 2 ^ 252" using v2(1) val_Suc [of 12 s2] by simp
  have "s2 ! 12 = 0 \<or> s2 ! 12 = - 1"
  proof -
    have "s2 ! 12 * 2 ^ 252 < 1 * 2 ^ 252" using q low s(3) by linarith
    moreover have "(- 2) * 2 ^ 252 < s2 ! 12 * 2 ^ 252" using q low s(2) by linarith
    ultimately have "s2 ! 12 < 1" "- 2 < s2 ! 12" by (simp_all only: mult_less_cancel_right_pos zero_less_power zero_less_numeral)
    then show ?thesis by linarith
  qed
  then have range: "0 \<le> val 12 s4" "val 12 s4 < ell"
    using q low s(2, 3) ell_bounds unfolding v4 v3 by auto
  have "val 12 s mod ell = val 12 s4 mod ell" unfolding v4 v3 by (simp add: mod_minus_mult)
  then have m: "val 12 s4 = val 12 s mod ell" using range by simp
  have "0 \<le> val 11 s4" "val 11 s4 < 2 ^ 231" using val_bounds [OF l4] by simp_all
  moreover have top: "val 12 s4 = val 11 s4 + s4 ! 11 * 2 ^ 231" using val_Suc [of 11 s4] by simp
  ultimately have "- 1 * 2 ^ 231 < s4 ! 11 * 2 ^ 231" "s4 ! 11 * 2 ^ 231 < (2 ^ 21 + 1) * 2 ^ 231"
    using range ell_bounds(3) by linarith+
  then have "- 1 < s4 ! 11" "s4 ! 11 < 2 ^ 21 + 1" by (simp_all only: mult_less_cancel_right_pos zero_less_power zero_less_numeral)
  then show ?thesis using m by simp
qed

subsection \<open>Packing\<close>

lemma int_bit_beyond: "0 \<le> x \<Longrightarrow> x < 2 ^ k \<Longrightarrow> k \<le> n \<Longrightarrow> \<not> bit (x :: int) n"
  by (metis bit_take_bit_iff not_less take_bit_int_eq_self)

lemma bit_val:
  "\<forall>i<n. 0 \<le> s ! i \<and> s ! i < 2 ^ 21 \<Longrightarrow>
   bit (val (Suc n) s) k \<longleftrightarrow> (if k < 21 * n then bit (s ! (k div 21)) (k mod 21) else bit (s ! n) (k - 21 * n))"
proof (induction n)
  case (Suc n)
  have "take_bit (21 * Suc n) (val (Suc n) s) = val (Suc n) s" using val_bounds [OF Suc.prems] by (simp add: take_bit_int_eq_self)
  then have "val (Suc (Suc n)) s = concat_bit (21 * Suc n) (val (Suc n) s) (s ! Suc n)"
    unfolding val_Suc [of "Suc n"] concat_bit_eq push_bit_eq_mult by simp
  then have "bit (val (Suc (Suc n)) s) k
    \<longleftrightarrow> (if k < 21 * Suc n then bit (val (Suc n) s) k else bit (s ! Suc n) (k - 21 * Suc n))"
    by (auto simp: bit_concat_bit_iff)
  moreover have "k div 21 = n \<and> k mod 21 = k - 21 * n" if "k < 21 * Suc n" "\<not> k < 21 * n"
  proof -
    have "k div 21 = n" using that by (intro div_nat_eqI) auto
    then show ?thesis by (metis minus_mult_div_eq_mod)
  qed
  ultimately show ?case using Suc.IH Suc.prems by auto
qed (simp add: val_def)

lemma byte_of_int_eqI: "(\<And>k. k < 8 \<Longrightarrow> bit x k = bit y k) \<Longrightarrow> word_of_int x = (word_of_int y :: u8)"
  by (rule bit_word_eqI) (simp add: bit_word_of_int_iff)

lemma byte_of_val:
  assumes "\<forall>i<11. 0 \<le> s ! i \<and> s ! i < 2 ^ 21" "n div 21 \<le> 11"
  shows "(word_of_int (drop_bit n (val 12 s)) :: u8) =
    word_of_int (if n div 21 = 11 \<or> n mod 21 + 8 \<le> 21 then drop_bit (n mod 21) (s ! (n div 21))
      else drop_bit (n mod 21) (s ! (n div 21)) OR push_bit (21 - n mod 21) (s ! (n div 21 + 1)))"
proof (rule byte_of_int_eqI)
  fix k :: nat assume k: "k < 8"
  define q r where "q = n div 21" and "r = n mod 21"
  then have n: "n = 21 * q + r" "r < 21" "q \<le> 11" using assms(2) by simp_all
  have b: "bit (val 12 s) m \<longleftrightarrow> (if m < 231 then bit (s ! (m div 21)) (m mod 21) else bit (s ! 11) (m - 231))" for m
    using bit_val [of 11 s m] assms by simp
  have beyond: "\<not> bit (s ! q) m" if "q \<noteq> 11" "21 \<le> m" for m using assms(1) n(3) that int_bit_beyond by (metis le_neq_implies_less)
  have "bit (val 12 s) (n + k) \<longleftrightarrow> (if q = 11 \<or> r + k < 21 then bit (s ! q) (r + k) else bit (s ! (q + 1)) (r + k - 21))"
  proof (cases "q = 11 \<or> r + k < 21")
    case True
    have "(n + k) div 21 = q \<and> (n + k) mod 21 = r + k" if "r + k < 21"
      using that unfolding n(1) by (simp add: add.assoc)
    moreover have "q = 11 \<or> n + k < 231" using True n by linarith
    moreover have "n + k - 231 = r + k" "\<not> n + k < 231" if "q = 11" using that n by simp_all
    ultimately show ?thesis unfolding b using True by auto
  next
    case False
    then have "n + k = 21 * (q + 1) + (r + k - 21)" "r + k - 21 < 21" "q < 11" using n k by auto
    then obtain m where m: "n + k = 21 * (q + 1) + m" "m < 21" "r + k - 21 = m" "q < 11" by blast
    have "(n + k) div 21 = q + 1" using m(2) unfolding m(1) by (intro div_nat_eqI) simp_all
    moreover have "(n + k) mod 21 = m" using m(2) unfolding m(1) mod_mult_self4 by (rule mod_less)
    moreover have "n + k < 231 \<or> q = 10 \<and> n + k - 231 = m"
    proof (cases "q = 10")
      case False
      then have "q \<le> 9" using m(4) by simp
      then have "21 * (q + 1) + m < 231" using m(2) by simp
      then have "n + k < 231" by (simp only: m(1))
      then show ?thesis ..
    qed (simp add: m(1))
    ultimately show ?thesis unfolding b m(3) using False m(1) by (elim disjE conjE) simp_all
  qed
  then show "bit (drop_bit n (val 12 s)) k = bit (if n div 21 = 11 \<or> n mod 21 + 8 \<le> 21 then drop_bit (n mod 21) (s ! (n div 21))
      else drop_bit (n mod 21) (s ! (n div 21)) OR push_bit (21 - n mod 21) (s ! (n div 21 + 1))) k"
    unfolding q_def [symmetric] r_def [symmetric] using k n beyond by (auto simp: bit_simps add.commute [of k r])
qed

lemma sc_pack_bytes:
  assumes "\<forall>i<11. 0 \<le> s ! i \<and> s ! i < 2 ^ 21"
  shows "sc_pack s = map (\<lambda>i. word_of_int (drop_bit (8 * i) (val 12 s))) [0..<32]"
  unfolding sc_pack_def by (simp add: upt_rec byte_of_val [OF assms] byte_of_val [OF assms, of 0, simplified] flip: numeral_2_eq_2)

lemma sc_pack_word:
  assumes "\<forall>i<11. 0 \<le> s ! i \<and> s ! i < 2 ^ 21"
  shows "word_of_bytes (sc_pack s) = (word_of_int (val 12 s) :: 256 word)"
proof -
  have "bytes_of_word 32 (word_of_int (val 12 s) :: 256 word) = sc_pack s"
    unfolding sc_pack_bytes [OF assms] bytes_of_word_conv
    by (auto intro!: bit_word_eqI simp: bit_simps)
  then have "word_of_bytes (sc_pack s) = (word_of_bytes (bytes_of_word 32 (word_of_int (val 12 s) :: 256 word)) :: 256 word)" by simp
  also have "\<dots> = word_of_int (val 12 s)" by (rule word_of_bytes_inverse) simp
  finally show ?thesis .
qed

subsection \<open>Reduction to the residue\<close>

lemma sc_run_append: "sc_run (is @ js) s = Option.bind (sc_run is s) (sc_run js)"
proof (induction "is" arbitrary: s)
  case (Cons i "is")
  then show ?case by (cases "sc_step i s") auto
qed simp

lemma val_abs: "\<forall>i<n. \<bar>s ! i\<bar> \<le> 2 ^ 28 \<Longrightarrow> \<bar>val n s\<bar> \<le> 2 ^ (21 * n + 8)"
proof (induction n)
  case (Suc n)
  define X where "X = (2 :: int) ^ (21 * n)"
  have "\<bar>s ! n * X\<bar> \<le> 268435456 * X" using Suc.prems by (simp add: abs_mult X_def)
  moreover have "\<bar>val n s\<bar> \<le> 256 * X" using Suc by (simp add: X_def power_add)
  moreover have "(2 :: int) ^ (21 * Suc n + 8) = 536870912 * X" "0 < X" by (simp_all add: X_def power_add)
  ultimately show ?case unfolding val_Suc X_def [symmetric] by linarith
qed (simp add: val_def)

definition digits_ok :: "nat \<Rightarrow> range list \<Rightarrow> bool" where
  "digits_ok n B \<longleftrightarrow> n \<le> length B \<and> list_all (\<lambda>(lo, hi). 0 \<le> lo \<and> hi < 2 ^ 21) (take n B)"

definition lines_ok :: "sc_line list \<Rightarrow> range list \<Rightarrow> bool" where
  "lines_ok ls B = (case run_range ls B of
     None \<Rightarrow> False
   | Some B1 \<Rightarrow>
       12 < length B1 \<and> B1 ! 12 = (0, 0)
       \<and> list_all (\<lambda>(lo, hi). - (2 ^ 28) \<le> lo \<and> hi \<le> 2 ^ 28) (take 12 B1)
       \<and> - (2 ^ 20) \<le> fst (B1 ! 11) \<and> snd (B1 ! 11) \<le> 2 ^ 20
       \<and> (case run_range (map Floor [0, 1, 2, 3, 4, 5, 6, 7, 8, 9, 10, 11]) B1 of
            None \<Rightarrow> False
          | Some B2 \<Rightarrow> digits_ok 12 B2
              \<and> (case run_range (Fold 12 # map Floor [0, 1, 2, 3, 4, 5, 6, 7, 8, 9, 10]) B2 of
                   None \<Rightarrow> False
                 | Some B3 \<Rightarrow> digits_ok 11 B3)))"

lemma nth_in_take: "i < n \<Longrightarrow> i < length B \<Longrightarrow> B ! i \<in> set (take n B)"
  by (metis length_take min_less_iff_conj nth_mem nth_take)

lemma digits_okD:
  assumes "digits_ok n B" "within s B"
  shows "\<forall>i<n. 0 \<le> s ! i \<and> s ! i < 2 ^ 21"
proof (intro allI impI)
  fix i assume i: "i < n"
  obtain lo hi where r: "B ! i = (lo, hi)" by fastforce
  have l: "i < length B" using i assms(1) by (simp add: digits_ok_def)
  then have "(lo, hi) \<in> set (take n B)" using nth_in_take [OF i] r by metis
  then have "0 \<le> lo \<and> hi < 2 ^ 21" using assms(1) by (force simp: digits_ok_def list_all_iff)
  then show "0 \<le> s ! i \<and> s ! i < 2 ^ 21" using within_nth [OF assms(2) l r] by simp
qed

lemma sc_finish_value:
  assumes ok: "lines_ok ls B" and s: "within s B" "live (length s) ls n = Some 13" "n \<le> length s"
  shows "sc_finish ls s = Some (word_of_int (val n s mod ell))"
proof -
  obtain B1 B2 B3 where B: "run_range ls B = Some B1"
      "run_range (map Floor [0, 1, 2, 3, 4, 5, 6, 7, 8, 9, 10, 11]) B1 = Some B2" "digits_ok 12 B2"
      "run_range (Fold 12 # map Floor [0, 1, 2, 3, 4, 5, 6, 7, 8, 9, 10]) B2 = Some B3" "digits_ok 11 B3"
    and B1: "12 < length B1" "B1 ! 12 = (0, 0)" "list_all (\<lambda>(lo, hi). - (2 ^ 28) \<le> lo \<and> hi \<le> 2 ^ 28) (take 12 B1)"
      "- (2 ^ 20) \<le> fst (B1 ! 11)" "snd (B1 ! 11) \<le> 2 ^ 20"
    using ok unfolding lines_ok_def by (auto split: option.splits simp del: run_range.simps list.map)
  obtain s1 where s1: "sc_run ls s = Some s1" "within s1 B1" using run_range_sound [OF s(1) B(1)] by blast
  obtain s2 where s2: "sc_run (map Floor [0, 1, 2, 3, 4, 5, 6, 7, 8, 9, 10, 11]) s1 = Some s2" "within s2 B2"
    using run_range_sound [OF s1(2) B(2)] by blast
  obtain s4 where s4: "sc_run (Fold 12 # map Floor [0, 1, 2, 3, 4, 5, 6, 7, 8, 9, 10]) s2 = Some s4" "within s4 B3"
    using run_range_sound [OF s2(2) B(4)] by blast
  then obtain s3 where s3: "sc_step (Fold 12) s2 = Some s3" "sc_run (map Floor [0, 1, 2, 3, 4, 5, 6, 7, 8, 9, 10]) s3 = Some s4"
    by (auto simp: bind_eq_Some_conv simp del: list.map)
  have v1: "length s1 = length s" "val 13 s1 mod ell = val n s mod ell"
    using sc_run_value [OF s1(1) s(2, 3) refl] by auto
  have s12: "s1 ! 12 = 0" using within_nth [OF s1(2) B1(1, 2)] by simp
  have "\<forall>i<11. \<bar>s1 ! i\<bar> \<le> 2 ^ 28"
  proof (intro allI impI)
    fix i :: nat assume i: "i < 11"
    obtain lo hi where r: "B1 ! i = (lo, hi)" by fastforce
    have "(lo, hi) \<in> set (take 12 B1)" using nth_in_take [of i 12 B1] i B1(1) r by simp
    then have "- (2 ^ 28) \<le> lo \<and> hi \<le> 2 ^ 28" using B1(3) by (force simp: list_all_iff)
    then show "\<bar>s1 ! i\<bar> \<le> 2 ^ 28" using within_nth [OF s1(2) _ r] i B1(1) by (simp add: abs_le_iff)
  qed
  then have "\<bar>val 11 s1\<bar> \<le> 2 ^ 239" using val_abs [of 11 s1] by simp
  moreover have "- (2 ^ 20) * 2 ^ 231 \<le> s1 ! 11 * 2 ^ 231 \<and> s1 ! 11 * 2 ^ 231 \<le> 2 ^ 20 * 2 ^ 231"
    using within_nth [OF s1(2), of 11 "fst (B1 ! 11)" "snd (B1 ! 11)"] B1(1, 4, 5)
    by (intro conjI mult_right_mono) auto
  ultimately have "- (2 ^ 252) \<le> val 12 s1 \<and> val 12 s1 < 2 ^ 252" using val_Suc [of 11 s1] by auto
  then have "val 12 s4 = val 12 s1 mod ell \<and> 0 \<le> s4 ! 11 \<and> s4 ! 11 \<le> 2 ^ 21"
    using within_length [OF s1(2)] B1(1) s12 digits_okD [OF B(3) s2(2)] digits_okD [OF B(5) s4(2)]
    by (intro sc_final [OF s2(1) s3]) auto
  then have "val 12 s4 = val n s mod ell" using v1(2) s12 val_Suc [of 12 s1] by simp
  moreover have "sc_run (ls @ sc_lines_final) s = Some s4"
    using s1(1) s2(1) s3 by (simp add: sc_run_append sc_lines_final_def del: list.map sc_step.simps)
  ultimately show ?thesis using sc_pack_word [OF digits_okD [OF B(5) s4(2)]] by (simp add: sc_finish_def)
qed

text \<open>The ranges of the digits that the routines start from.\<close>

definition load_ranges :: "range list" where
  "load_ranges = replicate 11 (- (2 ^ 22), 2 ^ 22) @ [(- (2 ^ 26), 2 ^ 26), (0, 0)]"

definition load_ranges_64 :: "range list" where
  "load_ranges_64 = replicate 23 (0, 2 ^ 21 - 1) @ [(0, 2 ^ 29 - 1)]"

definition limb_max :: "int list" where
  "limb_max = replicate 11 (2 ^ 21 - 1) @ [2 ^ 25 - 1]"

definition mulsub_ranges :: "range list" where
  "mulsub_ranges = map (\<lambda>n. if n = 23 then (0, 0)
     else (- (\<Sum>i\<leftarrow>[n - 11..<Suc (min n 11)]. limb_max ! i * limb_max ! (n - i)), if n < 12 then limb_max ! n else 0)) [0..<24]"

lemma low_ok: "lines_ok sc_lines_low load_ranges"
  by code_simp

lemma high_ok: "lines_ok (sc_lines_high @ sc_lines_low) load_ranges_64"
  by code_simp

lemma mulsub_ok: "lines_ok sc_mulsub_lines mulsub_ranges"
  by code_simp

lemma low_live: "live 13 sc_lines_low 13 = Some 13"
  by (simp add: sc_lines_low_def)

lemma high_live: "live 24 (sc_lines_high @ sc_lines_low) 24 = Some 13"
  by (simp add: sc_lines_low_def sc_lines_high_def)

lemma mulsub_live: "live 24 sc_mulsub_lines 24 = Some 13"
  by (simp add: sc_lines_low_def sc_lines_high_def sc_mulsub_lines_def)

subsection \<open>The routines compute residues\<close>

lemma limb_range: "0 \<le> limb N i \<and> limb N i \<le> 2 ^ 21 - 1"
  using take_bit_nat_less_exp [of 21 "drop_bit (21 * i) N"] by (simp add: limb_def)

lemma nat_of_bytes [simp]: "nat_of_le (bytes_of_word 32 (w :: 256 word)) = unat w" "nat_of_le (bytes_of_word 64 (v :: 512 word)) = unat v"
  using unsigned_less [where 'a = nat and w = w] unsigned_less [where 'a = nat and w = v] by (simp_all add: bytes_of_word_def nat_of_le_of_nat)

abbreviation limbs :: "256 word \<Rightarrow> int list" where
  "limbs w \<equiv> sc_load_32 (bytes_of_word 32 w)"

lemma limbs_conv: "limbs w = map (limb (unat w)) [0..<11] @ [int (unat w div 2 ^ 231)]"
  by (simp add: sc_load_32_limbs drop_bit_eq_div)

lemma length_limbs [simp]: "length (limbs w) = 12"
  by (simp add: limbs_conv)

lemma int_less_exp: "x < 2 ^ k \<Longrightarrow> int x \<le> 2 ^ k - 1"
  by (metis of_nat_less_iff of_nat_numeral of_nat_power zle_diff1_eq)

lemma top_limb: "int (unat (w :: 256 word) div 2 ^ 231) \<le> 2 ^ 25 - 1"
proof -
  have "unat w < 2 ^ 25 * 2 ^ 231" using unsigned_less [where 'a = nat and w = w] by simp
  then have "unat w div 2 ^ 231 < 2 ^ 25" by (rule less_mult_imp_div_less)
  then show ?thesis by (rule int_less_exp)
qed

lemma limbs_max: "i < 12 \<Longrightarrow> 0 \<le> limbs w ! i \<and> limbs w ! i \<le> limb_max ! i"
  using limb_range top_limb [of w] by (auto simp: limbs_conv limb_max_def nth_append)

lemma val_limbs_word [simp]: "val 12 (limbs w) = int (unat w)"
  by (simp add: val_load_32)

lemma val_append_0: "length s = n \<Longrightarrow> val (Suc n) (s @ [0]) = val n s"
  by (simp add: val_def nth_append)

lemma withinI: "length s = length B \<Longrightarrow> (\<And>i. i < length B \<Longrightarrow> fst (B ! i) \<le> s ! i \<and> s ! i \<le> snd (B ! i)) \<Longrightarrow> within s B"
  by (auto simp: within_def list_all2_conv_all_nth split: prod.splits) (metis fst_conv snd_conv)+

lemma within_load_ranges:
  assumes "length s = 12" "\<And>i. i < 12 \<Longrightarrow> \<bar>s ! i\<bar> \<le> 2 * limb_max ! i"
  shows "within (s @ [0]) load_ranges"
proof (rule withinI)
  fix i assume "i < length load_ranges"
  then consider "i < 11" | "i = 11" | "i = 12" by (fastforce simp: load_ranges_def)
  then show "fst (load_ranges ! i) \<le> (s @ [0]) ! i \<and> (s @ [0]) ! i \<le> snd (load_ranges ! i)"
    using assms(2) [of i] by cases (simp_all add: load_ranges_def limb_max_def nth_append assms(1) abs_le_iff)
qed (simp add: load_ranges_def assms(1))

lemma sc_low_value:
  assumes "length s = 12" "\<And>i. i < 12 \<Longrightarrow> \<bar>s ! i\<bar> \<le> 2 * limb_max ! i"
  shows "sc_finish sc_lines_low (s @ [0]) = Some (word_of_int (val 12 s mod ell))"
  using sc_finish_value [OF low_ok within_load_ranges [OF assms], of 13] low_live val_append_0 [OF assms(1)]
  by (simp add: assms(1))

lemma sc_reduce32_value: "sc_reduce32 w = Some (word_of_int (int (unat w) mod ell))"
  unfolding sc_reduce32_def using limbs_max [of _ w] by (subst sc_low_value) (force simp: abs_le_iff)+

lemma those_map: "(\<And>x. x \<in> set xs \<Longrightarrow> f x = Some (g x)) \<Longrightarrow> those (map f xs) = Some (map g xs)"
  by (induction xs) auto

lemma val_map2:
  assumes "length a = 12" "length b = 12"
  shows "val 12 (map2 (+) a b) = val 12 a + val 12 b" "val 12 (map2 (-) a b) = val 12 a - val 12 b"
  using assms by (simp_all add: val_def algebra_simps sum.distrib sum_subtractf)

lemma limbs_sum_range:
  assumes "i < 12"
  shows "\<bar>limbs a ! i + limbs b ! i\<bar> \<le> 2 * limb_max ! i" "\<bar>limbs a ! i - limbs b ! i\<bar> \<le> 2 * limb_max ! i"
    "limb_max ! i \<le> 2 ^ 25"
proof -
  show "limb_max ! i \<le> 2 ^ 25" using assms by (auto simp: limb_max_def nth_append less_Suc_eq)
qed (use limbs_max [OF assms, of a] limbs_max [OF assms, of b] in linarith)+

lemma limbs_sum_64:
  assumes "i < 12"
  shows "\<bar>limbs a ! i + limbs b ! i\<bar> < 2 ^ 63" "\<bar>limbs a ! i - limbs b ! i\<bar> < 2 ^ 63"
  using limbs_sum_range(1, 2) [OF assms, of a b] limbs_sum_range(3) [OF assms] by simp_all

lemma those_map2:
  assumes "length xs = length ys" "\<And>i. i < length ys \<Longrightarrow> \<bar>f (xs ! i) (ys ! i)\<bar> < 2 ^ 63"
  shows "those (map2 (\<lambda>x y. int64 (f x y)) xs ys) = Some (map2 f xs ys)"
proof -
  have "int64 (f x y) = Some (f x y)" if "(x, y) \<in> set (zip xs ys)" for x y
    using assms that by (fastforce simp: in_set_zip int64_def abs_less_iff)
  then show ?thesis by (subst those_map [where g = "\<lambda>(x, y). f x y"]) auto
qed

lemma sc_add_value: "sc_add a b = Some (word_of_int ((int (unat a) + int (unat b)) mod ell))"
proof -
  have "those (map2 (\<lambda>x y. int64 (x + y)) (limbs a) (limbs b)) = Some (map2 (+) (limbs a) (limbs b))"
    using limbs_sum_64 by (intro those_map2) simp_all
  moreover have "sc_finish sc_lines_low (map2 (+) (limbs a) (limbs b) @ [0]) = Some (word_of_int (val 12 (map2 (+) (limbs a) (limbs b)) mod ell))"
    using limbs_sum_range(1) by (intro sc_low_value) auto
  ultimately show ?thesis by (simp add: sc_add_def val_map2)
qed

lemma sc_sub_value: "sc_sub a b = Some (word_of_int ((int (unat a) - int (unat b)) mod ell))"
proof -
  have "those (map2 (\<lambda>x y. int64 (x - y)) (limbs a) (limbs b)) = Some (map2 (-) (limbs a) (limbs b))"
    using limbs_sum_64 by (intro those_map2) simp_all
  moreover have "sc_finish sc_lines_low (map2 (-) (limbs a) (limbs b) @ [0]) = Some (word_of_int (val 12 (map2 (-) (limbs a) (limbs b)) mod ell))"
    using limbs_sum_range(2) by (intro sc_low_value) auto
  ultimately show ?thesis by (simp add: sc_sub_def val_map2)
qed

lemma sc_reduce_value: "sc_reduce w = Some (word_of_int (int (unat w) mod ell))"
proof -
  let ?s = "sc_load_64 (bytes_of_word 64 w)"
  have s: "?s = map (limb (unat w)) [0..<23] @ [int (unat w div 2 ^ 483)]" by (simp add: sc_load_64_limbs drop_bit_eq_div)
  have "unat w < 2 ^ 29 * 2 ^ 483" using unsigned_less [where 'a = nat and w = w] by simp
  then have "unat w div 2 ^ 483 < 2 ^ 29" by (rule less_mult_imp_div_less)
  then have "int (unat w div 2 ^ 483) \<le> 2 ^ 29 - 1" by (rule int_less_exp)
  then have "within ?s load_ranges_64"
    unfolding s using limb_range by (intro withinI) (auto simp: load_ranges_64_def nth_append less_Suc_eq)
  then have "sc_finish (sc_lines_high @ sc_lines_low) ?s = Some (word_of_int (val 24 ?s mod ell))"
    using high_live by (intro sc_finish_value [OF high_ok]) (simp_all add: s)
  then show ?thesis by (simp add: sc_reduce_def val_load_64)
qed

subsection \<open>Comparison with the group order\<close>

lemma signum_sgn: "\<bar>a\<bar> < 2 ^ 63 \<Longrightarrow> signum a = sgn a"
proof -
  assume a: "\<bar>a\<bar> < 2 ^ 63"
  have "x div 2 ^ 63 = (if x < 0 then - 1 else 0)" if "\<bar>x\<bar> < 2 ^ 63" for x :: int
    using that int_div_pos_eq [of x "2 ^ 63" "- 1" "x + 2 ^ 63"] by (auto simp: div_pos_pos_trivial)
  from this [of a] this [of "- a"] a show ?thesis by (simp add: signum_def drop_bit_eq_div sgn_if)
qed

lemma sgn_digits:
  assumes "\<forall>i<n. \<bar>d i :: int\<bar> < 2 ^ 32"
  shows "\<bar>\<Sum>i<n. sgn (d i) * 2 ^ i\<bar> < 2 ^ n \<and> \<bar>\<Sum>i<n. d i * 2 ^ (32 * i)\<bar> < 2 ^ (32 * n)
    \<and> sgn (\<Sum>i<n. sgn (d i) * 2 ^ i) = sgn (\<Sum>i<n. d i * 2 ^ (32 * i))"
  using assms
proof (induction n)
  case (Suc n)
  define T V X Y where "T = (\<Sum>i<n. sgn (d i) * 2 ^ i)" and "V = (\<Sum>i<n. d i * 2 ^ (32 * i))"
    and "X = (2 :: int) ^ n" and "Y = (2 :: int) ^ (32 * n)"
  have IH: "\<bar>T\<bar> < X" "\<bar>V\<bar> < Y" "sgn T = sgn V" using Suc by (auto simp: T_def V_def X_def Y_def)
  have dn: "\<bar>d n\<bar> \<le> 4294967295" using Suc.prems by fastforce
  have Y: "(2 :: int) ^ (32 * Suc n) = 4294967296 * Y" "(2 :: int) ^ Suc n = 2 * X" "0 < X" "0 < Y"
    by (simp_all add: X_def Y_def power_add)
  have dY: "\<bar>d n * Y\<bar> \<le> 4294967295 * Y" using dn Y(4) by (simp add: abs_mult)
  have "Y \<le> d n * Y" if "0 < d n" using that Y(4) mult_right_mono [of 1 "d n" Y] by simp
  moreover have "d n * Y \<le> - Y" if "d n < 0" using that Y(4) mult_right_mono [of "d n" "- 1" Y] by simp
  ultimately have "d n = 0 \<or> (0 < d n \<and> Y \<le> d n * Y) \<or> (d n < 0 \<and> d n * Y \<le> - Y)" by linarith
  then have "\<bar>T + sgn (d n) * X\<bar> < 2 * X \<and> \<bar>V + d n * Y\<bar> < 4294967296 * Y \<and> sgn (T + sgn (d n) * X) = sgn (V + d n * Y)"
  proof (elim disjE conjE)
    assume "d n = 0"
    then show ?thesis using IH Y by auto
  next
    assume *: "0 < d n" "Y \<le> d n * Y"
    then have "\<bar>T + X\<bar> < 2 * X" "0 < T + X" "\<bar>V + d n * Y\<bar> < 4294967296 * Y" "0 < V + d n * Y" using IH Y dY by linarith+
    then show ?thesis using * by (simp only: sgn_pos mult_1_left simp_thms)
  next
    assume *: "d n < 0" "d n * Y \<le> - Y"
    then have "\<bar>T + - 1 * X\<bar> < 2 * X" "T + - 1 * X < 0" "\<bar>V + d n * Y\<bar> < 4294967296 * Y" "V + d n * Y < 0" using IH Y dY by linarith+
    then show ?thesis using * by (simp only: sgn_neg simp_thms)
  qed
  then show ?case by (simp only: sum.lessThan_Suc Y T_def [symmetric] V_def [symmetric] X_def [symmetric] Y_def [symmetric])
qed simp

definition order_digits :: "int list" where
  "order_digits = [1559614444, 1477600026, 2734136534, 350157278, 0, 0, 0, 268435456]"

lemma sum_8: "(\<Sum>i<8::nat. f i) = f 0 + f 1 + f 2 + f 3 + f 4 + f 5 + f 6 + (f 7 :: int)"
  by (simp add: eval_nat_numeral)

lemma load_4_digit: "i + 4 \<le> 32 \<Longrightarrow> sint (load_4 (bytes_of_word 32 w) i) = int (take_bit 32 (drop_bit (8 * i) (unat (w :: 256 word))))"
  using load_4_value [of i "bytes_of_word 32 w"] take_bit_nat_less_exp [of 32 "drop_bit (8 * i) (unat w)"]
  by (subst sint_small) simp_all

lemma sc_check_value: "sc_check w = (if int (unat w) < ell then 0 else - 1)"
proof -
  define N where "N = unat w"
  define d where "d i = order_digits ! i - int (take_bit 32 (drop_bit (32 * i) N))" for i
  have small: "\<forall>i<8. \<bar>d i\<bar> < 2 ^ 32"
  proof (intro allI impI)
    fix i :: nat assume "i < 8"
    then have "0 \<le> order_digits ! i \<and> order_digits ! i < 2 ^ 32" by (auto simp: order_digits_def nat_lt_8)
    moreover have "int (take_bit 32 (drop_bit (32 * i) N)) < 2 ^ 32" using take_bit_nat_less_exp [of 32 "drop_bit (32 * i) N"] by simp
    ultimately show "\<bar>d i\<bar> < 2 ^ 32" unfolding d_def by (simp add: abs_less_iff)
  qed
  then have sig: "signum (d i) = sgn (d i)" if "i < 8" for i using that by (intro signum_sgn) fastforce
  define S where "S = (\<Sum>i<8. sgn (d i) * 2 ^ i)"
  have "sc_check w = drop_bit 8 S"
  proof -
    have "S = (\<Sum>i<8. signum (d i) * 2 ^ i)" unfolding S_def by (intro sum.cong) (simp_all add: sig)
    then show ?thesis
      unfolding sc_check_def Let_def sum_8
      by (simp add: load_4_digit d_def order_digits_def push_bit_eq_mult N_def)
  qed
  moreover have "drop_bit 256 N = 0" using unsigned_less [where 'a = nat and w = w] by (simp add: N_def drop_bit_eq_div)
  then have "(\<Sum>i<8. d i * 2 ^ (32 * i)) = ell - 1 - int N"
    using digit_sum [of 32 N 8] by (simp add: d_def left_diff_distrib sum_subtractf sum_8 order_digits_def ell_def)
  then have S: "\<bar>S\<bar> < 2 ^ 8" "sgn S = sgn (ell - 1 - int N)" using sgn_digits [OF small] by (auto simp: S_def)
  have "S div 256 = (if S < 0 then - 1 else 0)"
    using S(1) int_div_pos_eq [of S 256 "- 1" "S + 256"] by (auto simp: div_pos_pos_trivial)
  moreover have "S < 0 \<longleftrightarrow> ell - 1 - int N < 0" using S(2) by (metis sgn_less)
  ultimately show ?thesis by (auto simp: drop_bit_eq_div N_def)
qed

lemma fold_or_0: "fold (OR) bs (b :: u8) = 0 \<longleftrightarrow> b = 0 \<and> (\<forall>x\<in>set bs. x = 0)"
  by (induction bs arbitrary: b) (auto simp: bit_eq_iff bit_or_iff)

lemma bytes_zero: "(\<forall>x\<in>set (bytes_of_word 32 w). x = 0) \<longleftrightarrow> (w :: 256 word) = 0"
proof
  assume "\<forall>x\<in>set (bytes_of_word 32 w). x = 0"
  then have "bytes_of_word 32 w = bytes_of_word 32 (0 :: 256 word)"
    by (auto simp: list_eq_iff_nth_eq bytes_of_word_conv)
  then show "w = 0" by (rule bytes_of_word_inj) simp
qed (auto simp: bytes_of_word_conv)

lemma sc_isnonzero_value: "sc_isnonzero w = (if w = 0 then 0 else 1)"
proof -
  define b where "b = uint (fold (OR) (bytes_of_word 32 w) 0)"
  have "0 \<le> b" "b < 256" using uint_lt2p [of "fold (OR) (bytes_of_word 32 w) 0"] by (simp_all add: b_def)
  moreover have "b = 0 \<longleftrightarrow> w = 0"
    using fold_or_0 [of "bytes_of_word 32 w" 0] bytes_zero [of w] by (simp add: b_def unsigned_eq_0_iff)
  ultimately have "(b - 1) div 256 = (if w = 0 then - 1 else 0)" by (auto intro: div_pos_pos_trivial)
  then show ?thesis by (simp add: sc_isnonzero_def drop_bit_eq_div b_def)
qed

lemma sc_0_value: "sc_0 = 0"
  by (simp add: sc_0_def word_of_bytes_def eval_nat_numeral)

subsection \<open>Multiplication\<close>

lemma sc_dot_value:
  assumes "\<forall>i\<in>set is. 0 \<le> a ! i * b ! (n - i) \<and> a ! i * b ! (n - i) \<le> 2 ^ 50" "0 \<le> acc" "acc + int (length is) * 2 ^ 50 < 2 ^ 63"
  shows "sc_dot a b n acc is = Some (acc + (\<Sum>i\<leftarrow>is. a ! i * b ! (n - i)))"
  using assms
proof (induction "is" arbitrary: acc)
  case (Cons i "is")
  let ?p = "a ! i * b ! (n - i)"
  have p: "0 \<le> ?p" "?p \<le> 2 ^ 50" using Cons.prems(1) by simp_all
  have r: "acc + 2 ^ 50 + int (length is) * 2 ^ 50 < 2 ^ 63" using Cons.prems(3) by (simp add: algebra_simps)
  have "int64 ?p = Some ?p" using p by (intro int64_within [of 0 "2 ^ 50"]) (simp_all add: range64_def)
  moreover have "int64 (acc + ?p) = Some (acc + ?p)"
    using p Cons.prems(2) r by (intro int64_within [of 0 "acc + 2 ^ 50"]) (simp_all add: range64_def)
  moreover have "sc_dot a b n (acc + ?p) is = Some (acc + ?p + (\<Sum>i\<leftarrow>is. a ! i * b ! (n - i)))"
    using Cons.prems p r by (intro Cons.IH) auto
  ultimately show ?case by simp
qed simp

abbreviation dot_range :: "nat \<Rightarrow> nat list" where
  "dot_range n \<equiv> [n - 11..<Suc (min n 11)]"

lemma limb_max_le: "i < 12 \<Longrightarrow> limb_max ! i \<le> 2 ^ 25 - 1"
  by (auto simp: limb_max_def nth_append less_Suc_eq)

lemma limbs_product:
  assumes "i < 12" "j < 12"
  shows "0 \<le> limbs a ! i * limbs b ! j" "limbs a ! i * limbs b ! j \<le> limb_max ! i * limb_max ! j"
    "limbs a ! i * limbs b ! j \<le> 2 ^ 50"
proof -
  have l: "0 \<le> limbs a ! i" "limbs a ! i \<le> limb_max ! i" "0 \<le> limbs b ! j" "limbs b ! j \<le> limb_max ! j"
    using limbs_max [OF assms(1), of a] limbs_max [OF assms(2), of b] by auto
  show "0 \<le> limbs a ! i * limbs b ! j" using l by simp
  show m: "limbs a ! i * limbs b ! j \<le> limb_max ! i * limb_max ! j" using l by (intro mult_mono) auto
  have "limb_max ! i * limb_max ! j \<le> 2 ^ 25 * 2 ^ 25"
    using l limb_max_le [OF assms(1)] limb_max_le [OF assms(2)] by (intro mult_mono) auto
  then show "limbs a ! i * limbs b ! j \<le> 2 ^ 50" using m by simp
qed

lemma dot_range_bounds: "i \<in> set (dot_range n) \<Longrightarrow> n < 23 \<Longrightarrow> i < 12 \<and> n - i < 12 \<and> i \<le> n"
  by auto

lemma length_dot_range: "length (dot_range n) \<le> 12"
  by auto

abbreviation dot :: "int list \<Rightarrow> int list \<Rightarrow> nat \<Rightarrow> int" where
  "dot a b n \<equiv> (\<Sum>i\<leftarrow>dot_range n. a ! i * b ! (n - i))"

lemma sc_dot_limbs:
  assumes "n < 23"
  shows "sc_dot (limbs a) (limbs b) n 0 (dot_range n) = Some (dot (limbs a) (limbs b) n)"
proof -
  have "int (length (dot_range n)) * 2 ^ 50 \<le> 12 * 2 ^ 50" using length_dot_range [of n] by (intro mult_right_mono) auto
  then have len: "0 + int (length (dot_range n)) * 2 ^ 50 < 2 ^ 63" by (simp add: le_less_trans del: length_upt)
  have "\<forall>i\<in>set (dot_range n). 0 \<le> limbs a ! i * limbs b ! (n - i) \<and> limbs a ! i * limbs b ! (n - i) \<le> 2 ^ 50"
    using dot_range_bounds [OF _ assms] limbs_product(1, 3) by blast
  from sc_dot_value [OF this order_refl len] show ?thesis by (simp only: add_0)
qed

lemma dot_bounds:
  assumes "n < 23"
  shows "0 \<le> dot (limbs a) (limbs b) n" "dot (limbs a) (limbs b) n \<le> dot limb_max limb_max n"
    "dot limb_max limb_max n \<le> 12 * 2 ^ 50"
proof -
  have r: "i < 12" "n - i < 12" if "i \<in> set (dot_range n)" for i using dot_range_bounds [OF that assms] by auto
  show "0 \<le> dot (limbs a) (limbs b) n" using r limbs_product(1) by (intro sum_list_nonneg) auto
  show "dot (limbs a) (limbs b) n \<le> dot limb_max limb_max n" using r limbs_product(2) by (intro sum_list_mono) auto
  have "limb_max ! i * limb_max ! (n - i) \<le> 2 ^ 25 * 2 ^ 25" if "i \<in> set (dot_range n)" for i
    using limb_max_le [OF r(1) [OF that]] limb_max_le [OF r(2) [OF that]] limbs_max [OF r(2) [OF that], of 0]
    by (intro mult_mono) auto
  then have "dot limb_max limb_max n \<le> (\<Sum>i\<leftarrow>dot_range n. 2 ^ 50)" by (intro sum_list_mono) auto
  also have "\<dots> = int (length (dot_range n)) * 2 ^ 50" by (simp add: sum_list_triv)
  also have "\<dots> \<le> 12 * 2 ^ 50" using length_dot_range [of n] by (intro mult_right_mono) auto
  finally show "dot limb_max limb_max n \<le> 12 * 2 ^ 50" .
qed

definition mulsub_limb :: "int list \<Rightarrow> int list \<Rightarrow> int list \<Rightarrow> nat \<Rightarrow> int" where
  "mulsub_limb a b c n = (if n = 23 then 0 else (if n < 12 then c ! n else 0) - dot a b n)"

lemma sc_mulsub_limbs_value:
  "sc_mulsub_limbs (limbs a) (limbs b) (limbs c) = Some (map (mulsub_limb (limbs a) (limbs b) (limbs c)) [0..<24])"
  unfolding sc_mulsub_limbs_def
proof (rule those_map)
  fix n assume "n \<in> set [0..<24]"
  then have n: "n < 24" by simp
  show "(if n = 23 then Some 0
     else do {
       d \<leftarrow> sc_dot (limbs a) (limbs b) n 0 (dot_range n);
       int64 ((if n < 12 then limbs c ! n else 0) - d) }) = Some (mulsub_limb (limbs a) (limbs b) (limbs c) n)"
  proof (cases "n = 23")
    case False
    then have "n < 23" using n by simp
    note d = dot_bounds(1, 2) [OF this, of a b] dot_bounds(3) [OF this] sc_dot_limbs [OF this, of a b]
    have "0 \<le> (if n < 12 then limbs c ! n else 0) \<and> (if n < 12 then limbs c ! n else 0) \<le> 2 ^ 25"
      using limbs_max [of n c] limb_max_le [of n] by auto
    then have "int64 ((if n < 12 then limbs c ! n else 0) - dot (limbs a) (limbs b) n) = Some ((if n < 12 then limbs c ! n else 0) - dot (limbs a) (limbs b) n)"
      using d(1-3) by (intro int64_within [of "- (12 * 2 ^ 50)" "2 ^ 25"]) (auto simp: range64_def)
    then show ?thesis using d(4) False by (simp add: mulsub_limb_def)
  qed (simp add: mulsub_limb_def)
qed

lemma within_mulsub_ranges: "within (map (mulsub_limb (limbs a) (limbs b) (limbs c)) [0..<24]) mulsub_ranges"
proof (rule withinI)
  fix n assume "n < length mulsub_ranges"
  then have n: "n < 24" by (simp add: mulsub_ranges_def)
  then show "fst (mulsub_ranges ! n) \<le> map (mulsub_limb (limbs a) (limbs b) (limbs c)) [0..<24] ! n
      \<and> map (mulsub_limb (limbs a) (limbs b) (limbs c)) [0..<24] ! n \<le> snd (mulsub_ranges ! n)"
    using dot_bounds(1, 2) [of n a b] limbs_max [of n c] by (auto simp: mulsub_ranges_def mulsub_limb_def)
qed (simp add: mulsub_ranges_def)

lemma dot_sum:
  assumes "length a = 12" "length b = 12" "n < 23"
  shows "dot a b n = (\<Sum>k\<le>n. (if k < 12 then a ! k else 0) * (if n - k < 12 then b ! (n - k) else 0))"
proof -
  have "dot a b n = (\<Sum>k\<in>set (dot_range n). a ! k * b ! (n - k))" by (rule sum_list_distinct_conv_sum_set) simp
  also have "\<dots> = (\<Sum>k\<in>set (dot_range n). (if k < 12 then a ! k else 0) * (if n - k < 12 then b ! (n - k) else 0))"
  proof (rule sum.cong)
    fix k assume "k \<in> set (dot_range n)"
    then have "k < 12" "n - k < 12" using dot_range_bounds assms(3) by blast+
    then show "a ! k * b ! (n - k) = (if k < 12 then a ! k else 0) * (if n - k < 12 then b ! (n - k) else 0)" by (simp only: if_True)
  qed (rule refl)
  also have "\<dots> = (\<Sum>k\<le>n. (if k < 12 then a ! k else 0) * (if n - k < 12 then b ! (n - k) else 0))"
  proof (rule sum.mono_neutral_left)
    show "\<forall>k\<in>{..n} - set (dot_range n). (if k < 12 then a ! k else 0) * (if n - k < 12 then b ! (n - k) else 0) = 0"
      by (force simp del: upt_Suc)
  qed auto
  finally show ?thesis .
qed

lemma val_product:
  assumes "length a = 12" "length b = 12"
  shows "val 12 a * val 12 b = (\<Sum>n<23. dot a b n * 2 ^ (21 * n))"
proof -
  let ?a = "\<lambda>k. if k < 12 then a ! k else 0" and ?b = "\<lambda>k. if k < 12 then b ! k else 0"
  have v: "val 12 s = (\<Sum>i\<le>11. (if i < 12 then s ! i else 0) * (2 ^ 21) ^ i)" for s
    unfolding val_def power_mult by (intro sum.cong) auto
  have "val 12 a * val 12 b = (\<Sum>r\<le>11 + 11. (\<Sum>k\<le>r. ?a k * ?b (r - k)) * (2 ^ 21) ^ r)"
    unfolding v by (rule polynomial_product) auto
  also have "\<dots> = (\<Sum>n<23. dot a b n * 2 ^ (21 * n))"
    unfolding power_mult by (rule sum.cong) (auto simp only: dot_sum [OF assms] lessThan_iff atMost_iff)
  finally show ?thesis .
qed

lemma val_mulsub_limb: "val 24 (map (mulsub_limb (limbs a) (limbs b) (limbs c)) [0..<24]) = int (unat c) - int (unat a) * int (unat b)"
proof -
  have "val 24 (map (mulsub_limb (limbs a) (limbs b) (limbs c)) [0..<24]) = (\<Sum>n<24. mulsub_limb (limbs a) (limbs b) (limbs c) n * 2 ^ (21 * n))"
    unfolding val_def by (intro sum.cong) auto
  also have "\<dots> = (\<Sum>n<23. mulsub_limb (limbs a) (limbs b) (limbs c) n * 2 ^ (21 * n))"
    using sum.lessThan_Suc [of "\<lambda>n. mulsub_limb (limbs a) (limbs b) (limbs c) n * 2 ^ (21 * n)" 23] by (simp add: mulsub_limb_def)
  also have "\<dots> = (\<Sum>n<23. (if n < 12 then limbs c ! n else 0) * 2 ^ (21 * n)) - (\<Sum>n<23. dot (limbs a) (limbs b) n * 2 ^ (21 * n))"
    unfolding sum_subtractf [symmetric] by (intro sum.cong) (auto simp: mulsub_limb_def algebra_simps)
  also have "(\<Sum>n<23. (if n < 12 then limbs c ! n else 0) * 2 ^ (21 * n)) = val 12 (limbs c)"
    unfolding val_def by (intro sum.mono_neutral_cong_right) auto
  finally show ?thesis using val_product [of "limbs a" "limbs b"] by simp
qed

lemma sc_mulsub_value:
  "sc_mulsub a b c = Some (word_of_int ((int (unat c) - int (unat a) * int (unat b)) mod ell))"
proof -
  have "sc_finish sc_mulsub_lines (map (mulsub_limb (limbs a) (limbs b) (limbs c)) [0..<24])
    = Some (word_of_int (val 24 (map (mulsub_limb (limbs a) (limbs b) (limbs c)) [0..<24]) mod ell))"
    using mulsub_live by (intro sc_finish_value [OF mulsub_ok within_mulsub_ranges]) auto
  then show ?thesis by (simp add: sc_mulsub_def sc_mulsub_limbs_value val_mulsub_limb)
qed

lemma uint_residue: "uint (word_of_int (x mod ell) :: 256 word) = x mod ell"
proof -
  have "0 \<le> x mod ell" "x mod ell < ell" using ell_bounds(1) by simp_all
  moreover have "ell < 2 ^ 256" by (simp add: ell_def)
  ultimately show ?thesis by (simp add: uint_word_of_int_eq take_bit_int_eq_self)
qed

subsection \<open>Properties\<close>

text \<open>
  C7. \<open>sc_mulsub\<close> computes \<open>(c - ab) mod l\<close>, as its comment says, for all 32-byte inputs: no signed
  overflow happens on the way, and the bytes it returns are the canonical residue.
\<close>

theorem sc_mulsub_exact:
  "\<exists>s. sc_mulsub a b c = Some s \<and> int (unat s) = (int (unat c) - int (unat a) * int (unat b)) mod ell"
  by (simp add: sc_mulsub_value uint_residue)

text \<open>
  C32. The reductions of 32 and of 64 bytes, addition and subtraction return the canonical residue
  modulo the group order, for all inputs and without signed overflow.
\<close>

theorem sc_reduce_add_sub_exact:
  "(\<exists>s. sc_reduce32 w = Some s \<and> int (unat s) = int (unat w) mod ell)
   \<and> (\<exists>s. sc_reduce v = Some s \<and> int (unat s) = int (unat v) mod ell)
   \<and> (\<exists>s. sc_add a b = Some s \<and> int (unat s) = (int (unat a) + int (unat b)) mod ell)
   \<and> (\<exists>s. sc_sub a b = Some s \<and> int (unat s) = (int (unat a) - int (unat b)) mod ell)"
  by (simp add: sc_reduce32_value sc_reduce_value sc_add_value sc_sub_value uint_residue)

text \<open>
  The branch-free comparison accepts exactly the canonical scalars: \<open>sc_check\<close> returns 0 for the
  numbers below the group order and -1 for all others.
\<close>

theorem sc_check_exact: "sc_check w = (if int (unat w) < ell then 0 else - 1)"
  by (rule sc_check_value)

end
