(* ===== verification/Crypto.thy ===== *)
theory Crypto
  imports Scalar_Ops Varint Keccak Cryptonote_Basic
begin

text \<open>
  \<open>src/crypto/crypto.cpp\<close>: key generation, one-time keys of stealth addresses, key images, signatures
  and ring signatures, on top of the scalar arithmetic of \<^theory_text>\<open>Scalar_Ops\<close> and the hash of
  \<^theory_text>\<open>Keccak\<close>. The functions are those of a build with \<open>NDEBUG\<close>, without assertions; \<open>None\<close> is the
  result \<open>false\<close> of a function with an output parameter, a call of \<open>abort\<close>, or signed overflow, which
  \<^theory_text>\<open>Scalar_Ops\<close> excludes. Under the group laws of the curve, signatures and ring signatures of
  the code are accepted by its verifiers, and the one-time key that a sender derives is the public
  key of the secret key that the receiver derives.
\<close>

subsection \<open>Scalars and points\<close>

text \<open>
  The arithmetic on curve points (\<open>ge_*\<close> and the field arithmetic \<open>fe_*\<close> below it) is a parameter:
  one field per routine of \<open>crypto-ops.h\<close>, over an abstract type of points that stands for all four
  coordinate systems, with the conversions between them and the precomputed multiples left out.
\<close>

record 'p ge_ops =
  ge_frombytes_vartime :: "256 word \<Rightarrow> 'p option"
  ge_tobytes :: "'p \<Rightarrow> 256 word"
  ge_scalarmult_base :: "256 word \<Rightarrow> 'p"
  ge_scalarmult :: "256 word \<Rightarrow> 'p \<Rightarrow> 'p"
  ge_add :: "'p \<Rightarrow> 'p \<Rightarrow> 'p"
  ge_mul8 :: "'p \<Rightarrow> 'p"
  ge_fromfe_frombytes_vartime :: "256 word \<Rightarrow> 'p"
  ge_double_scalarmult_base_vartime :: "256 word \<Rightarrow> 'p \<Rightarrow> 256 word \<Rightarrow> 'p"
  ge_double_scalarmult_precomp_vartime :: "256 word \<Rightarrow> 'p \<Rightarrow> 256 word \<Rightarrow> 'p \<Rightarrow> 'p"

text \<open>A signature is 64 bytes, the scalar \<open>c\<close> followed by the scalar \<open>r\<close>.\<close>

definition sig_c :: "signature \<Rightarrow> 256 word" where "sig_c s = ucast s"

definition sig_r :: "signature \<Rightarrow> 256 word" where "sig_r s = ucast (drop_bit 256 s)"

definition mk_signature :: "256 word \<Rightarrow> 256 word \<Rightarrow> signature" where
  "mk_signature c r = ucast c OR push_bit 256 (ucast r)"

text \<open>\<open>tmp\<close> are the 64 bytes that \<open>generate_random_bytes\<close> returns.\<close>

definition random_scalar :: "512 word \<Rightarrow> 256 word option" where
  "random_scalar tmp = sc_reduce tmp"

definition hash_to_scalar :: "blob \<Rightarrow> 256 word option" where
  "hash_to_scalar data = sc_reduce32 (cn_fast_hash data)"

subsection \<open>Keys\<close>

text \<open>The result is the returned random scalar, the public key and the secret key.\<close>

definition generate_keys :: "'p ge_ops \<Rightarrow> 512 word \<Rightarrow> secret_key \<Rightarrow> bool \<Rightarrow> (secret_key \<times> public_key \<times> secret_key) option" where
  "generate_keys G tmp recovery_key recover = do {
     rng \<leftarrow> if recover then Some recovery_key else random_scalar tmp;
     sec \<leftarrow> sc_reduce32 rng;
     Some (rng, ge_tobytes G (ge_scalarmult_base G sec), sec) }"

definition check_key :: "'p ge_ops \<Rightarrow> public_key \<Rightarrow> bool" where
  "check_key G key \<longleftrightarrow> ge_frombytes_vartime G key \<noteq> None"

definition secret_key_to_public_key :: "'p ge_ops \<Rightarrow> secret_key \<Rightarrow> public_key option" where
  "secret_key_to_public_key G sec =
     (if sc_check sec \<noteq> 0 then None else Some (ge_tobytes G (ge_scalarmult_base G sec)))"

definition generate_key_derivation :: "'p ge_ops \<Rightarrow> public_key \<Rightarrow> secret_key \<Rightarrow> 256 word option" where
  "generate_key_derivation G key1 key2 = do {
     point \<leftarrow> ge_frombytes_vartime G key1;
     Some (ge_tobytes G (ge_mul8 G (ge_scalarmult G key2 point))) }"

definition derivation_to_scalar :: "256 word \<Rightarrow> nat \<Rightarrow> 256 word option" where
  "derivation_to_scalar derivation output_index =
     hash_to_scalar (bytes_of_word 32 derivation @ write_varint output_index)"

definition derive_public_key :: "'p ge_ops \<Rightarrow> 256 word \<Rightarrow> nat \<Rightarrow> public_key \<Rightarrow> public_key option" where
  "derive_public_key G derivation output_index base = do {
     point1 \<leftarrow> ge_frombytes_vartime G base;
     scalar \<leftarrow> derivation_to_scalar derivation output_index;
     Some (ge_tobytes G (ge_add G point1 (ge_scalarmult_base G scalar))) }"

definition derive_secret_key :: "256 word \<Rightarrow> nat \<Rightarrow> secret_key \<Rightarrow> secret_key option" where
  "derive_secret_key derivation output_index base = do {
     scalar \<leftarrow> derivation_to_scalar derivation output_index;
     sc_add base scalar }"

subsection \<open>Signatures\<close>

definition s_comm :: "hash \<Rightarrow> 256 word \<Rightarrow> 256 word \<Rightarrow> blob" where
  "s_comm h key comm = bytes_of_word 32 h @ bytes_of_word 32 key @ bytes_of_word 32 comm"

definition generate_signature :: "'p ge_ops \<Rightarrow> 512 word \<Rightarrow> hash \<Rightarrow> public_key \<Rightarrow> secret_key \<Rightarrow> signature option" where
  "generate_signature G tmp prefix_hash pub sec = do {
     k \<leftarrow> random_scalar tmp;
     let comm = ge_tobytes G (ge_scalarmult_base G k);
     c \<leftarrow> hash_to_scalar (s_comm prefix_hash pub comm);
     r \<leftarrow> sc_mulsub c sec k;
     Some (mk_signature c r) }"

definition check_signature :: "'p ge_ops \<Rightarrow> hash \<Rightarrow> public_key \<Rightarrow> signature \<Rightarrow> bool option" where
  "check_signature G prefix_hash pub sig = do {
     tmp3 \<leftarrow> ge_frombytes_vartime G pub;
     if sc_check (sig_c sig) \<noteq> 0 \<or> sc_check (sig_r sig) \<noteq> 0 then Some False
     else do {
       let comm = ge_tobytes G (ge_double_scalarmult_base_vartime G (sig_c sig) tmp3 (sig_r sig));
       c \<leftarrow> hash_to_scalar (s_comm prefix_hash pub comm);
       c \<leftarrow> sc_sub c (sig_c sig);
       Some (sc_isnonzero c = 0) } }"

definition hash_to_ec :: "'p ge_ops \<Rightarrow> public_key \<Rightarrow> 'p" where
  "hash_to_ec G key = ge_mul8 G (ge_fromfe_frombytes_vartime G (cn_fast_hash (bytes_of_word 32 key)))"

definition generate_key_image :: "'p ge_ops \<Rightarrow> public_key \<Rightarrow> secret_key \<Rightarrow> key_image" where
  "generate_key_image G pub sec = ge_tobytes G (ge_scalarmult G sec (hash_to_ec G pub))"

subsection \<open>Ring signatures\<close>

definition rs_comm_ab :: "256 word \<Rightarrow> 256 word \<Rightarrow> blob" where
  "rs_comm_ab a b = bytes_of_word 32 a @ bytes_of_word 32 b"

text \<open>
  The loop of \<open>generate_ring_signature\<close>: the state is the commitment buffer, the sum of the challenges,
  the signatures filled in so far and the secret nonce \<open>k\<close>; \<open>rnd n\<close> is the result of the \<open>n\<close>-th call
  of \<open>generate_random_bytes\<close>, and \<open>drawn\<close> counts the calls.
\<close>

fun generate_ring_loop :: "'p ge_ops \<Rightarrow> 'p \<Rightarrow> (nat \<Rightarrow> 512 word) \<Rightarrow> nat \<Rightarrow> nat \<Rightarrow> public_key list
    \<Rightarrow> (blob \<times> 256 word \<times> signature list \<times> 256 word) \<Rightarrow> nat \<Rightarrow> (blob \<times> 256 word \<times> signature list \<times> 256 word) option" where
  "generate_ring_loop G image_pre rnd sec_index i [] st drawn = Some st"
| "generate_ring_loop G image_pre rnd sec_index i (pub # pubs) (buf, csum, sig, k) drawn =
     (if i = sec_index then do {
        k \<leftarrow> random_scalar (rnd drawn);
        let a = ge_tobytes G (ge_scalarmult_base G k);
        let b = ge_tobytes G (ge_scalarmult G k (hash_to_ec G pub));
        generate_ring_loop G image_pre rnd sec_index (i + 1) pubs (buf @ rs_comm_ab a b, csum, sig, k) (drawn + 1) }
      else do {
        c \<leftarrow> random_scalar (rnd drawn);
        r \<leftarrow> random_scalar (rnd (drawn + 1));
        tmp3 \<leftarrow> ge_frombytes_vartime G pub;
        let a = ge_tobytes G (ge_double_scalarmult_base_vartime G c tmp3 r);
        let b = ge_tobytes G (ge_double_scalarmult_precomp_vartime G r (hash_to_ec G pub) c image_pre);
        csum \<leftarrow> sc_add csum c;
        generate_ring_loop G image_pre rnd sec_index (i + 1) pubs
          (buf @ rs_comm_ab a b, csum, sig[i := mk_signature c r], k) (drawn + 2) })"

definition generate_ring_signature :: "'p ge_ops \<Rightarrow> (nat \<Rightarrow> 512 word) \<Rightarrow> hash \<Rightarrow> key_image \<Rightarrow> public_key list \<Rightarrow> secret_key
    \<Rightarrow> nat \<Rightarrow> signature list \<Rightarrow> signature list option" where
  "generate_ring_signature G rnd prefix_hash ki pubs sec sec_index sig = do {
     image_unp \<leftarrow> ge_frombytes_vartime G ki;
     (buf, csum, sig, k) \<leftarrow> generate_ring_loop G image_unp rnd sec_index 0 pubs (bytes_of_word 32 prefix_hash, sc_0, sig, 0) 0;
     h \<leftarrow> hash_to_scalar buf;
     c \<leftarrow> sc_sub h csum;
     r \<leftarrow> sc_mulsub c sec k;
     Some (sig[sec_index := mk_signature c r]) }"

text \<open>Too few signatures would be read past the end of the array (\<open>None\<close>).\<close>

fun check_ring_loop :: "'p ge_ops \<Rightarrow> 'p \<Rightarrow> public_key list \<Rightarrow> signature list \<Rightarrow> blob \<Rightarrow> 256 word \<Rightarrow> bool option" where
  "check_ring_loop G image_pre [] sig buf csum = do {
     h \<leftarrow> hash_to_scalar buf;
     h \<leftarrow> sc_sub h csum;
     Some (sc_isnonzero h = 0) }"
| "check_ring_loop G image_pre (pub # pubs) [] buf csum = None"
| "check_ring_loop G image_pre (pub # pubs) (sg # sig) buf csum =
     (if sc_check (sig_c sg) \<noteq> 0 \<or> sc_check (sig_r sg) \<noteq> 0 then Some False
      else do {
        tmp3 \<leftarrow> ge_frombytes_vartime G pub;
        let a = ge_tobytes G (ge_double_scalarmult_base_vartime G (sig_c sg) tmp3 (sig_r sg));
        let b = ge_tobytes G (ge_double_scalarmult_precomp_vartime G (sig_r sg) (hash_to_ec G pub) (sig_c sg) image_pre);
        csum \<leftarrow> sc_add csum (sig_c sg);
        check_ring_loop G image_pre pubs sig (buf @ rs_comm_ab a b) csum })"

definition check_ring_signature :: "'p ge_ops \<Rightarrow> hash \<Rightarrow> key_image \<Rightarrow> public_key list \<Rightarrow> signature list \<Rightarrow> bool option" where
  "check_ring_signature G prefix_hash ki pubs sig =
     (case ge_frombytes_vartime G ki of
        None \<Rightarrow> Some False
      | Some image_unp \<Rightarrow> check_ring_loop G image_unp pubs sig (bytes_of_word 32 prefix_hash) sc_0)"

subsection \<open>The laws of the curve\<close>

primrec nmul :: "nat \<Rightarrow> 'p::ab_group_add \<Rightarrow> 'p" where
  "nmul 0 P = 0"
| "nmul (Suc n) P = P + nmul n P"

text \<open>
  What \<open>crypto-ops.c\<close> documents of its routines: points decode from their encoding, the scalar
  multiplications compute \<open>a * A\<close> and \<open>a * A + b * B\<close> for scalars below the group order, the base
  point has that order, and multiplication by the cofactor 8 leads into the subgroup of that order.
\<close>

definition curve_laws :: "'p::ab_group_add ge_ops \<Rightarrow> 'p \<Rightarrow> bool" where
  "curve_laws G B \<longleftrightarrow>
     (\<forall>P. ge_frombytes_vartime G (ge_tobytes G P) = Some P)
     \<and> (\<forall>a. uint a < ell \<longrightarrow> ge_scalarmult_base G a = nmul (unat a) B)
     \<and> (\<forall>a P. uint a < ell \<longrightarrow> ge_scalarmult G a P = nmul (unat a) P)
     \<and> (\<forall>P Q. ge_add G P Q = P + Q)
     \<and> (\<forall>P. ge_mul8 G P = nmul 8 P)
     \<and> (\<forall>a P b. uint a < ell \<longrightarrow> uint b < ell \<longrightarrow>
          ge_double_scalarmult_base_vartime G a P b = nmul (unat a) P + nmul (unat b) B)
     \<and> (\<forall>a P b Q. uint a < ell \<longrightarrow> uint b < ell \<longrightarrow>
          ge_double_scalarmult_precomp_vartime G a P b Q = nmul (unat a) P + nmul (unat b) Q)
     \<and> nmul (nat ell) B = 0
     \<and> (\<forall>P. nmul (nat ell) (ge_mul8 G P) = 0)"

lemma nmul_add: "nmul (m + n) P = nmul m P + nmul n P"
  by (induction m) (auto simp: algebra_simps)

lemma nmul_zero [simp]: "nmul n 0 = 0"
  by (induction n) auto

lemma nmul_plus: "nmul n (P + Q) = nmul n P + nmul n Q"
  by (induction n) (auto simp: algebra_simps)

lemma nmul_mult: "nmul (m * n) P = nmul m (nmul n P)"
  by (induction m) (auto simp: nmul_add)

lemma nmul_commute: "nmul m (nmul n P) = nmul n (nmul m P)"
  by (metis mult.commute nmul_mult)

lemma nmul_mod:
  assumes "nmul (nat ell) P = 0"
  shows "nmul (n mod nat ell) P = nmul n P"
proof -
  have "nmul (n div nat ell * nat ell + n mod nat ell) P = nmul (n mod nat ell) P"
    unfolding nmul_add nmul_mult assms by simp
  then show ?thesis by simp
qed

lemma nmul_cong:
  assumes "nmul (nat ell) P = 0" "m mod nat ell = n mod nat ell"
  shows "nmul m P = nmul n P"
  using assms nmul_mod [OF assms(1)] by metis

subsection \<open>Scalars as residues\<close>

definition residue :: "int \<Rightarrow> 256 word" where
  "residue x = word_of_int (x mod ell)"

lemma residue_value [simp]: "uint (residue x) = x mod ell"
  using uint_residue by (simp add: residue_def)

lemma ell_pos [simp]: "0 < ell"
  using ell_bounds(1) by simp

lemma residue_less [simp]: "uint (residue x) < ell"
  by simp

lemmas sc_values [simp] =
  sc_reduce32_value [folded residue_def] sc_reduce_value [folded residue_def] sc_add_value [folded residue_def]
  sc_sub_value [folded residue_def] sc_mulsub_value [folded residue_def] sc_isnonzero_value sc_0_value

lemma sc_check_canonical: "sc_check w = 0 \<longleftrightarrow> uint w < ell"
  by (simp add: sc_check_value)

lemma residue_eq_0: "residue x = 0 \<longleftrightarrow> x mod ell = 0"
  by (metis residue_value residue_def unsigned_0 word_of_int_0)

subsection \<open>Signatures are accepted\<close>

lemma sig_c_mk [simp]: "sig_c (mk_signature c r) = c"
  by (rule bit_word_eqI) (simp add: sig_c_def mk_signature_def bit_simps)

lemma sig_r_mk [simp]: "sig_r (mk_signature c r) = r"
  by (rule bit_word_eqI) (auto simp: sig_r_def mk_signature_def bit_simps dest: bit_imp_le_length)

lemma hash_to_scalar_eq [simp]: "hash_to_scalar data = Some (residue (uint (cn_fast_hash data)))"
  by (simp add: hash_to_scalar_def)

lemma random_scalar_eq [simp]: "random_scalar tmp = Some (residue (uint tmp))"
  by (simp add: random_scalar_def)

lemma curve_lawsD:
  assumes "curve_laws G B"
  shows "ge_frombytes_vartime G (ge_tobytes G P) = Some P"
    "uint a < ell \<Longrightarrow> ge_scalarmult_base G a = nmul (unat a) B"
    "uint a < ell \<Longrightarrow> ge_scalarmult G a P = nmul (unat a) P"
    "ge_add G P Q = P + Q"
    "ge_mul8 G P = nmul 8 P"
    "uint a < ell \<Longrightarrow> uint b < ell \<Longrightarrow> ge_double_scalarmult_base_vartime G a P b = nmul (unat a) P + nmul (unat b) B"
    "uint a < ell \<Longrightarrow> uint b < ell \<Longrightarrow> ge_double_scalarmult_precomp_vartime G a P b Q = nmul (unat a) P + nmul (unat b) Q"
    "nmul (nat ell) B = 0" "nmul (nat ell) (ge_mul8 G P) = 0"
  using assms unfolding curve_laws_def by blast+

lemma mod_nat_ell: "m mod nat ell = n mod nat ell \<longleftrightarrow> int m mod ell = int n mod ell"
proof -
  have "int (nat ell) = ell" by (simp add: less_imp_le)
  then have "int (k mod nat ell) = int k mod ell" for k by (simp only: zmod_int)
  then show ?thesis by (metis of_nat_eq_iff)
qed

lemma nmul_cong_int: "nmul (nat ell) P = 0 \<Longrightarrow> int m mod ell = int n mod ell \<Longrightarrow> nmul m P = nmul n P"
  by (rule nmul_cong) (simp_all only: mod_nat_ell)

text \<open>The response to a challenge opens the commitment to the nonce.\<close>

lemma response:
  assumes "nmul (nat ell) P = 0"
  shows "nmul (unat c) (nmul (unat s) P) + nmul (unat (residue (uint k - uint c * uint s))) P = nmul (unat k) P"
proof -
  let ?r = "residue (uint k - uint c * uint s)"
  have "int (unat c * unat s + unat ?r) mod ell = (uint c * uint s + (uint k - uint c * uint s) mod ell) mod ell"
    by simp
  also have "\<dots> = int (unat k) mod ell" unfolding mod_add_right_eq by simp
  finally have "nmul (unat c * unat s + unat ?r) P = nmul (unat k) P" by (rule nmul_cong_int [OF assms])
  then show ?thesis by (simp only: nmul_add nmul_mult)
qed

lemma key_pair_point:
  assumes "curve_laws G B" "sc_check sec = 0" "pub = ge_tobytes G (ge_scalarmult_base G sec)"
  shows "ge_frombytes_vartime G pub = Some (nmul (unat sec) B)"
  using assms curve_lawsD [OF assms(1)] by (simp add: sc_check_canonical)

lemma signature_accepted:
  assumes "curve_laws G B" "sc_check sec = 0" "pub = ge_tobytes G (ge_scalarmult_base G sec)"
  shows "\<exists>sg. generate_signature G tmp prefix_hash pub sec = Some sg \<and> check_signature G prefix_hash pub sg = Some True"
proof -
  note laws = curve_lawsD [OF assms(1)]
  define k where "k = residue (uint tmp)"
  define c where "c = residue (uint (cn_fast_hash (s_comm prefix_hash pub (ge_tobytes G (ge_scalarmult_base G k)))))"
  define r where "r = residue (uint k - uint c * uint sec)"
  have gen: "generate_signature G tmp prefix_hash pub sec = Some (mk_signature c r)"
    by (simp add: generate_signature_def Let_def k_def c_def r_def)
  have cr: "uint c < ell" "uint r < ell" "uint k < ell" by (simp_all add: c_def r_def k_def)
  have "ge_double_scalarmult_base_vartime G c (nmul (unat sec) B) r = ge_scalarmult_base G k"
    using laws(2, 6) cr response [OF laws(8), of c sec k] by (simp add: r_def)
  then have "check_signature G prefix_hash pub (mk_signature c r) = Some True"
    using key_pair_point [OF assms] cr
    by (simp add: check_signature_def sc_check_canonical Let_def residue_eq_0) (simp add: c_def)
  then show ?thesis using gen by blast
qed

subsection \<open>Ring signatures are accepted\<close>

text \<open>What the verifier, and the signer for the foreign keys, append to the buffer for one key.\<close>

definition ring_commit :: "'p ge_ops \<Rightarrow> 'p \<Rightarrow> public_key \<Rightarrow> signature \<Rightarrow> blob" where
  "ring_commit G image_pre pub sg = rs_comm_ab
     (ge_tobytes G (ge_double_scalarmult_base_vartime G (sig_c sg) (the (ge_frombytes_vartime G pub)) (sig_r sg)))
     (ge_tobytes G (ge_double_scalarmult_precomp_vartime G (sig_r sg) (hash_to_ec G pub) (sig_c sg) image_pre))"

definition canonical_sig :: "signature \<Rightarrow> bool" where
  "canonical_sig sg \<longleftrightarrow> uint (sig_c sg) < ell \<and> uint (sig_r sg) < ell"

lemma mod_step: "(h - (x mod ell + y)) mod ell = (h - (x + y)) mod ell"
  by (metis mod_add_left_eq mod_diff_right_eq)

lemma check_ring_loop_value:
  assumes "\<forall>p\<in>set pubs. check_key G p" "list_all canonical_sig sgs" "length sgs = length pubs"
  shows "check_ring_loop G image_pre pubs sgs buf s =
    (let b = buf @ concat (map2 (ring_commit G image_pre) pubs sgs)
     in Some ((uint (cn_fast_hash b) - (uint s + sum_list (map (\<lambda>sg. uint (sig_c sg)) sgs))) mod ell = 0))"
  using assms
proof (induction pubs arbitrary: sgs buf s)
  case Nil
  then show ?case by (simp add: residue_eq_0 mod_diff_left_eq Let_def)
next
  case (Cons p pubs)
  then obtain sg sgs' where sgs: "sgs = sg # sgs'" "canonical_sig sg" "list_all canonical_sig sgs'" "length sgs' = length pubs"
    by (cases sgs) auto
  obtain P where p: "ge_frombytes_vartime G p = Some P" using Cons.prems(1) by (auto simp: check_key_def)
  have "check_ring_loop G image_pre (p # pubs) sgs buf s
    = check_ring_loop G image_pre pubs sgs' (buf @ ring_commit G image_pre p sg) (residue (uint s + uint (sig_c sg)))"
    using sgs(2) p by (subst sgs(1)) (simp add: canonical_sig_def sc_check_canonical ring_commit_def Let_def)
  also have "\<dots> = (let b = (buf @ ring_commit G image_pre p sg) @ concat (map2 (ring_commit G image_pre) pubs sgs')
     in Some ((uint (cn_fast_hash b) - (uint (residue (uint s + uint (sig_c sg))) + sum_list (map (\<lambda>sg. uint (sig_c sg)) sgs'))) mod ell = 0))"
    using Cons.prems(1) sgs by (intro Cons.IH) auto
  finally show ?case unfolding sgs(1) by (simp add: Let_def mod_step add.assoc del: check_ring_loop.simps)
qed

definition secret_commit :: "'p ge_ops \<Rightarrow> public_key \<Rightarrow> 256 word \<Rightarrow> blob" where
  "secret_commit G pub k = rs_comm_ab (ge_tobytes G (ge_scalarmult_base G k)) (ge_tobytes G (ge_scalarmult G k (hash_to_ec G pub)))"

definition ring_entry :: "'p ge_ops \<Rightarrow> 'p \<Rightarrow> nat \<Rightarrow> 256 word \<Rightarrow> nat \<Rightarrow> public_key \<Rightarrow> signature \<Rightarrow> blob" where
  "ring_entry G image_pre si k n pub sg = (if n = si then secret_commit G pub k else ring_commit G image_pre pub sg)"

text \<open>
  What the loop of the signer guarantees from position \<open>i\<close> on: canonical signatures at the foreign
  positions, the buffer entries, the sum of the foreign challenges, and a nonce below the order.
\<close>

definition ring_post :: "'p ge_ops \<Rightarrow> 'p \<Rightarrow> nat \<Rightarrow> nat \<Rightarrow> public_key list
    \<Rightarrow> blob \<times> 256 word \<times> signature list \<times> 256 word \<Rightarrow> blob \<times> 256 word \<times> signature list \<times> 256 word \<Rightarrow> bool" where
  "ring_post G image_pre si i pubs = (\<lambda>(buf, s, sg0, k) (buf', s', sg, k').
     length sg = length sg0 \<and> (\<forall>n<i. sg ! n = sg0 ! n)
     \<and> (\<forall>n. i \<le> n \<and> n < i + length pubs \<and> n \<noteq> si \<longrightarrow> canonical_sig (sg ! n))
     \<and> buf' = buf @ concat (map (\<lambda>n. ring_entry G image_pre si k' n (pubs ! (n - i)) (sg ! n)) [i..<i + length pubs])
     \<and> uint s' mod ell = (uint s + sum_list (map (\<lambda>n. uint (sig_c (sg ! n))) (filter (\<lambda>n. n \<noteq> si) [i..<i + length pubs]))) mod ell
     \<and> (if i \<le> si \<and> si < i + length pubs then uint k' < ell else k' = k))"

lemma upt_entries:
  "[i..<i + length (p # pubs)] = i # [i + 1..<i + 1 + length pubs]"
  "map (\<lambda>n. ring_entry G image_pre si k n ((p # pubs) ! (n - i)) (sg ! n)) [i..<i + length (p # pubs)]
     = ring_entry G image_pre si k i p (sg ! i)
       # map (\<lambda>n. ring_entry G image_pre si k n (pubs ! (n - (i + 1))) (sg ! n)) [i + 1..<i + 1 + length pubs]"
proof -
  show upt: "[i..<i + length (p # pubs)] = i # [i + 1..<i + 1 + length pubs]" by (simp add: upt_conv_Cons del: upt_Suc)
  show "map (\<lambda>n. ring_entry G image_pre si k n ((p # pubs) ! (n - i)) (sg ! n)) [i..<i + length (p # pubs)]
     = ring_entry G image_pre si k i p (sg ! i)
       # map (\<lambda>n. ring_entry G image_pre si k n (pubs ! (n - (i + 1))) (sg ! n)) [i + 1..<i + 1 + length pubs]"
    unfolding upt list.map by (auto simp: nth_Cons' intro!: arg_cong2 [where f = Cons] map_cong simp del: upt_Suc)
qed

lemma ring_post_secret:
  assumes "ring_post G image_pre si (i + 1) pubs (buf @ secret_commit G p k, s, sg0, k) (buf', s', sg, k')"
    "i = si" "uint k < ell"
  shows "ring_post G image_pre si i (p # pubs) (buf, s, sg0, k0) (buf', s', sg, k')"
proof -
  have k: "k' = k" using assms(1, 2) by (simp add: ring_post_def)
  show ?thesis
    using assms unfolding ring_post_def case_prod_conv k unfolding upt_entries(2) unfolding upt_entries(1)
    by (auto simp: ring_entry_def simp del: upt_Suc)
qed

lemma ring_post_other:
  assumes "ring_post G image_pre si (i + 1) pubs (buf @ ring_commit G image_pre p x, residue (uint s + uint (sig_c x)), sg0[i := x], k) (buf', s', sg, k')"
    "i \<noteq> si" "canonical_sig x" "i < length sg0"
  shows "ring_post G image_pre si i (p # pubs) (buf, s, sg0, k) (buf', s', sg, k')"
proof -
  have sgi: "sg ! i = x" using assms by (simp add: ring_post_def)
  have canonical: "canonical_sig (sg ! n)" if "i \<le> n" "n < i + length (p # pubs)" "n \<noteq> si" for n
    using assms(1, 3) sgi that by (cases "n = i") (auto simp: ring_post_def simp del: upt_Suc)
  show ?thesis
    using assms canonical sgi unfolding ring_post_def case_prod_conv unfolding upt_entries(2) unfolding upt_entries(1)
    by (auto simp: ring_entry_def mod_simps add.assoc simp del: upt_Suc split: if_splits)
qed

lemma generate_ring_loop_value:
  assumes "\<forall>p\<in>set pubs. check_key G p" "i + length pubs \<le> length sg0"
  shows "\<exists>st'. generate_ring_loop G image_pre rnd si i pubs (buf, s, sg0, k) drawn = Some st'
    \<and> ring_post G image_pre si i pubs (buf, s, sg0, k) st'"
  using assms
proof (induction pubs arbitrary: i buf s sg0 k drawn)
  case (Cons p pubs)
  have keys: "\<forall>p\<in>set pubs. check_key G p" using Cons.prems(1) by simp
  show ?case
  proof (cases "i = si")
    case True
    define k1 where "k1 = residue (uint (rnd drawn))"
    obtain buf' s' sg k' where rest:
      "generate_ring_loop G image_pre rnd si (i + 1) pubs (buf @ secret_commit G p k1, s, sg0, k1) (drawn + 1) = Some (buf', s', sg, k')"
      "ring_post G image_pre si (i + 1) pubs (buf @ secret_commit G p k1, s, sg0, k1) (buf', s', sg, k')"
      using Cons.IH [OF keys, of "i + 1" sg0 "buf @ secret_commit G p k1" s k1 "drawn + 1"] Cons.prems(2) by auto
    have "generate_ring_loop G image_pre rnd si i (p # pubs) (buf, s, sg0, k) drawn = Some (buf', s', sg, k')"
      using True rest(1) by (simp add: k1_def secret_commit_def Let_def)
    moreover have "ring_post G image_pre si i (p # pubs) (buf, s, sg0, k) (buf', s', sg, k')"
      using rest(2) True by (rule ring_post_secret) (simp add: k1_def)
    ultimately show ?thesis by blast
  next
    case False
    obtain P where P: "ge_frombytes_vartime G p = Some P" using Cons.prems(1) by (auto simp: check_key_def)
    define x where "x = mk_signature (residue (uint (rnd drawn))) (residue (uint (rnd (drawn + 1))))"
    let ?buf = "buf @ ring_commit G image_pre p x" and ?s = "residue (uint s + uint (sig_c x))"
    obtain buf' s' sg k' where rest:
      "generate_ring_loop G image_pre rnd si (i + 1) pubs (?buf, ?s, sg0[i := x], k) (drawn + 2) = Some (buf', s', sg, k')"
      "ring_post G image_pre si (i + 1) pubs (?buf, ?s, sg0[i := x], k) (buf', s', sg, k')"
      using Cons.IH [OF keys, of "i + 1" "sg0[i := x]" ?buf ?s k "drawn + 2"] Cons.prems(2) by auto
    have "generate_ring_loop G image_pre rnd si i (p # pubs) (buf, s, sg0, k) drawn = Some (buf', s', sg, k')"
      using False P rest(1) by (simp add: x_def ring_commit_def Let_def)
    moreover have "ring_post G image_pre si i (p # pubs) (buf, s, sg0, k) (buf', s', sg, k')"
      using Cons.prems(2) by (intro ring_post_other [OF rest(2) False]) (simp_all add: canonical_sig_def x_def)
    ultimately show ?thesis by blast
  qed
qed (auto simp: ring_post_def)

lemma sum_list_update_sum:
  assumes "si < length sg"
  shows "sum_list (map f (sg[si := x])) = f x + sum_list (map (\<lambda>n. f (sg ! n)) (filter (\<lambda>n. n \<noteq> si) [0..<length sg]) :: int list)"
proof -
  have "sum_list (map f (sg[si := x])) = (\<Sum>n<length sg. f (sg[si := x] ! n))"
    by (simp add: sum_list_sum_nth atLeast0LessThan)
  also have "\<dots> = f x + (\<Sum>n\<in>{..<length sg} - {si}. f (sg[si := x] ! n))"
    using assms by (subst sum.remove [of _ si]) auto
  also have "(\<Sum>n\<in>{..<length sg} - {si}. f (sg[si := x] ! n)) = (\<Sum>n\<in>set (filter (\<lambda>n. n \<noteq> si) [0..<length sg]). f (sg ! n))"
    by (intro sum.cong) auto
  also have "\<dots> = sum_list (map (\<lambda>n. f (sg ! n)) (filter (\<lambda>n. n \<noteq> si) [0..<length sg]))"
    by (rule sum_list_distinct_conv_sum_set [symmetric]) simp
  finally show ?thesis .
qed

lemma ring_signature_accepted:
  assumes laws: "curve_laws G B" and si: "si < length pubs" "length sg0 = length pubs"
    and key: "sc_check sec = 0" "pubs ! si = ge_tobytes G (ge_scalarmult_base G sec)"
    and image: "ki = generate_key_image G (pubs ! si) sec" and keys: "\<forall>p\<in>set pubs. check_key G p"
  shows "\<exists>sg. generate_ring_signature G rnd prefix_hash ki pubs sec si sg0 = Some sg
    \<and> check_ring_signature G prefix_hash ki pubs sg = Some True"
proof -
  note law = curve_lawsD [OF laws]
  have sec: "uint sec < ell" using key(1) by (simp add: sc_check_canonical)
  define H where "H = hash_to_ec G (pubs ! si)"
  have H: "nmul (nat ell) H = 0" unfolding H_def hash_to_ec_def by (rule law(9))
  define I where "I = nmul (unat sec) H"
  have ki: "ge_frombytes_vartime G ki = Some I"
    using sec law(1, 3) by (simp add: image generate_key_image_def I_def H_def)
  let ?buf = "bytes_of_word 32 prefix_hash"
  obtain buf s sg k where run: "generate_ring_loop G I rnd si 0 pubs (?buf, 0, sg0, 0) 0 = Some (buf, s, sg, k)"
    and post: "ring_post G I si 0 pubs (?buf, 0, sg0, 0) (buf, s, sg, k)"
    using generate_ring_loop_value [OF keys, of 0 sg0] si(2) by fastforce
  define h where "h = residue (uint (cn_fast_hash buf))"
  define c where "c = residue (uint h - uint s)"
  define r where "r = residue (uint k - uint c * uint sec)"
  define sg' where "sg' = sg[si := mk_signature c r]"
  have gen: "generate_ring_signature G rnd prefix_hash ki pubs sec si sg0 = Some sg'"
    by (simp add: generate_ring_signature_def ki run h_def c_def r_def sg'_def)
  have p: "length sg = length pubs" "uint k < ell" "\<And>n. n < length pubs \<Longrightarrow> n \<noteq> si \<Longrightarrow> canonical_sig (sg ! n)"
    "buf = ?buf @ concat (map (\<lambda>n. ring_entry G I si k n (pubs ! n) (sg ! n)) [0..<length pubs])"
    "uint s mod ell = sum_list (map (\<lambda>n. uint (sig_c (sg ! n))) (filter (\<lambda>n. n \<noteq> si) [0..<length pubs])) mod ell"
    using post si by (simp_all add: ring_post_def)
  have cr: "uint c < ell" "uint r < ell" by (simp_all add: c_def r_def)
  have commit: "ring_commit G I (pubs ! si) (mk_signature c r) = secret_commit G (pubs ! si) k"
    using law(2, 3, 6, 7) cr p(2) key_pair_point [OF laws key] response [OF law(8), of c sec k] response [OF H, of c sec k]
    by (simp add: ring_commit_def secret_commit_def r_def [symmetric] I_def H_def [symmetric] add.commute)
  have "map2 (ring_commit G I) pubs sg' = map (\<lambda>n. ring_entry G I si k n (pubs ! n) (sg ! n)) [0..<length pubs]"
  proof (rule nth_equalityI)
    fix n assume "n < length (map2 (ring_commit G I) pubs sg')"
    then have "n < length pubs" "n < length sg" using p(1) by (simp_all add: sg'_def)
    then show "map2 (ring_commit G I) pubs sg' ! n = map (\<lambda>n. ring_entry G I si k n (pubs ! n) (sg ! n)) [0..<length pubs] ! n"
      using commit by (cases "n = si") (simp_all add: sg'_def ring_entry_def)
  qed (simp add: sg'_def p(1))
  then have buf': "?buf @ concat (map2 (ring_commit G I) pubs sg') = buf" by (simp add: p(4))
  have "canonical_sig (sg' ! n)" if "n < length pubs" for n
    using that p(1, 3) cr by (cases "n = si") (simp_all add: sg'_def canonical_sig_def)
  then have "list_all canonical_sig sg'" using p(1) by (simp add: list_all_length sg'_def)
  then have "check_ring_signature G prefix_hash ki pubs sg'
    = Some ((uint (cn_fast_hash buf) - (0 + sum_list (map (\<lambda>x. uint (sig_c x)) sg'))) mod ell = 0)"
    using check_ring_loop_value [OF keys, of sg' I ?buf 0] p(1) buf' by (simp add: check_ring_signature_def ki sg'_def)
  moreover have "uint (cn_fast_hash buf) mod ell = sum_list (map (\<lambda>x. uint (sig_c x)) sg') mod ell"
  proof -
    have "sum_list (map (\<lambda>x. uint (sig_c x)) sg') mod ell
        = (uint c + sum_list (map (\<lambda>n. uint (sig_c (sg ! n))) (filter (\<lambda>n. n \<noteq> si) [0..<length pubs]))) mod ell"
      unfolding sg'_def using si(1) p(1) by (subst sum_list_update_sum) simp_all
    also have "\<dots> = (uint c + uint s) mod ell" by (metis mod_add_right_eq p(5))
    also have "\<dots> = uint (cn_fast_hash buf) mod ell" by (simp add: c_def h_def mod_simps)
    finally show ?thesis by simp
  qed
  ultimately show ?thesis using gen by (auto simp: mod_eq_dvd_iff dvd_eq_mod_eq_0 [symmetric])
qed

subsection \<open>Stealth addresses\<close>

lemma derivation_shared:
  assumes "curve_laws G B" "sc_check a = 0" "sc_check r = 0"
    "A = ge_tobytes G (ge_scalarmult_base G a)" "R = ge_tobytes G (ge_scalarmult_base G r)"
  shows "generate_key_derivation G A r = generate_key_derivation G R a"
    and "generate_key_derivation G A r \<noteq> None"
  using key_pair_point [OF assms(1, 2, 4)] key_pair_point [OF assms(1, 3, 5)] curve_lawsD(3) [OF assms(1)] assms(2, 3)
  by (simp_all add: generate_key_derivation_def sc_check_canonical nmul_commute)

lemma derived_key_pair:
  assumes "curve_laws G B" "sc_check b = 0" "S = ge_tobytes G (ge_scalarmult_base G b)"
  shows "\<exists>pk sk. derive_public_key G d idx S = Some pk \<and> derive_secret_key d idx b = Some sk
    \<and> sc_check sk = 0 \<and> pk = ge_tobytes G (ge_scalarmult_base G sk)"
proof -
  note law = curve_lawsD [OF assms(1)]
  define h where "h = residue (uint (cn_fast_hash (bytes_of_word 32 d @ write_varint idx)))"
  let ?sk = "residue (uint b + uint h)"
  have "int (unat b + unat h) mod ell = int (unat ?sk) mod ell" by simp
  then have "nmul (unat b + unat h) B = nmul (unat ?sk) B" by (rule nmul_cong_int [OF law(8)])
  then have "ge_add G (nmul (unat b) B) (ge_scalarmult_base G h) = ge_scalarmult_base G ?sk"
    using law(2, 4) by (simp add: nmul_add h_def)
  then show ?thesis
    using key_pair_point [OF assms]
    by (simp add: derive_public_key_def derive_secret_key_def derivation_to_scalar_def sc_check_canonical flip: h_def)
qed

subsection \<open>A group that satisfies the laws\<close>

text \<open>The integers modulo the group order, with 1 as base point.\<close>

typedef zpoint = "{x :: int. 0 \<le> x \<and> x < ell}" morphisms z_rep z_abs
  by (rule exI [of _ 0]) simp

setup_lifting type_definition_zpoint

instantiation zpoint :: ab_group_add
begin

lift_definition zero_zpoint :: zpoint is "0 :: int" by simp

lift_definition plus_zpoint :: "zpoint \<Rightarrow> zpoint \<Rightarrow> zpoint" is "\<lambda>x y. (x + y) mod ell" by simp

lift_definition uminus_zpoint :: "zpoint \<Rightarrow> zpoint" is "\<lambda>x. (- x) mod ell" by simp

lift_definition minus_zpoint :: "zpoint \<Rightarrow> zpoint \<Rightarrow> zpoint" is "\<lambda>x y. (x - y) mod ell" by simp

instance
  by standard (transfer; simp add: mod_simps ac_simps)+

end

lemma z_rep_nmul: "z_rep (nmul n P) = (int n * z_rep P) mod ell"
  by (induction n) (simp_all add: zero_zpoint.rep_eq plus_zpoint.rep_eq mod_simps algebra_simps)

lemma z_rep_bounds: "0 \<le> z_rep P" "z_rep P < ell"
  using z_rep [of P] by simp_all

lemma z_order: "nmul (nat ell) P = (0 :: zpoint)"
  by (rule z_rep_inject [THEN iffD1]) (simp add: z_rep_nmul zero_zpoint.rep_eq less_imp_le)

definition z_base :: zpoint where "z_base = z_abs 1"

definition z_ops :: "zpoint ge_ops" where
  "z_ops = \<lparr>
     ge_frombytes_vartime = (\<lambda>w. if uint w < ell then Some (z_abs (uint w)) else None),
     ge_tobytes = (\<lambda>P. word_of_int (z_rep P)),
     ge_scalarmult_base = (\<lambda>a. nmul (unat a) z_base),
     ge_scalarmult = (\<lambda>a P. nmul (unat a) P),
     ge_add = (+),
     ge_mul8 = nmul 8,
     ge_fromfe_frombytes_vartime = (\<lambda>w. z_abs (uint w mod ell)),
     ge_double_scalarmult_base_vartime = (\<lambda>a P b. nmul (unat a) P + nmul (unat b) z_base),
     ge_double_scalarmult_precomp_vartime = (\<lambda>a P b Q. nmul (unat a) P + nmul (unat b) Q) \<rparr>"

lemma z_laws: "curve_laws z_ops z_base"
proof -
  have "uint (word_of_int (z_rep P) :: 256 word) = z_rep P" for P
    using z_rep_bounds [of P] ell_bounds(2) by (simp add: uint_word_of_int_eq take_bit_int_eq_self)
  then show ?thesis
    using z_rep_bounds by (simp add: curve_laws_def z_ops_def z_order z_rep_inverse)
qed

lemma z_check_key: "check_key z_ops (ge_tobytes z_ops P)"
  using curve_lawsD(1) [OF z_laws] by (simp add: check_key_def)

lemma sc_check_1: "sc_check 1 = 0"
  using ell_bounds(1) by (simp add: sc_check_canonical)

subsection \<open>Properties\<close>

text \<open>
  C3. Completeness of ring signatures: whatever the random numbers, \<open>generate_ring_signature\<close> for a
  secret key whose public key is in the ring, with the key image of that key, never aborts, and
  \<open>check_ring_signature\<close> accepts the result.
\<close>

theorem ring_signature_complete:
  assumes "curve_laws G B" "si < length pubs" "length sg0 = length pubs"
    and "sc_check sec = 0" "pubs ! si = ge_tobytes G (ge_scalarmult_base G sec)"
    and "ki = generate_key_image G (pubs ! si) sec" "\<forall>p\<in>set pubs. check_key G p"
  shows "\<exists>sg. generate_ring_signature G rnd prefix_hash ki pubs sec si sg0 = Some sg
    \<and> check_ring_signature G prefix_hash ki pubs sg = Some True"
  by (rule ring_signature_accepted [OF assms])

theorem ring_signature_complete_witness:
  "let pub = ge_tobytes z_ops (ge_scalarmult_base z_ops 1);
       other = ge_tobytes z_ops (z_base + z_base);
       ki = generate_key_image z_ops pub 1
   in \<exists>sg. generate_ring_signature z_ops of_nat 7 ki [other, pub] 1 1 [0, 0] = Some sg
     \<and> check_ring_signature z_ops 7 ki [other, pub] sg = Some True"
  unfolding Let_def
  by (rule ring_signature_complete [OF z_laws]) (simp_all add: z_check_key sc_check_1)

text \<open>
  A plain signature made with a secret key is accepted for its public key.
\<close>

theorem signature_complete:
  assumes "curve_laws G B" "sc_check sec = 0" "pub = ge_tobytes G (ge_scalarmult_base G sec)"
  shows "\<exists>sg. generate_signature G tmp prefix_hash pub sec = Some sg \<and> check_signature G prefix_hash pub sg = Some True"
  by (rule signature_accepted [OF assms])

theorem signature_complete_witness:
  "\<exists>sg. generate_signature z_ops 5 7 (ge_tobytes z_ops (ge_scalarmult_base z_ops 1)) 1 = Some sg
     \<and> check_signature z_ops 7 (ge_tobytes z_ops (ge_scalarmult_base z_ops 1)) sg = Some True"
  by (rule signature_complete [OF z_laws sc_check_1 refl])

text \<open>
  C33. Stealth addresses: from the view key \<open>A\<close> and spend key \<open>S\<close> of the receiver and the secret
  transaction key \<open>r\<close> the sender derives an output key; from the public transaction key \<open>R\<close> and the
  secret view key \<open>a\<close> the receiver gets the same derivation, and with the secret spend key \<open>b\<close> a
  canonical secret key whose public key is that output key.
\<close>

theorem stealth_output_spendable:
  assumes "curve_laws G B" "sc_check a = 0" "sc_check b = 0" "sc_check r = 0"
    and "A = ge_tobytes G (ge_scalarmult_base G a)" "S = ge_tobytes G (ge_scalarmult_base G b)"
    and "R = ge_tobytes G (ge_scalarmult_base G r)"
  shows "\<exists>d pk sk. generate_key_derivation G A r = Some d \<and> derive_public_key G d n S = Some pk
    \<and> generate_key_derivation G R a = Some d \<and> derive_secret_key d n b = Some sk
    \<and> sc_check sk = 0 \<and> secret_key_to_public_key G sk = Some pk"
proof -
  obtain d where d: "generate_key_derivation G A r = Some d" "generate_key_derivation G R a = Some d"
    using derivation_shared [OF assms(1, 2, 4, 5, 7)] by auto
  then show ?thesis
    using derived_key_pair [OF assms(1, 3, 6), of d n] by (auto simp: secret_key_to_public_key_def)
qed

theorem stealth_output_spendable_witness:
  "\<exists>d pk sk. generate_key_derivation z_ops (ge_tobytes z_ops (ge_scalarmult_base z_ops 1)) 1 = Some d
     \<and> derive_public_key z_ops d 3 (ge_tobytes z_ops (ge_scalarmult_base z_ops 1)) = Some pk
     \<and> generate_key_derivation z_ops (ge_tobytes z_ops (ge_scalarmult_base z_ops 1)) 1 = Some d
     \<and> derive_secret_key d 3 1 = Some sk \<and> sc_check sk = 0 \<and> secret_key_to_public_key z_ops sk = Some pk"
  by (rule stealth_output_spendable [OF z_laws sc_check_1 sc_check_1 sc_check_1 refl refl refl])

end
