(* ===== verification/String_Tools.thy ===== *)
theory String_Tools
  imports Prelude
begin

text \<open>
  The conversions of \<open>contrib/epee/include/string_tools.h\<close> that the node uses: hexadecimal text,
  trimming, and reading an unsigned number. Strings are lists of bytes. Printing a plain struct as
  hexadecimal text and reading it back is the identity; the reader accepts more than the writer
  produces, because \<open>strtoul\<close> skips white space and a sign.
\<close>

text \<open>The bytes of a string literal.\<close>

definition lit :: "string \<Rightarrow> blob" where
  "lit s = map of_char s"

subsection \<open>Hexadecimal text\<close>

text \<open>The two digits that the stream prints for a byte with \<open>hex\<close>, \<open>setw(2)\<close> and \<open>setfill('0')\<close>.\<close>

definition hex_digit :: "nat \<Rightarrow> u8" where
  "hex_digit d = (if d < 10 then of_nat (48 + d) else of_nat (87 + d))"

definition buff_to_hex_nodelimer :: "blob \<Rightarrow> blob" where
  "buff_to_hex_nodelimer s = concat (map (\<lambda>b. [hex_digit (unat b div 16), hex_digit (unat b mod 16)]) s)"

text \<open>\<open>isspace\<close> in the C locale, and the value of a digit for \<open>strtoul\<close> in base 16.\<close>

definition isspace :: "u8 \<Rightarrow> bool" where
  "isspace c \<longleftrightarrow> c = 32 \<or> (9 \<le> c \<and> c \<le> 13)"

definition hex_value :: "u8 \<Rightarrow> nat option" where
  "hex_value c =
     (if 48 \<le> c \<and> c \<le> 57 then Some (unat c - 48)
      else if 97 \<le> c \<and> c \<le> 102 then Some (unat c - 87)
      else if 65 \<le> c \<and> c \<le> 70 then Some (unat c - 55)
      else None)"

text \<open>
  \<open>strtoul (s, endptr, 16)\<close> on at most two characters, as a \<open>long\<close>; \<open>None\<close> when \<open>endptr\<close> is not the end
  of the text. Two characters have no room for a digit after the prefix \<open>0x\<close>. A negated value wraps
  in \<open>unsigned long\<close>, and the conversion to \<open>long\<close> makes it the negative number.
\<close>

definition strtoul_16 :: "blob \<Rightarrow> int option" where
  "strtoul_16 s =
     (let r = dropWhile isspace s;
          neg = (r \<noteq> [] \<and> r ! 0 = 45);
          r = (if r \<noteq> [] \<and> (r ! 0 = 43 \<or> r ! 0 = 45) then drop 1 r else r)
      in if r = [] then None
         else do {
           ds \<leftarrow> those (map hex_value r);
           let v = int (foldl (\<lambda>a d. 16 * a + d) 0 ds);
           Some (if neg then - v else v) })"

fun parse_hexstr_loop :: "blob \<Rightarrow> nat list \<Rightarrow> blob \<Rightarrow> blob option" where
  "parse_hexstr_loop s [] res = Some res"
| "parse_hexstr_loop s (i # is) res = do {
     v \<leftarrow> strtoul_16 (take 2 (drop (2 * i) s));
     if v < 0 \<or> 0xFF < v then None else parse_hexstr_loop s is (res @ [word_of_int v]) }"

definition parse_hexstr_to_binbuff :: "blob \<Rightarrow> blob option" where
  "parse_hexstr_to_binbuff s = parse_hexstr_loop s [0..<(length s + 1) div 2] []"

text \<open>Plain structs of \<open>n\<close> bytes are words of \<open>8 * n\<close> bits.\<close>

definition parse_tpod_from_hex_string :: "nat \<Rightarrow> blob \<Rightarrow> 'a::len word option" where
  "parse_tpod_from_hex_string n str = do {
     buf \<leftarrow> parse_hexstr_to_binbuff str;
     if length buf \<noteq> n then None else Some (word_of_bytes buf) }"

definition pod_to_hex :: "nat \<Rightarrow> 'a::len word \<Rightarrow> blob" where
  "pod_to_hex n s = buff_to_hex_nodelimer (bytes_of_word n s)"

definition trim_left :: "blob \<Rightarrow> blob" where
  "trim_left str = dropWhile isspace str"

definition trim_right :: "blob \<Rightarrow> blob" where
  "trim_right str = rev (dropWhile isspace (rev str))"

definition trim :: "blob \<Rightarrow> blob" where
  "trim str = trim_right (trim_left str)"

definition hex_to_pod :: "nat \<Rightarrow> blob \<Rightarrow> 'a::len word option" where
  "hex_to_pod n hex_str =
     (let hex_str_tr = trim hex_str
      in if n * 2 \<noteq> length hex_str then None
         else do {
           bin_buff \<leftarrow> parse_hexstr_to_binbuff hex_str_tr;
           if length bin_buff \<noteq> n then None else Some (word_of_bytes bin_buff) })"

subsection \<open>Unsigned numbers\<close>

text \<open>
  \<open>get_xtype_from_string\<close> for \<open>uint64_t\<close>. The parameter \<open>lexical_cast\<close> is \<open>boost::lexical_cast\<close>, with
  \<open>None\<close> for the exception.
\<close>

definition isdigit :: "u8 \<Rightarrow> bool" where
  "isdigit c \<longleftrightarrow> 48 \<le> c \<and> c \<le> 57"

definition get_xtype_from_string :: "(blob \<Rightarrow> u64 option) \<Rightarrow> blob \<Rightarrow> u64 option" where
  "get_xtype_from_string lexical_cast str_id = (if list_all isdigit str_id then lexical_cast str_id else None)"

text \<open>The documented behaviour of the cast on decimal digits: their value, when it fits.\<close>

definition dec_value :: "blob \<Rightarrow> nat" where
  "dec_value s = foldl (\<lambda>a c. 10 * a + (unat c - 48)) 0 s"

definition lexical_cast_law :: "(blob \<Rightarrow> u64 option) \<Rightarrow> bool" where
  "lexical_cast_law lexical_cast \<longleftrightarrow>
     (\<forall>s. s \<noteq> [] \<longrightarrow> list_all isdigit s \<longrightarrow>
        lexical_cast s = (if dec_value s < 2 ^ 64 then Some (of_nat (dec_value s)) else None))"

subsection \<open>Lemmas\<close>

lemma length_buff_to_hex [simp]: "length (buff_to_hex_nodelimer s) = 2 * length s"
  by (induction s) (auto simp: buff_to_hex_nodelimer_def)

lemma unat_hex_digit: "d < 16 \<Longrightarrow> unat (hex_digit d) = (if d < 10 then 48 + d else 87 + d)"
  by (auto simp: hex_digit_def unat_of_nat simp del: of_nat_add)

lemma hex_digit_not_special:
  assumes "d < 16"
  shows "\<not> isspace (hex_digit d)" "hex_digit d \<noteq> 43" "hex_digit d \<noteq> 45"
  using unat_hex_digit [OF assms] by (auto simp: isspace_def word_le_nat_alt word_unat_eq_iff split: if_splits)

lemma hex_value_digit: "d < 16 \<Longrightarrow> hex_value (hex_digit d) = Some d"
  using unat_hex_digit [of d] by (simp add: hex_value_def word_le_nat_alt)

lemma strtoul_16_digits:
  assumes "a < 16" "b < 16"
  shows "strtoul_16 [hex_digit a, hex_digit b] = Some (int (16 * a + b))"
  using hex_digit_not_special [OF assms(1)] hex_value_digit [OF assms(1)] hex_value_digit [OF assms(2)]
  by (simp add: strtoul_16_def)

lemma take_hex: "take 2 (drop (2 * length p) (buff_to_hex_nodelimer (p @ b # s))) =
    [hex_digit (unat b div 16), hex_digit (unat b mod 16)]"
proof -
  have "buff_to_hex_nodelimer (p @ b # s) = buff_to_hex_nodelimer p
      @ [hex_digit (unat b div 16), hex_digit (unat b mod 16)] @ buff_to_hex_nodelimer s"
    by (simp add: buff_to_hex_nodelimer_def)
  then show ?thesis by simp
qed

lemma parse_hexstr_loop_hex:
  "parse_hexstr_loop (buff_to_hex_nodelimer (p @ s)) [length p..<length p + length s] res = Some (res @ s)"
proof (induction s arbitrary: p res)
  case (Cons b s)
  have b: "16 * (unat b div 16) + unat b mod 16 = unat b" by simp
  have "unat b div 16 < 16" using unat_lt_8 [of b] by linarith
  then have "strtoul_16 (take 2 (drop (2 * length p) (buff_to_hex_nodelimer (p @ b # s)))) = Some (uint b)"
    unfolding take_hex using strtoul_16_digits [of "unat b div 16" "unat b mod 16"] unfolding b by simp
  moreover have "[length p..<length p + length (b # s)] = length p # [length (p @ [b])..<length (p @ [b]) + length s]"
    by (simp add: upt_rec [of "length p"] Suc_le_eq)
  moreover have "uint b < 256" using unsigned_less [of b, where ?'a = int] by simp
  ultimately show ?case using Cons [of "p @ [b]" "res @ [b]"] by simp
qed simp

lemma parse_hexstr_buff_to_hex: "parse_hexstr_to_binbuff (buff_to_hex_nodelimer s) = Some s"
  using parse_hexstr_loop_hex [of "[]" s "[]"] by (simp add: parse_hexstr_to_binbuff_def)

lemma trim_hex: "trim (buff_to_hex_nodelimer s) = buff_to_hex_nodelimer s"
proof -
  have *: "list_all (\<lambda>c. \<not> isspace c) (buff_to_hex_nodelimer s)"
  proof -
    have "unat b div 16 < 16" for b :: u8 using unat_lt_8 [of b] by linarith
    then show ?thesis by (auto simp: buff_to_hex_nodelimer_def list_all_iff hex_digit_not_special)
  qed
  have keep: "dropWhile isspace xs = xs" if "list_all (\<lambda>c. \<not> isspace c) xs" for xs
    using that by (cases xs) auto
  show ?thesis
    using * keep [of "rev (buff_to_hex_nodelimer s)"] by (simp add: trim_def trim_left_def trim_right_def keep list_all_iff)
qed

lemma length_pod_to_hex [simp]: "length (pod_to_hex n w) = 2 * n"
  by (simp add: pod_to_hex_def)

lemma hex_to_pod_pod_to_hex: "LENGTH('a::len) = 8 * n \<Longrightarrow> hex_to_pod n (pod_to_hex n (w :: 'a word)) = Some w"
  by (simp add: hex_to_pod_def pod_to_hex_def trim_hex parse_hexstr_buff_to_hex power_mult)

lemma parse_tpod_pod_to_hex:
  "LENGTH('a::len) = 8 * n \<Longrightarrow> parse_tpod_from_hex_string n (pod_to_hex n (w :: 'a word)) = Some w"
  by (simp add: parse_tpod_from_hex_string_def pod_to_hex_def parse_hexstr_buff_to_hex power_mult)

lemma foldl_dec_value: "foldl (\<lambda>a c. 10 * a + (unat c - 48)) a s = a * 10 ^ length s + dec_value (s :: blob)"
proof (induction s rule: rev_induct)
  case Nil
  then show ?case by (simp add: dec_value_def)
next
  case (snoc c s)
  then show ?case by (simp add: dec_value_def algebra_simps)
qed

lemma dec_value_append: "dec_value (s @ t) = dec_value s * 10 ^ length t + dec_value t"
  using foldl_dec_value [of "dec_value s" t] by (simp add: dec_value_def)

lemma dec_value_zeros [simp]: "dec_value (replicate n 48) = 0"
  by (induction n) (auto simp: dec_value_def)

end
