(* ===== verification/Format_Utils.thy ===== *)
theory Format_Utils
  imports Tx_Extra Tree_Hash Emission Base58 Crypto String_Tools
begin

text \<open>
  \<open>src/cryptonote_core/cryptonote_format_utils.cpp\<close> (and \<open>.h\<close>) and the address functions of
  \<open>cryptonote_basic_impl.cpp\<close>: identifiers of transactions and blocks, checks on amounts, fees, output
  offsets, amounts and addresses as text, and the decomposition of an amount into digits. The slow
  hash is a parameter. The construction of transactions is in \<^theory_text>\<open>Tx_Construct\<close>.
\<close>

subsection \<open>Blobs and hashes\<close>

definition tx_to_blob :: "transaction \<Rightarrow> blob" where
  "tx_to_blob tx = fst (wr_transaction tx)"

definition block_to_blob :: "block \<Rightarrow> blob" where
  "block_to_blob b = fst (wr_block b)"

definition get_blob_hash :: "blob \<Rightarrow> hash" where
  "get_blob_hash b = cn_fast_hash b"

definition get_object_blobsize :: "transaction \<Rightarrow> nat" where
  "get_object_blobsize tx = length (tx_to_blob tx)"

definition get_transaction_prefix_hash :: "transaction \<Rightarrow> hash" where
  "get_transaction_prefix_hash tx = cn_fast_hash (fst (wr_transaction_prefix tx))"

definition get_transaction_hash :: "transaction \<Rightarrow> hash" where
  "get_transaction_hash tx = get_blob_hash (tx_to_blob tx)"

definition parse_and_validate_tx_from_blob :: "blob \<Rightarrow> (transaction \<times> hash \<times> hash) option" where
  "parse_and_validate_tx_from_blob tx_blob = do {
     tx \<leftarrow> parse_all rd_transaction tx_blob;
     Some (tx, cn_fast_hash tx_blob, get_transaction_prefix_hash tx) }"

definition parse_and_validate_block_from_blob :: "blob \<Rightarrow> block option" where
  "parse_and_validate_block_from_blob b_blob = parse_all rd_block b_blob"

text \<open>\<open>h\<close> keeps its initial value, the null hash, where \<open>tree_hash\<close> is undefined.\<close>

definition get_tx_tree_hash :: "hash list \<Rightarrow> hash" where
  "get_tx_tree_hash hashes = (case tree_hash hashes of None \<Rightarrow> null_hash | Some h \<Rightarrow> h)"

definition block_tx_ids :: "block \<Rightarrow> hash list" where
  "block_tx_ids b = get_transaction_hash (miner_tx b) # tx_hashes b"

definition get_block_tree_hash :: "block \<Rightarrow> hash" where
  "get_block_tree_hash b = get_tx_tree_hash (block_tx_ids b)"

definition get_block_hashing_blob :: "block \<Rightarrow> blob" where
  "get_block_hashing_blob b =
     fst (wr_block_header b) @ bytes_of_word 32 (get_block_tree_hash b)
       @ get_varint_data (length (tx_hashes b) + 1)"

text \<open>The two hexadecimal constants of the exception for block 202612, as bytes.\<close>

definition correct_blob_hash_202612 :: hash where
  "correct_blob_hash_202612 = word_of_bytes
    [0x3a, 0x8a, 0x2b, 0x3a, 0x29, 0xb5, 0x0f, 0xc8, 0x6f, 0xf7, 0x3d, 0xd0, 0x87, 0xea, 0x43, 0xc6,
     0xf0, 0xd6, 0xb8, 0xf9, 0x36, 0xc8, 0x49, 0x19, 0x4d, 0x5c, 0x84, 0xc7, 0x37, 0x90, 0x39, 0x66]"

definition existing_block_id_202612 :: hash where
  "existing_block_id_202612 = word_of_bytes
    [0xbb, 0xd6, 0x04, 0xd2, 0xba, 0x11, 0xba, 0x27, 0x93, 0x5e, 0x00, 0x6e, 0xd3, 0x9c, 0x9b, 0xfd,
     0xd9, 0x9b, 0x76, 0xbf, 0x4a, 0x50, 0x65, 0x4b, 0xc1, 0xe1, 0xe6, 0x12, 0x17, 0x96, 0x26, 0x98]"

definition longhash_202612 :: hash where
  "longhash_202612 = word_of_bytes
    [0x84, 0xf6, 0x47, 0x66, 0x47, 0x5d, 0x51, 0x83, 0x7a, 0xc9, 0xef, 0xbe, 0xf1, 0x92, 0x64, 0x86,
     0xe5, 0x85, 0x63, 0xc9, 0x5a, 0x19, 0xfe, 0xf4, 0xae, 0xc3, 0x25, 0x4f, 0x03, 0x00, 0x00, 0x00]"

text \<open>
  \<open>get_object_hash\<close> serializes the hashing blob once more, as a string with its length in front. The
  result is the return value and \<open>res\<close>.
\<close>

definition get_block_hash_res :: "block \<Rightarrow> bool \<times> hash" where
  "get_block_hash_res b =
     (if get_blob_hash (block_to_blob b) = correct_blob_hash_202612 then (True, existing_block_id_202612)
      else
        let res = get_blob_hash (fst (wr_string (get_block_hashing_blob b)))
        in if res = existing_block_id_202612 then (False, null_hash) else (True, res))"

definition get_block_hash :: "block \<Rightarrow> hash" where
  "get_block_hash b = snd (get_block_hash_res b)"

definition get_block_longhash :: "(blob \<Rightarrow> hash) \<Rightarrow> block \<Rightarrow> u64 \<Rightarrow> hash" where
  "get_block_longhash cn_slow_hash b height =
     (if height = 202612 then longhash_202612 else cn_slow_hash (get_block_hashing_blob b))"

definition get_block_height :: "block \<Rightarrow> u64" where
  "get_block_height b =
     (if length (vin (miner_tx b)) \<noteq> 1 then 0
      else case vin (miner_tx b) ! 0 of txin_gen height \<Rightarrow> height | _ \<Rightarrow> 0)"

definition is_coinbase :: "transaction \<Rightarrow> bool" where
  "is_coinbase tx \<longleftrightarrow> length (vin tx) = 1 \<and> (case vin tx ! 0 of txin_gen h \<Rightarrow> True | _ \<Rightarrow> False)"

subsection \<open>Amounts\<close>

fun is_txin_to_key :: "txin \<Rightarrow> bool" where
  "is_txin_to_key (txin_to_key a offs k) = True"
| "is_txin_to_key _ = False"

definition check_inputs_types_supported :: "transaction \<Rightarrow> bool" where
  "check_inputs_types_supported tx = list_all is_txin_to_key (vin tx)"

definition check_outs_valid :: "'p ge_ops \<Rightarrow> transaction \<Rightarrow> bool" where
  "check_outs_valid G tx =
     list_all (\<lambda>out. case target out of
        txout_to_key key \<Rightarrow> 0 < amount out \<and> check_key G key
      | _ \<Rightarrow> False) (vout tx)"

fun check_inputs_overflow_loop :: "u64 \<Rightarrow> txin list \<Rightarrow> bool" where
  "check_inputs_overflow_loop money [] = True"
| "check_inputs_overflow_loop money (txin_to_key amt offs k # ins) =
     (if money > amt + money then False else check_inputs_overflow_loop (money + amt) ins)"
| "check_inputs_overflow_loop money (_ # ins) = False"

definition check_inputs_overflow :: "transaction \<Rightarrow> bool" where
  "check_inputs_overflow tx = check_inputs_overflow_loop 0 (vin tx)"

fun check_outs_overflow_loop :: "u64 \<Rightarrow> tx_out list \<Rightarrow> bool" where
  "check_outs_overflow_loop money [] = True"
| "check_outs_overflow_loop money (out # outs) =
     (if money > amount out + money then False else check_outs_overflow_loop (money + amount out) outs)"

definition check_outs_overflow :: "transaction \<Rightarrow> bool" where
  "check_outs_overflow tx = check_outs_overflow_loop 0 (vout tx)"

definition check_money_overflow :: "transaction \<Rightarrow> bool" where
  "check_money_overflow tx \<longleftrightarrow> check_inputs_overflow tx \<and> check_outs_overflow tx"

definition get_outs_money_amount :: "transaction \<Rightarrow> u64" where
  "get_outs_money_amount tx = fold (\<lambda>out s. s + amount out) (vout tx) 0"

fun get_inputs_money_loop :: "u64 \<Rightarrow> txin list \<Rightarrow> u64 option" where
  "get_inputs_money_loop money [] = Some money"
| "get_inputs_money_loop money (txin_to_key amt offs k # ins) = get_inputs_money_loop (money + amt) ins"
| "get_inputs_money_loop money (_ # ins) = None"

definition get_inputs_money_amount :: "transaction \<Rightarrow> u64 option" where
  "get_inputs_money_amount tx = get_inputs_money_loop 0 (vin tx)"

definition get_tx_fee_opt :: "transaction \<Rightarrow> u64 option" where
  "get_tx_fee_opt tx = do {
     amount_in \<leftarrow> get_inputs_money_loop 0 (vin tx);
     let amount_out = get_outs_money_amount tx;
     if amount_in \<ge> amount_out then Some (amount_in - amount_out) else None }"

definition get_tx_fee :: "transaction \<Rightarrow> u64" where
  "get_tx_fee tx = (case get_tx_fee_opt tx of None \<Rightarrow> 0 | Some fee \<Rightarrow> fee)"

subsection \<open>Output offsets\<close>

definition relative_output_offsets_to_absolute :: "u64 list \<Rightarrow> u64 list" where
  "relative_output_offsets_to_absolute off =
     fold (\<lambda>i res. res[i := res ! i + res ! (i - 1)]) [1..<length off] off"

definition absolute_output_offsets_to_relative :: "u64 list \<Rightarrow> u64 list" where
  "absolute_output_offsets_to_relative off =
     (if off = [] then off
      else fold (\<lambda>i res. res[i := res ! i - res ! (i - 1)]) (rev [1..<length off]) (sort off))"

subsection \<open>Decomposition of an amount\<close>

text \<open>The calls of the two handlers, in their order.\<close>

datatype chunk = Chunk u64 | Dust u64

lemma div_10_less [termination_simp]: "num \<noteq> 0 \<Longrightarrow> unat (num div 10 :: u64) < unat num"
  by (simp add: unat_div unat_gt_0)

function decompose_loop :: "u64 \<Rightarrow> u64 \<Rightarrow> u64 \<Rightarrow> u64 \<Rightarrow> bool \<Rightarrow> chunk list" where
  "decompose_loop dust_threshold amt order dust is_dust_handled =
     (if amt \<noteq> 0 then
        let chunk = (amt mod 10) * order;
            amt' = amt div 10;
            order' = order * 10
        in if dust + chunk \<le> dust_threshold
           then decompose_loop dust_threshold amt' order' (dust + chunk) is_dust_handled
           else
             let handle = (\<not> is_dust_handled \<and> dust \<noteq> 0)
             in (if handle then [Dust dust] else []) @ (if chunk \<noteq> 0 then [Chunk chunk] else [])
                  @ decompose_loop dust_threshold amt' order' dust (is_dust_handled \<or> handle)
      else if \<not> is_dust_handled \<and> dust \<noteq> 0 then [Dust dust] else [])"
  by pat_completeness auto
termination by (relation "measure (\<lambda>(t, a, o', d, h). unat a)") (auto simp: div_10_less)

declare decompose_loop.simps [simp del]

definition decompose_amount_into_digits :: "u64 \<Rightarrow> u64 \<Rightarrow> chunk list" where
  "decompose_amount_into_digits amt dust_threshold =
     (if amt = 0 then [] else decompose_loop dust_threshold amt 1 0 False)"


subsection \<open>Amounts as text\<close>

definition CRYPTONOTE_DISPLAY_DECIMAL_POINT :: nat where "CRYPTONOTE_DISPLAY_DECIMAL_POINT = 12"

text \<open>The multiplications of the loop of \<open>power_integral\<close> for \<open>i\<close> from 1 up to \<open>b\<close>.\<close>

definition power_integral :: "u64 \<Rightarrow> u64 \<Rightarrow> u64" where
  "power_integral a b = (if b = 0 then 1 else ((\<lambda>total. total * a) ^^ (unat b - 1)) a)"

text \<open>\<open>std::to_string\<close> of an unsigned number.\<close>

fun to_string :: "nat \<Rightarrow> blob" where
  "to_string n = (if n < 10 then [of_nat (48 + n)] else to_string (n div 10) @ [of_nat (48 + n mod 10)])"

declare to_string.simps [simp del]

definition print_money :: "u64 \<Rightarrow> blob" where
  "print_money amt =
     (let s = to_string (unat amt);
          s = (if length s < CRYPTONOTE_DISPLAY_DECIMAL_POINT + 1
               then replicate (CRYPTONOTE_DISPLAY_DECIMAL_POINT + 1 - length s) 48 @ s else s);
          pos = length s - CRYPTONOTE_DISPLAY_DECIMAL_POINT
      in take pos s @ 46 # drop pos s)"

text \<open>
  \<open>boost_trim\<close> is \<open>boost::algorithm::trim\<close> and \<open>lexical_cast\<close> is \<open>boost::lexical_cast\<close>. The loop that
  drops superfluous zeros after the point works on the text and the number of digits after the point.
\<close>

function drop_zeros :: "blob \<Rightarrow> nat \<Rightarrow> blob \<times> nat" where
  "drop_zeros str fraction_size =
     (if CRYPTONOTE_DISPLAY_DECIMAL_POINT < fraction_size \<and> last str = 48
      then drop_zeros (butlast str) (fraction_size - 1) else (str, fraction_size))"
  by pat_completeness auto
termination by (relation "measure snd") auto

declare drop_zeros.simps [simp del]

definition parse_amount :: "(blob \<Rightarrow> blob) \<Rightarrow> (blob \<Rightarrow> u64 option) \<Rightarrow> blob \<Rightarrow> u64 option" where
  "parse_amount boost_trim lexical_cast str_amount =
     (let str = boost_trim str_amount;
          point_index = length (takeWhile (\<lambda>c. c \<noteq> 46) str)
      in do {
        (str, fraction_size) \<leftarrow>
          (if point_index < length str then
             let (str, fraction_size) = drop_zeros str (length str - point_index - 1)
             in if CRYPTONOTE_DISPLAY_DECIMAL_POINT < fraction_size then None
                else Some (take point_index str @ drop (point_index + 1) str, fraction_size)
           else Some (str, 0));
        if str = [] then None
        else get_xtype_from_string lexical_cast
          (if fraction_size < CRYPTONOTE_DISPLAY_DECIMAL_POINT
           then str @ replicate (CRYPTONOTE_DISPLAY_DECIMAL_POINT - fraction_size) 48 else str) })"

definition short_hash_str :: "hash \<Rightarrow> blob" where
  "short_hash_str h =
     (let res = pod_to_hex 32 h
      in if length res \<noteq> 64 then res
         else let res = take 8 res @ drop 56 res in take 8 res @ [46, 46, 46, 46] @ drop 8 res)"

definition parse_hash256 :: "blob \<Rightarrow> hash option" where
  "parse_hash256 str_hash = do {
     buf \<leftarrow> parse_hexstr_to_binbuff str_hash;
     if length buf \<noteq> 32 then None else Some (word_of_bytes buf) }"

subsection \<open>Addresses as text\<close>

definition CRYPTONOTE_PUBLIC_ADDRESS_BASE58_PREFIX :: u64 where "CRYPTONOTE_PUBLIC_ADDRESS_BASE58_PREFIX = 18"
definition TESTNET_PUBLIC_ADDRESS_BASE58_PREFIX :: u64 where "TESTNET_PUBLIC_ADDRESS_BASE58_PREFIX = 53"
definition CRYPTONOTE_PUBLIC_ADDRESS_TEXTBLOB_VER :: u8 where "CRYPTONOTE_PUBLIC_ADDRESS_TEXTBLOB_VER = 0"

record public_address_outer_blob =
  m_ver :: u8
  m_address :: account_public_address
  check_sum :: u8

text \<open>The bytes of the packed struct, and the struct at the start of a buffer.\<close>

definition outer_blob_bytes :: "public_address_outer_blob \<Rightarrow> blob" where
  "outer_blob_bytes bl =
     m_ver bl # bytes_of_word 32 (m_spend_public_key (m_address bl))
       @ bytes_of_word 32 (m_view_public_key (m_address bl)) @ [check_sum bl]"

definition outer_blob_of_bytes :: "blob \<Rightarrow> public_address_outer_blob" where
  "outer_blob_of_bytes buf =
     \<lparr>m_ver = buf ! 0,
      m_address = \<lparr>m_spend_public_key = word_of_bytes (take 32 (drop 1 buf)),
                   m_view_public_key = word_of_bytes (take 32 (drop 33 buf))\<rparr>,
      check_sum = buf ! 65\<rparr>"

definition get_account_address_checksum :: "public_address_outer_blob \<Rightarrow> u8" where
  "get_account_address_checksum bl = fold (\<lambda>i summ. summ + outer_blob_bytes bl ! i) [0..<65] 0"

definition address_prefix :: "bool \<Rightarrow> u64" where
  "address_prefix testnet =
     (if testnet then TESTNET_PUBLIC_ADDRESS_BASE58_PREFIX else CRYPTONOTE_PUBLIC_ADDRESS_BASE58_PREFIX)"

definition get_account_address_as_str :: "bool \<Rightarrow> account_public_address \<Rightarrow> blob option" where
  "get_account_address_as_str testnet adr = encode_addr (address_prefix testnet) (fst (wr_account_public_address adr))"

definition get_account_address_from_str :: "'p ge_ops \<Rightarrow> bool \<Rightarrow> blob \<Rightarrow> account_public_address option" where
  "get_account_address_from_str G testnet str =
     (if 2 * 66 \<noteq> length str then do {
        (prefix, data) \<leftarrow> decode_addr str;
        if address_prefix testnet \<noteq> prefix then None
        else do {
          adr \<leftarrow> parse_all rd_account_public_address data;
          if \<not> check_key G (m_spend_public_key adr) \<or> \<not> check_key G (m_view_public_key adr) then None
          else Some adr } }
      else do {
        buff \<leftarrow> parse_hexstr_to_binbuff str;
        if length buff \<noteq> 66 then None
        else
          let bl = outer_blob_of_bytes buff
          in if CRYPTONOTE_PUBLIC_ADDRESS_TEXTBLOB_VER < m_ver bl then None
             else if check_sum bl \<noteq> get_account_address_checksum bl then None
             else Some (m_address bl) })"


subsection \<open>Sums of amounts\<close>

fun in_amount :: "txin \<Rightarrow> nat" where
  "in_amount (txin_to_key a offs k) = unat a"
| "in_amount _ = 0"

definition sum_inputs :: "transaction \<Rightarrow> nat" where
  "sum_inputs tx = sum_list (map in_amount (vin tx))"

definition sum_outputs :: "transaction \<Rightarrow> nat" where
  "sum_outputs tx = sum_list (map (\<lambda>out. unat (amount out)) (vout tx))"

lemma add_wraps_iff: "(m :: u64) > a + m \<longleftrightarrow> 2 ^ 64 \<le> unat m + unat a"
  using add_overflow_iff [of m a] by (simp add: add.commute)

lemma unat_add_64: "unat m + unat a < 2 ^ 64 \<Longrightarrow> unat (m + a :: u64) = unat m + unat a"
  by (rule unat_add_no_overflow) simp

lemma check_inputs_overflow_loop_iff:
  "check_inputs_overflow_loop money ins \<longleftrightarrow>
     list_all is_txin_to_key ins \<and> unat money + sum_list (map in_amount ins) < 2 ^ 64"
proof (induction money ins rule: check_inputs_overflow_loop.induct)
  case (2 money amt offs k ins)
  show ?case
  proof (cases "2 ^ 64 \<le> unat money + unat amt")
    case True
    then show ?thesis using add_wraps_iff [of amt money] by auto
  next
    case False
    then show ?thesis using 2 add_wraps_iff [of amt money] unat_add_64 [of money amt] by (simp add: add.assoc)
  qed
qed auto

lemma check_outs_overflow_loop_iff:
  "check_outs_overflow_loop money outs \<longleftrightarrow>
     unat money + sum_list (map (\<lambda>out. unat (amount out)) outs) < 2 ^ 64"
proof (induction money outs rule: check_outs_overflow_loop.induct)
  case (2 money out outs)
  show ?case
  proof (cases "2 ^ 64 \<le> unat money + unat (amount out)")
    case True
    then show ?thesis using add_wraps_iff [of "amount out" money] by auto
  next
    case False
    then show ?thesis using 2 add_wraps_iff [of "amount out" money] unat_add_64 [of money "amount out"]
      by (simp add: add.assoc)
  qed
qed auto

lemma check_money_overflow_iff:
  "check_money_overflow tx \<longleftrightarrow> list_all is_txin_to_key (vin tx) \<and> sum_inputs tx < 2 ^ 64 \<and> sum_outputs tx < 2 ^ 64"
  by (auto simp: check_money_overflow_def check_inputs_overflow_def check_outs_overflow_def
      check_inputs_overflow_loop_iff check_outs_overflow_loop_iff sum_inputs_def sum_outputs_def)

lemma get_inputs_money_loop_sum:
  "list_all is_txin_to_key ins \<Longrightarrow> unat money + sum_list (map in_amount ins) < 2 ^ 64 \<Longrightarrow>
   \<exists>m. get_inputs_money_loop money ins = Some m \<and> unat m = unat money + sum_list (map in_amount ins)"
proof (induction money ins rule: get_inputs_money_loop.induct)
  case (2 money amt offs k ins)
  then have "unat (money + amt) = unat money + unat amt" by (intro unat_add_64) simp
  with 2 show ?case by (auto simp: add.assoc)
qed auto

lemma fold_outs_sum:
  "unat money + sum_list (map (\<lambda>out. unat (amount out)) outs) < 2 ^ 64 \<Longrightarrow>
   unat (fold (\<lambda>out s. s + amount out) outs money) = unat money + sum_list (map (\<lambda>out. unat (amount out)) outs)"
proof (induction outs arbitrary: money)
  case (Cons out outs)
  then have "unat (money + amount out) = unat money + unat (amount out)" by (intro unat_add_64) simp
  with Cons show ?case by (simp add: add.assoc)
qed simp

lemma get_outs_money_amount_sum: "sum_outputs tx < 2 ^ 64 \<Longrightarrow> unat (get_outs_money_amount tx) = sum_outputs tx"
  using fold_outs_sum [of 0 "vout tx"] by (simp add: get_outs_money_amount_def sum_outputs_def)

lemma get_tx_fee_opt_value:
  assumes "check_money_overflow tx"
  shows "map_option unat (get_tx_fee_opt tx) =
    (if sum_outputs tx \<le> sum_inputs tx then Some (sum_inputs tx - sum_outputs tx) else None)"
proof -
  have s: "list_all is_txin_to_key (vin tx)" "sum_inputs tx < 2 ^ 64" "sum_outputs tx < 2 ^ 64"
    using assms by (auto simp: check_money_overflow_iff)
  obtain m where m: "get_inputs_money_loop 0 (vin tx) = Some m" "unat m = sum_inputs tx"
    using get_inputs_money_loop_sum [of "vin tx" 0] s by (auto simp: sum_inputs_def)
  show ?thesis
    using m get_outs_money_amount_sum [OF s(3)]
    by (simp add: get_tx_fee_opt_def Let_def word_le_nat_alt unat_sub)
qed

subsection \<open>Offsets\<close>

text \<open>Prefix sums and differences, as the loops compute them from left to right and right to left.\<close>

fun psums :: "u64 \<Rightarrow> u64 list \<Rightarrow> u64 list" where
  "psums a [] = []"
| "psums a (x # xs) = (a + x) # psums (a + x) xs"

fun diffs :: "u64 \<Rightarrow> u64 list \<Rightarrow> u64 list" where
  "diffs a [] = []"
| "diffs a (x # xs) = (x - a) # diffs x xs"

lemma length_psums [simp]: "length (psums a xs) = length xs"
  by (induction xs arbitrary: a) auto

lemma length_diffs [simp]: "length (diffs a xs) = length xs"
  by (induction xs arbitrary: a) auto

lemma psums_diffs: "psums a (diffs a xs) = xs"
  by (induction xs arbitrary: a) auto

lemma diffs_psums: "diffs a (psums a xs) = xs"
  by (induction xs arbitrary: a) auto

lemma nth_psums_Suc: "Suc i < length xs \<Longrightarrow> psums a xs ! Suc i = psums a xs ! i + xs ! Suc i"
proof (induction xs arbitrary: a i)
  case (Cons x xs)
  then show ?case by (cases i; cases xs) (auto simp: add.commute)
qed simp

lemma nth_diffs: "i < length xs \<Longrightarrow> diffs a xs ! i = xs ! i - (if i = 0 then a else xs ! (i - 1))"
proof (induction xs arbitrary: a i)
  case (Cons x xs)
  then show ?case by (cases i) auto
qed simp

lemma relative_to_absolute_psums: "relative_output_offsets_to_absolute off = psums 0 off"
proof -
  let ?f = "\<lambda>i res. res[i := res ! i + res ! (i - 1)]"
  have "length (fold ?f [1..<Suc n] off) = length off
      \<and> (\<forall>j < length off. fold ?f [1..<Suc n] off ! j = (if j \<le> n then psums 0 off ! j else off ! j))"
    if "Suc n \<le> length off" for n
    using that
  proof (induction n)
    case 0
    then show ?case by (cases off) auto
  next
    case (Suc n)
    define g where "g = fold ?f [1..<Suc n] off"
    have IH: "length g = length off" "\<And>j. j < length off \<Longrightarrow> g ! j = (if j \<le> n then psums 0 off ! j else off ! j)"
      using Suc unfolding g_def by (auto simp del: upt_Suc)
    have step: "fold ?f [1..<Suc (Suc n)] off = g[Suc n := g ! Suc n + g ! n]" by (simp add: g_def)
    show ?case
      unfolding step using IH Suc.prems nth_psums_Suc [of n off 0] by (auto simp: nth_list_update le_Suc_eq add.commute)
  qed
  note loop = this
  show ?thesis
  proof (cases off)
    case Nil
    then show ?thesis by (simp add: relative_output_offsets_to_absolute_def)
  next
    case (Cons x xs)
    then show ?thesis
      using loop [of "length xs"] unfolding relative_output_offsets_to_absolute_def
      by (intro nth_equalityI) (auto simp del: upt_Suc)
  qed
qed

lemma absolute_to_relative_diffs: "absolute_output_offsets_to_relative off = diffs 0 (sort off)"
proof -
  let ?f = "\<lambda>i res. res[i := res ! i - res ! (i - 1)]"
  have loop: "length (fold ?f (rev [Suc k..<Suc n]) xs) = length xs
      \<and> (\<forall>j < length xs. fold ?f (rev [Suc k..<Suc n]) xs ! j = (if k < j \<and> j \<le> n then diffs 0 xs ! j else xs ! j))"
    if "n < length xs" "k \<le> n" for k n and xs :: "u64 list"
    using that
  proof (induction "n - k" arbitrary: k)
    case 0
    then show ?case by auto
  next
    case (Suc m)
    then have k: "Suc k \<le> n" by simp
    have split: "rev [Suc k..<Suc n] = rev [Suc (Suc k)..<Suc n] @ [Suc k]" using k by (simp add: upt_conv_Cons)
    have IH: "length (fold ?f (rev [Suc (Suc k)..<Suc n]) xs) = length xs"
        "\<And>j. j < length xs \<Longrightarrow> fold ?f (rev [Suc (Suc k)..<Suc n]) xs ! j = (if Suc k < j \<and> j \<le> n then diffs 0 xs ! j else xs ! j)"
      using Suc.hyps(1) [of "Suc k"] Suc.hyps(2) Suc.prems k by auto
    show ?case
      using IH Suc.prems k nth_diffs [of "Suc k" xs 0] unfolding split
      by (auto simp: nth_list_update simp del: upt_Suc)
  qed
  show ?thesis
  proof (cases "off = []")
    case True
    then show ?thesis by (simp add: absolute_output_offsets_to_relative_def)
  next
    case False
    then obtain n where n: "length off = Suc n" by (cases off) auto
    have "fold ?f (rev [1..<length off]) (sort off) = diffs 0 (sort off)"
      using loop [of n "sort off" 0] n nth_diffs [of 0 "sort off" 0]
      by (intro nth_equalityI) (auto simp del: upt_Suc simp: less_Suc_eq_le)
    then show ?thesis using False by (simp add: absolute_output_offsets_to_relative_def)
  qed
qed

subsection \<open>The digits of an amount\<close>

fun chunk_amount :: "chunk \<Rightarrow> u64" where
  "chunk_amount (Chunk a) = a"
| "chunk_amount (Dust a) = a"

definition chunk_total :: "chunk list \<Rightarrow> nat" where
  "chunk_total cs = sum_list (map (\<lambda>c. unat (chunk_amount c)) cs)"

lemma chunk_total_simps [simp]:
  "chunk_total [] = 0" "chunk_total (c # cs) = unat (chunk_amount c) + chunk_total cs"
  "chunk_total (cs @ ds) = chunk_total cs + chunk_total ds"
  by (simp_all add: chunk_total_def)

lemma unat_div_10: "unat (amt div 10 :: u64) = unat amt div 10"
  by (simp add: unat_div)

lemma decompose_step:
  fixes amt dust order :: u64
  assumes "unat amt * 10 ^ k + unat dust < 2 ^ 64" and "unat order = 10 ^ k"
  shows decompose_bound: "unat amt div 10 * 10 ^ Suc k + unat amt mod 10 * 10 ^ k + unat dust < 2 ^ 64"
    and decompose_chunk: "unat ((amt mod 10) * order) = unat amt mod 10 * 10 ^ k"
    and decompose_dust: "unat (dust + (amt mod 10) * order) = unat dust + unat amt mod 10 * 10 ^ k"
    and decompose_order: "amt div 10 \<noteq> 0 \<Longrightarrow> unat (order * 10) = 10 ^ Suc k"
proof -
  define d a where "d = unat amt mod 10" and "a = unat amt div 10"
  have "unat amt = 10 * a + d" by (simp add: d_def a_def)
  then have "unat amt * 10 ^ k = a * 10 ^ Suc k + d * 10 ^ k" by (simp add: algebra_simps)
  then have bound: "a * 10 ^ Suc k + d * 10 ^ k + unat dust < 2 ^ 64" using assms(1) by simp
  have chunk: "unat ((amt mod 10) * order) = d * 10 ^ k"
    using bound assms(2) by (subst unat_mult_no_overflow) (auto simp: unat_mod d_def)
  have "unat (dust + (amt mod 10) * order) = unat dust + d * 10 ^ k"
    using bound chunk by (subst unat_add_no_overflow) auto
  with bound chunk show "unat amt div 10 * 10 ^ Suc k + unat amt mod 10 * 10 ^ k + unat dust < 2 ^ 64"
    "unat ((amt mod 10) * order) = unat amt mod 10 * 10 ^ k"
    "unat (dust + (amt mod 10) * order) = unat dust + unat amt mod 10 * 10 ^ k"
    by (simp_all add: d_def a_def)
  assume "amt div 10 \<noteq> 0"
  then have "1 * 10 ^ Suc k \<le> a * 10 ^ Suc k"
    by (intro mult_le_mono1) (simp add: a_def Suc_leI unat_gt_0 flip: unat_div_10)
  then have "10 ^ Suc k < (2 :: nat) ^ 64" using bound by linarith
  then have "unat order * unat (10 :: u64) < 2 ^ LENGTH(64)" using assms(2) by (simp add: mult.commute)
  then show "unat (order * 10) = 10 ^ Suc k" using assms(2) by (simp add: unat_mult_no_overflow)
qed

lemma decompose_loop_total:
  assumes "unat amt * 10 ^ k + unat dust < 2 ^ 64" and "amt \<noteq> 0 \<longrightarrow> unat order = 10 ^ k"
    and "handled \<longrightarrow> unat thr < unat dust + 10 ^ k"
  shows "chunk_total (decompose_loop thr amt order dust handled)
    = unat amt * 10 ^ k + (if handled then 0 else unat dust)"
  using assms
proof (induction thr amt order dust handled arbitrary: k rule: decompose_loop.induct)
  case (1 thr amt order dust handled)
  show ?case
  proof (cases "amt = 0")
    case True
    then show ?thesis by (simp add: decompose_loop.simps)
  next
    case False
    define d a where "d = unat amt mod 10" and "a = unat amt div 10"
    define chunk where "chunk = (amt mod 10) * order"
    have ord: "unat order = 10 ^ k" using 1(4) False by simp
    note step = decompose_step [OF 1(3) ord, folded d_def a_def chunk_def]
    note bound = step(1) and chunk = step(2) and sum = step(3) and ord' = step(4)
    have a: "unat (amt div 10) = a" by (simp add: a_def unat_div)
    have da: "unat amt = 10 * a + d" "d < 10" by (simp_all add: d_def a_def)
    have split: "unat amt * 10 ^ k = a * 10 ^ Suc k + d * 10 ^ k" by (simp add: da algebra_simps)
    show ?thesis
    proof (cases "dust + chunk \<le> thr")
      case True
      have "unat (amt div 10) * 10 ^ Suc k + unat (dust + chunk) < 2 ^ 64" using bound a sum by simp
      moreover have h0: "handled \<longrightarrow> d = 0"
      proof
        assume handled
        moreover have "unat (dust + chunk) \<le> unat thr" using True by (simp add: word_le_nat_alt)
        ultimately have "d * 10 ^ k < 10 ^ k" using 1(5) sum by linarith
        then show "d = 0" by simp
      qed
      moreover have "handled \<longrightarrow> unat thr < unat (dust + chunk) + 10 ^ Suc k" using 1(5) sum by auto
      ultimately have "chunk_total (decompose_loop thr (amt div 10) (order * 10) (dust + chunk) handled)
          = unat (amt div 10) * 10 ^ Suc k + (if handled then 0 else unat (dust + chunk))"
        using True False ord' by (intro 1(1)) (auto simp: chunk_def)
      then show ?thesis
        using True False a sum split h0 by (subst decompose_loop.simps) (auto simp: Let_def simp flip: chunk_def)
    next
      case exceeds: False
      let ?h = "\<not> handled \<and> dust \<noteq> 0"
      have "unat thr < unat dust + d * 10 ^ k" using exceeds sum by (simp add: word_le_nat_alt not_le)
      moreover have "d * 10 ^ k \<le> 10 * 10 ^ k" using da(2) by (intro mult_le_mono1) simp
      ultimately have "unat thr < unat dust + 10 ^ Suc k" unfolding power_Suc by linarith
      then have "handled \<or> ?h \<longrightarrow> unat thr < unat dust + 10 ^ Suc k" by simp
      moreover have "unat (amt div 10) * 10 ^ Suc k + unat dust < 2 ^ 64" using bound a by simp
      ultimately have "chunk_total (decompose_loop thr (amt div 10) (order * 10) dust (handled \<or> ?h))
          = unat (amt div 10) * 10 ^ Suc k + (if handled \<or> ?h then 0 else unat dust)"
        using exceeds False ord' by (intro 1(2)) (auto simp: chunk_def)
      moreover have "chunk_total (if chunk \<noteq> 0 then [Chunk chunk] else []) = d * 10 ^ k"
        using chunk by (cases "chunk = 0") auto
      ultimately show ?thesis
        using exceeds False a split by (subst decompose_loop.simps) (auto simp: Let_def simp flip: chunk_def)
    qed
  qed
qed

lemma decompose_total: "chunk_total (decompose_amount_into_digits amt thr) = unat amt"
  using decompose_loop_total [of amt 0 0 1 False thr] by (simp add: decompose_amount_into_digits_def)

text \<open>What the two handlers are called with.\<close>

fun chunk_ok :: "u64 \<Rightarrow> chunk \<Rightarrow> bool" where
  "chunk_ok thr (Dust d) \<longleftrightarrow> 0 < d \<and> d \<le> thr"
| "chunk_ok thr (Chunk c) \<longleftrightarrow> (\<exists>d k. 0 < d \<and> d < 10 \<and> unat c = d * 10 ^ k)"

fun is_dust :: "chunk \<Rightarrow> bool" where
  "is_dust (Dust d) = True"
| "is_dust (Chunk c) = False"

lemma decompose_loop_shape:
  assumes "unat amt * 10 ^ k + unat dust < 2 ^ 64" and "amt \<noteq> 0 \<longrightarrow> unat order = 10 ^ k" and "dust \<le> thr"
  shows "list_all (chunk_ok thr) (decompose_loop thr amt order dust handled)
    \<and> length (filter is_dust (decompose_loop thr amt order dust handled)) \<le> (if handled then 0 else 1)"
  using assms
proof (induction thr amt order dust handled arbitrary: k rule: decompose_loop.induct)
  case (1 thr amt order dust handled)
  show ?case
  proof (cases "amt = 0")
    case True
    then show ?thesis using 1(5) by (simp add: decompose_loop.simps word_neq_0_conv)
  next
    case False
    define d a where "d = unat amt mod 10" and "a = unat amt div 10"
    define chunk where "chunk = (amt mod 10) * order"
    have ord: "unat order = 10 ^ k" using 1(4) False by simp
    note step = decompose_step [OF 1(3) ord, folded d_def a_def chunk_def]
    note bound = step(1) and chunk = step(2) and sum = step(3) and ord' = step(4)
    have a: "unat (amt div 10) = a" by (simp add: a_def unat_div)
    have ok: "chunk \<noteq> 0 \<longrightarrow> chunk_ok thr (Chunk chunk)"
    proof
      assume "chunk \<noteq> 0"
      then have "0 < d" using chunk unat_eq_zero [of chunk] by (cases d) auto
      moreover have "d < 10" by (simp add: d_def)
      ultimately show "chunk_ok thr (Chunk chunk)" using chunk by auto
    qed
    show ?thesis
    proof (cases "dust + chunk \<le> thr")
      case True
      then show ?thesis
        using 1(1) [of chunk "amt div 10" "order * 10" "Suc k"] False ord' bound a sum
        by (subst (1 2) decompose_loop.simps) (simp add: Let_def flip: chunk_def)
    next
      case exceeds: False
      let ?h = "\<not> handled \<and> dust \<noteq> 0"
      have "list_all (chunk_ok thr) (decompose_loop thr (amt div 10) (order * 10) dust (handled \<or> ?h))
        \<and> length (filter is_dust (decompose_loop thr (amt div 10) (order * 10) dust (handled \<or> ?h))) \<le> (if handled \<or> ?h then 0 else 1)"
        using exceeds False ord' bound a 1(5) by (intro 1(2) [of _ _ _ _ "Suc k"]) (auto simp: chunk_def)
      then show ?thesis
        using exceeds False ok 1(5) by (subst (1 2) decompose_loop.simps) (auto simp: Let_def word_neq_0_conv simp flip: chunk_def)
    qed
  qed
qed

lemma decompose_shape:
  "list_all (chunk_ok thr) (decompose_amount_into_digits amt thr)"
  "length (filter is_dust (decompose_amount_into_digits amt thr)) \<le> 1"
  using decompose_loop_shape [of amt 0 0 1 thr False] by (simp_all add: decompose_amount_into_digits_def)

subsection \<open>Text\<close>

lemma power_integral_eq: "power_integral a b = a ^ unat b"
proof -
  have "((\<lambda>total. total * a) ^^ n) a = a ^ Suc n" for n by (induction n) (simp_all add: mult.commute)
  then show ?thesis by (cases "unat b") (auto simp: power_integral_def unat_eq_zero)
qed

lemma to_string_props:
  "to_string n \<noteq> [] \<and> list_all isdigit (to_string n) \<and> dec_value (to_string n) = n"
proof (induction n rule: to_string.induct)
  case (1 n)
  have u: "unat (of_nat (48 + d) :: u8) = 48 + d" if "d < 10" for d
    using that by (simp add: unat_of_nat del: of_nat_add)
  have digit: "isdigit (of_nat (48 + d))" if "d < 10" for d
    unfolding isdigit_def word_le_nat_alt u [OF that] using that by simp
  have val: "dec_value [of_nat (48 + d)] = d" if "d < 10" for d
    using u [OF that] by (simp add: dec_value_def del: of_nat_add)
  show ?case
  proof (cases "n < 10")
    case True
    then show ?thesis using digit [of n] val [of n] by (simp add: to_string.simps [of n] del: of_nat_add)
  next
    case False
    then show ?thesis using 1 digit [of "n mod 10"] val [of "n mod 10"]
      by (simp add: to_string.simps [of n] dec_value_append del: of_nat_add)
  qed
qed

text \<open>What \<open>parse_amount\<close> relies on from Boost's \<open>trim\<close>: a text without outer white space is kept.\<close>

definition trim_law :: "(blob \<Rightarrow> blob) \<Rightarrow> bool" where
  "trim_law boost_trim \<longleftrightarrow>
     (\<forall>s. s \<noteq> [] \<longrightarrow> \<not> isspace (hd s) \<longrightarrow> \<not> isspace (last s) \<longrightarrow> boost_trim s = s)"

lemma isdigit_props: "isdigit c \<Longrightarrow> \<not> isspace c \<and> c \<noteq> 46"
proof -
  assume "isdigit c"
  then have "48 \<le> c" by (simp add: isdigit_def)
  then have "48 \<le> unat c" by (simp add: word_le_nat_alt)
  then show ?thesis by (auto simp: isspace_def word_le_nat_alt)
qed

lemma parse_print_money:
  assumes "trim_law boost_trim" "lexical_cast_law lexical_cast"
  shows "parse_amount boost_trim lexical_cast (print_money amt) = Some amt"
proof -
  let ?s = "to_string (unat amt)"
  define s where "s = (if length ?s < 13 then replicate (13 - length ?s) 48 @ ?s else ?s)"
  define p where "p = length s - 12"
  have "isdigit 48" by (simp add: isdigit_def)
  then have dig: "list_all isdigit s" using to_string_props [of "unat amt"] by (auto simp: s_def list_all_iff)
  have val: "dec_value s = unat amt" using to_string_props [of "unat amt"] by (simp add: s_def dec_value_append)
  have len: "13 \<le> length s" by (simp add: s_def)
  have pm: "print_money amt = take p s @ 46 # drop p s"
    by (simp add: print_money_def Let_def s_def p_def CRYPTONOTE_DISPLAY_DECIMAL_POINT_def)
  have ne: "take p s \<noteq> []" "drop p s \<noteq> []" using len by (auto simp: p_def)
  have d: "\<And>c. c \<in> set (take p s) \<Longrightarrow> isdigit c" "\<And>c. c \<in> set (drop p s) \<Longrightarrow> isdigit c"
    using dig by (auto simp: list_all_iff dest: in_set_takeD in_set_dropD)
  have "hd (print_money amt) \<in> set (take p s)" "last (print_money amt) \<in> set (drop p s)"
    using ne hd_in_set last_in_set by (simp_all add: pm del: take_eq_Nil drop_eq_Nil hd_take last_drop)
  then have tr: "boost_trim (print_money amt) = print_money amt"
    using assms(1) d isdigit_props by (simp add: trim_law_def pm)
  have pt: "length (takeWhile (\<lambda>c. c \<noteq> 46) (print_money amt)) = p"
    using d(1) isdigit_props len by (simp add: pm takeWhile_append p_def)
  have ndz: "drop_zeros (print_money amt) 12 = (print_money amt, 12)"
    by (simp add: drop_zeros.simps CRYPTONOTE_DISPLAY_DECIMAL_POINT_def)
  have pl: "length (print_money amt) = p + 13" using len by (simp add: pm p_def)
  have er: "take p (print_money amt) @ drop (Suc p) (print_money amt) = s" using len by (simp add: pm p_def)
  have sne: "s \<noteq> []" using len by auto
  show ?thesis
    using assms(2) dig val er sne
    by (simp add: parse_amount_def Let_def tr pt pl ndz CRYPTONOTE_DISPLAY_DECIMAL_POINT_def get_xtype_from_string_def
        lexical_cast_law_def)
qed

lemma parse_hash256_hex: "parse_hash256 (pod_to_hex 32 h) = Some h"
  by (simp add: parse_hash256_def pod_to_hex_def parse_hexstr_buff_to_hex)

lemma length_encode:
  assumes "encode data = Some s"
  shows "length s = 11 * (length data div 8) + encoded_block_sizes ! (length data mod 8)"
proof -
  have "length (enc_block c) = 11" if "c \<in> set (chunks 8 (length data div 8) data)" for c
    using chunk_length [OF _ that] by (simp add: encoded_block_sizes_def)
  then have "length (concat (map enc_block (chunks 8 (length data div 8) data))) = 11 * (length data div 8)"
    by (simp add: length_concat comp_def sum_list_triv cong: map_cong)
  moreover have "length (drop (8 * (length data div 8)) data) = length data mod 8"
    by (simp add: minus_mult_div_eq_mod)
  ultimately show ?thesis using assms unfolding encode_eq by auto
qed

lemma write_varint_prefix: "write_varint (unat (address_prefix testnet)) = [ucast (address_prefix testnet)]"
  by (cases testnet) (simp_all add: address_prefix_def TESTNET_PUBLIC_ADDRESS_BASE58_PREFIX_def
      CRYPTONOTE_PUBLIC_ADDRESS_BASE58_PREFIX_def write_varint.simps)

lemma length_address: "length (fst (wr_account_public_address adr)) = 64"
  by (simp add: wr_account_public_address_def write_fields_Cons wr_pod_def)

lemma address_str_round_trip:
  assumes "check_key G (m_spend_public_key adr)" "check_key G (m_view_public_key adr)"
  shows "\<exists>s. get_account_address_as_str testnet adr = Some s \<and> length s = 95
    \<and> get_account_address_from_str G testnet s = Some adr"
proof -
  let ?d = "fst (wr_account_public_address adr)"
  obtain s where s: "encode_addr (address_prefix testnet) ?d = Some s"
    unfolding encode_addr_def Let_def encode_eq by blast
  have "length s = 95"
    using s length_address [of adr] unfolding encode_addr_def Let_def get_varint_data_def write_varint_prefix
    by (auto dest!: length_encode simp: addr_checksum_size_def encoded_block_sizes_def)
  moreover have "decode_addr s = Some (address_prefix testnet, ?d)" using s by (rule encode_addr_decodes)
  moreover have "parse_all rd_account_public_address ?d = Some adr" by (rule account_address.parse_wr) simp
  ultimately show ?thesis
    using assms s by (simp add: get_account_address_as_str_def get_account_address_from_str_def)
qed

subsection \<open>Block identifiers\<close>

text \<open>The fields of the block header, and the byte strings that are hashed for the identifier.\<close>

definition header_of :: "block \<Rightarrow> u8 \<times> u8 \<times> u64 \<times> hash \<times> u32" where
  "header_of b = (major_version b, minor_version b, timestamp b, prev_id b, nonce b)"

definition block_hash_inputs :: "block \<Rightarrow> blob list" where
  "block_hash_inputs b =
     fst (wr_string (get_block_hashing_blob b))
       # map (\<lambda>(x, y). bytes_of_word 32 x @ bytes_of_word 32 y) (hashed_pairs hash_pair (tree_hash_tree (block_tx_ids b)))"

lemma header_prefix:
  assumes "snd (wr_block_header b)" "snd (wr_block_header c)"
    and "fst (wr_block_header b) @ r = fst (wr_block_header c) @ s"
  shows "header_of b = header_of c \<and> r = s"
proof -
  define rd :: "(u8 \<times> u8 \<times> u64 \<times> hash \<times> u32) reader" where
    "rd s = do { (a, s) \<leftarrow> rd_varint s; (b, s) \<leftarrow> rd_varint s; (c, s) \<leftarrow> rd_varint s; (d, s) \<leftarrow> rd_pod s;
      (e, s) \<leftarrow> rd_uint s; Some ((a, b, c, d, e), s) }" for s
  have "rd (fst (wr_block_header x) @ r) = Some (header_of x, r)" if "snd (wr_block_header x)" for x r
    using that by (simp add: wr_block_header_def rd_def rd_round_trips header_of_def)
  from this [OF assms(1), of r] this [OF assms(2), of s] assms(3) show ?thesis by simp
qed

lemma write_varint_inj_64:
  assumes "m < 2 ^ 64" "n < 2 ^ 64" "get_varint_data m = get_varint_data n"
  shows "m = n"
proof -
  have "fst (wr_varint (of_nat m :: u64)) = fst (wr_varint (of_nat n :: u64))"
    using assms by (simp add: fst_wr_varint get_varint_data_def unat_of_nat)
  then have "(of_nat m :: u64) = of_nat n" by (intro varint.wr_inj) simp_all
  then have "unat (of_nat m :: u64) = unat (of_nat n :: u64)" by simp
  then show ?thesis using assms(1, 2) by (simp add: unat_of_nat)
qed

lemma wr_string_inj: "fst (wr_string s) = fst (wr_string t) \<Longrightarrow> s = t"
proof -
  assume eq: "fst (wr_string s) = fst (wr_string t)"
  have "rd_varint (fst (wr_string u)) = Some (of_nat (length u) :: u64, u)" for u
    by (simp add: wr_string_def write_fields_Cons wr_blob_def varint.rd_wr)
  from this [of s] this [of t] show "s = t" unfolding eq by (metis option.inject prod.inject)
qed

lemma tree_hash_defined:
  assumes "1 \<le> length hs" "length hs \<le> 2 ^ 31"
  shows "\<exists>h. tree_hash hs = Some h"
proof (cases "length hs = 1")
  case True
  then show ?thesis by (simp add: tree_hash_def)
next
  case False
  then show ?thesis using tree_hash_tree_root [of hs] assms by simp
qed

lemma hashing_blob_inj:
  assumes "snd (wr_block_header b)" "snd (wr_block_header c)"
    and "length (tx_hashes b) < 2 ^ 31" "length (tx_hashes c) < 2 ^ 31"
    and "get_block_hashing_blob b = get_block_hashing_blob c"
  shows "header_of b = header_of c" "length (block_tx_ids b) = length (block_tx_ids c)"
    "tree_hash (block_tx_ids b) = tree_hash (block_tx_ids c)"
proof -
  let ?r = "\<lambda>b. bytes_of_word 32 (get_block_tree_hash b) @ get_varint_data (length (tx_hashes b) + 1)"
  have *: "header_of b = header_of c \<and> ?r b = ?r c"
    using assms(5) by (intro header_prefix [OF assms(1, 2)]) (simp add: get_block_hashing_blob_def)
  then show "header_of b = header_of c" by simp
  from * have root: "bytes_of_word 32 (get_block_tree_hash b) = bytes_of_word 32 (get_block_tree_hash c)"
    and n: "get_varint_data (length (tx_hashes b) + 1) = get_varint_data (length (tx_hashes c) + 1)" by simp_all
  have "length (tx_hashes b) + 1 = length (tx_hashes c) + 1"
    using assms(3, 4) n by (intro write_varint_inj_64) simp_all
  then show len: "length (block_tx_ids b) = length (block_tx_ids c)" by (simp add: block_tx_ids_def)
  have "get_block_tree_hash b = get_block_tree_hash c" using root by (rule bytes_of_word_inj) simp
  moreover obtain h where "tree_hash (block_tx_ids b) = Some h"
    using tree_hash_defined [of "block_tx_ids b"] assms(3) by (auto simp: block_tx_ids_def)
  moreover obtain g where "tree_hash (block_tx_ids c) = Some g"
    using tree_hash_defined [of "block_tx_ids c"] assms(4) by (auto simp: block_tx_ids_def)
  ultimately show "tree_hash (block_tx_ids b) = tree_hash (block_tx_ids c)"
    by (simp add: get_block_tree_hash_def get_tx_tree_hash_def)
qed

lemma block_id_commitment:
  assumes "snd (wr_block_header b)" "snd (wr_block_header c)"
    and "length (tx_hashes b) < 2 ^ 31" "length (tx_hashes c) < 2 ^ 31"
    and "get_block_hash b = get_block_hash c"
  shows "header_of b = header_of c \<and> block_tx_ids b = block_tx_ids c
    \<or> (\<exists>x \<in> set (block_hash_inputs b). \<exists>y \<in> set (block_hash_inputs c). x \<noteq> y \<and> cn_fast_hash x = cn_fast_hash y)
    \<or> get_block_hash b \<in> {existing_block_id_202612, null_hash}"
proof (cases "get_block_hash b \<in> {existing_block_id_202612, null_hash}")
  case False
  let ?s = "\<lambda>b. fst (wr_string (get_block_hashing_blob b))"
  have "get_block_hash x = cn_fast_hash (?s x)" if "get_block_hash x \<notin> {existing_block_id_202612, null_hash}" for x
    using that by (auto simp: get_block_hash_def get_block_hash_res_def get_blob_hash_def Let_def split: if_splits)
  then have h: "cn_fast_hash (?s b) = cn_fast_hash (?s c)" using False assms(5) by simp
  show ?thesis
  proof (cases "?s b = ?s c")
    case True
    then have blob: "get_block_hashing_blob b = get_block_hashing_blob c" by (rule wr_string_inj)
    note inj = hashing_blob_inj [OF assms(1-4) blob]
    have "block_tx_ids b = block_tx_ids c \<or> (\<exists>p \<in> set (hashed_pairs hash_pair (tree_hash_tree (block_tx_ids b))).
        \<exists>q \<in> set (hashed_pairs hash_pair (tree_hash_tree (block_tx_ids c))). p \<noteq> q \<and> case_prod hash_pair p = case_prod hash_pair q)"
      using assms(3) by (intro tree_hash_commits inj) (simp_all add: block_tx_ids_def)
    then show ?thesis
    proof
      assume "\<exists>p \<in> set (hashed_pairs hash_pair (tree_hash_tree (block_tx_ids b))).
        \<exists>q \<in> set (hashed_pairs hash_pair (tree_hash_tree (block_tx_ids c))). p \<noteq> q \<and> case_prod hash_pair p = case_prod hash_pair q"
      then obtain x y x' y' where p: "(x, y) \<in> set (hashed_pairs hash_pair (tree_hash_tree (block_tx_ids b)))"
          "(x', y') \<in> set (hashed_pairs hash_pair (tree_hash_tree (block_tx_ids c)))"
          "(x, y) \<noteq> (x', y')" "hash_pair x y = hash_pair x' y'" by auto
      let ?u = "bytes_of_word 32 x @ bytes_of_word 32 y" and ?v = "bytes_of_word 32 x' @ bytes_of_word 32 y'"
      have "?u \<noteq> ?v" using p(3) bytes_of_word_inj [of 32 x x'] bytes_of_word_inj [of 32 y y'] by auto
      moreover have "?u \<in> set (block_hash_inputs b)" "?v \<in> set (block_hash_inputs c)"
        using p(1, 2) by (auto simp: block_hash_inputs_def intro: image_eqI)
      moreover have "cn_fast_hash ?u = cn_fast_hash ?v" using p(4) by (simp add: hash_pair_def)
      ultimately show ?thesis by blast
    qed (use inj in simp)
  next
    case differ: False
    then show ?thesis using h by (auto simp: block_hash_inputs_def)
  qed
qed simp

lemma offsets_round_trip:
  "relative_output_offsets_to_absolute (absolute_output_offsets_to_relative off) = sort off"
  "sorted (relative_output_offsets_to_absolute off) \<Longrightarrow>
     absolute_output_offsets_to_relative (relative_output_offsets_to_absolute off) = off"
  by (simp_all add: relative_to_absolute_psums absolute_to_relative_diffs psums_diffs diffs_psums sorted_sort_id)

lemma dropWhile_hd: "s \<noteq> [] \<Longrightarrow> \<not> P (hd s) \<Longrightarrow> dropWhile P s = s"
  by (cases s) auto

subsection \<open>Properties\<close>

text \<open>
  C34. Money checks: \<open>check_money_overflow\<close> accepts exactly the transactions whose inputs are all key
  inputs and whose inputs and outputs each add up to less than \<open>2 ^ 64\<close>; for those the fee is the
  true difference of the sums, and \<open>get_tx_fee\<close> fails exactly when the outputs exceed the inputs.
\<close>

theorem money_checks_exact:
  "(check_money_overflow tx \<longleftrightarrow>
      list_all is_txin_to_key (vin tx) \<and> sum_inputs tx < 2 ^ 64 \<and> sum_outputs tx < 2 ^ 64)
   \<and> (check_money_overflow tx \<longrightarrow>
      map_option unat (get_tx_fee_opt tx) =
        (if sum_outputs tx \<le> sum_inputs tx then Some (sum_inputs tx - sum_outputs tx) else None))"
  using check_money_overflow_iff get_tx_fee_opt_value by auto

theorem money_checks_exact_witness:
  "map_option unat (get_tx_fee_opt \<lparr>version = 1, unlock_time = 0, vin = [txin_to_key 7 [1] 3, txin_to_key 4 [2] 8],
     vout = [\<lparr>amount = 5, target = txout_to_key 9\<rparr>], extra = [], signatures = []\<rparr>) = Some 6"
  using money_checks_exact [of "\<lparr>version = 1, unlock_time = 0, vin = [txin_to_key 7 [1] 3, txin_to_key 4 [2] 8],
     vout = [\<lparr>amount = 5, target = txout_to_key 9\<rparr>], extra = [], signatures = []\<rparr>"]
  by (simp add: sum_inputs_def sum_outputs_def)

text \<open>
  C35. \<open>decompose_amount_into_digits\<close> hands out the whole amount: the chunks and the dust add up to it,
  there is at most one call of the dust handler, with a nonzero dust not above the threshold, and
  every chunk is a nonzero decimal digit times a power of ten. In particular no product or sum in
  the loop wraps.
\<close>

theorem decompose_amount_exact:
  "chunk_total (decompose_amount_into_digits amt thr) = unat amt
   \<and> list_all (chunk_ok thr) (decompose_amount_into_digits amt thr)
   \<and> length (filter is_dust (decompose_amount_into_digits amt thr)) \<le> 1"
  using decompose_total decompose_shape by simp

text \<open>
  An amount printed by \<open>print_money\<close> is read back by \<open>parse_amount\<close>, for every amount, given what
  Boost documents of \<open>trim\<close> and \<open>lexical_cast\<close>.
\<close>

theorem print_money_round_trip:
  assumes "trim_law boost_trim" "lexical_cast_law lexical_cast"
  shows "parse_amount boost_trim lexical_cast (print_money amt) = Some amt"
  by (rule parse_print_money [OF assms])

theorem print_money_round_trip_witness:
  "parse_amount trim (\<lambda>s. if dec_value s < 2 ^ 64 then Some (of_nat (dec_value s)) else None) (print_money 1234500000000)
     = Some 1234500000000"
proof (rule print_money_round_trip)
  show "trim_law trim"
    unfolding trim_law_def
  proof (intro allI impI)
    fix s
    assume s: "s \<noteq> []" "\<not> isspace (hd s)" "\<not> isspace (last s)"
    then have "dropWhile isspace s = s" "dropWhile isspace (rev s) = rev s"
      by (simp_all add: dropWhile_hd hd_rev)
    then show "trim s = s" by (simp add: trim_def trim_left_def trim_right_def)
  qed
qed (simp add: lexical_cast_law_def)

text \<open>
  The text form of an address: \<open>get_account_address_as_str\<close> never fails, its 95 characters are
  never taken for the old format, and \<open>get_account_address_from_str\<close> gives the address back when its
  keys are valid points.
\<close>

theorem address_text_round_trip:
  assumes "check_key G (m_spend_public_key adr)" "check_key G (m_view_public_key adr)"
  shows "\<exists>s. get_account_address_as_str testnet adr = Some s \<and> length s = 95
    \<and> get_account_address_from_str G testnet s = Some adr"
  by (rule address_str_round_trip [OF assms])

theorem address_text_round_trip_witness:
  "\<exists>s. get_account_address_as_str True \<lparr>m_spend_public_key = ge_tobytes z_ops z_base, m_view_public_key = ge_tobytes z_ops z_base\<rparr> = Some s
     \<and> length s = 95
     \<and> get_account_address_from_str z_ops True s = Some \<lparr>m_spend_public_key = ge_tobytes z_ops z_base, m_view_public_key = ge_tobytes z_ops z_base\<rparr>"
  by (rule address_text_round_trip) (simp_all add: z_check_key)



end
