(* ===== verification/Account.thy ===== *)
theory Account
  imports Format_Utils
begin

text \<open>
  \<open>src/cryptonote_core/account.cpp\<close>: the keys of an account and their generation. The view key is
  derived from the spend key, so that the random scalar of the spend key restores the account.
\<close>

record account_keys =
  m_account_address :: account_public_address
  m_spend_secret_key :: secret_key
  m_view_secret_key :: secret_key

record account_base =
  m_keys :: account_keys
  m_creation_timestamp :: u64

text \<open>
  \<open>account_base::generate\<close>. The arguments \<open>tmp1\<close> and \<open>tmp2\<close> are the random bytes of the two calls of
  \<open>generate_keys\<close>, \<open>mktime_2014\<close> is the result of \<open>mktime\<close> on the fixed date, and \<open>now\<close> the current
  time. The result is the returned scalar and the account.
\<close>

definition account_generate :: "'p ge_ops \<Rightarrow> 512 word \<Rightarrow> 512 word \<Rightarrow> u64 \<Rightarrow> u64 \<Rightarrow> secret_key \<Rightarrow> bool \<Rightarrow> bool
    \<Rightarrow> (secret_key \<times> account_base) option" where
  "account_generate G tmp1 tmp2 mktime_2014 now recovery_key recover two_random = do {
     (first, spend_pub, spend_sec) \<leftarrow> generate_keys G tmp1 recovery_key recover;
     let second = word_of_bytes (keccak (bytes_of_word 32 spend_sec) 32);
     (rng, view_pub, view_sec) \<leftarrow> generate_keys G tmp2 second (if two_random then False else True);
     Some (first,
       \<lparr>m_keys = \<lparr>m_account_address = \<lparr>m_spend_public_key = spend_pub, m_view_public_key = view_pub\<rparr>,
                  m_spend_secret_key = spend_sec, m_view_secret_key = view_sec\<rparr>,
        m_creation_timestamp = (if recover then mktime_2014 else now)\<rparr>) }"

definition get_public_address_str :: "bool \<Rightarrow> account_base \<Rightarrow> blob option" where
  "get_public_address_str testnet acc = get_account_address_as_str testnet (m_account_address (m_keys acc))"

text \<open>Canonical secret keys, with their public keys in the address.\<close>

definition account_ok :: "'p ge_ops \<Rightarrow> account_keys \<Rightarrow> bool" where
  "account_ok G k \<longleftrightarrow>
     sc_check (m_spend_secret_key k) = 0 \<and> sc_check (m_view_secret_key k) = 0
     \<and> m_spend_public_key (m_account_address k) = ge_tobytes G (ge_scalarmult_base G (m_spend_secret_key k))
     \<and> m_view_public_key (m_account_address k) = ge_tobytes G (ge_scalarmult_base G (m_view_secret_key k))"

lemma generate_keys_eq:
  "generate_keys G tmp recovery_key recover =
     (let rng = (if recover then recovery_key else residue (uint tmp)); sec = residue (uint rng)
      in Some (rng, ge_tobytes G (ge_scalarmult_base G sec), sec))"
  by (simp add: generate_keys_def Let_def)

lemma account_generate_ok:
  "\<exists>first acc. account_generate G tmp1 tmp2 mk now recovery_key recover two_random = Some (first, acc)
     \<and> account_ok G (m_keys acc)"
  by (simp add: account_generate_def generate_keys_eq account_ok_def Let_def sc_check_canonical)

lemma account_generate_deterministic:
  assumes "account_generate G tmp1 tmp2 mk now rk recover False = Some (first, acc)"
  shows "\<exists>acc'. account_generate G tmp1' tmp2' mk' now' first True False = Some (first, acc') \<and> m_keys acc' = m_keys acc"
  using assms by (auto simp: account_generate_def generate_keys_eq Let_def)

subsection \<open>Properties\<close>


end
