(* ===== verification/Tx_Construct.thy ===== *)
theory Tx_Construct
  imports Account "HOL-Library.Multiset"
begin

text \<open>
  The construction of transactions in \<open>src/cryptonote_core/cryptonote_format_utils.cpp\<close>:
  \<open>construct_miner_tx\<close>, \<open>construct_tx\<close>, \<open>generate_key_image_helper\<close> and \<open>lookup_acc_outs\<close>. Random bytes
  are arguments. \<open>None\<close> is the result \<open>false\<close>; what the functions leave in their output parameters
  in that case is not modelled. Under the laws of the curve, the transactions that the wallet
  constructs carry ring signatures that the verifier accepts, and the receivers find their outputs.
\<close>

definition CRYPTONOTE_MINED_MONEY_UNLOCK_WINDOW :: u64 where "CRYPTONOTE_MINED_MONEY_UNLOCK_WINDOW = 60"
definition DEFAULT_DUST_THRESHOLD :: u64 where "DEFAULT_DUST_THRESHOLD = 10000000000"

record tx_source_entry =
  outputs :: "(u64 \<times> public_key) list"
  real_output :: nat
  real_out_tx_key :: public_key
  real_output_in_tx_index :: nat
  src_amount :: u64

record tx_destination_entry =
  dst_amount :: u64
  addr :: account_public_address

text \<open>\<open>keypair::generate\<close> with its 64 random bytes: the public and the secret key.\<close>

definition keypair_generate :: "'p ge_ops \<Rightarrow> 512 word \<Rightarrow> (public_key \<times> secret_key) option" where
  "keypair_generate G tmp = do { (rng, pub, sec) \<leftarrow> generate_keys G tmp 0 False; Some (pub, sec) }"

subsection \<open>The coinbase transaction\<close>

function merge_outs :: "nat \<Rightarrow> u64 list \<Rightarrow> u64 list" where
  "merge_outs max_outs out_amounts =
     (if 1 \<le> max_outs \<and> max_outs < length out_amounts then
        let n = length out_amounts
        in merge_outs max_outs (butlast (out_amounts[n - 2 := out_amounts ! (n - 2) + last out_amounts]))
      else out_amounts)"
  by pat_completeness auto
termination by (relation "measure (length \<circ> snd)") auto

declare merge_outs.simps [simp del]

fun miner_outs :: "'p ge_ops \<Rightarrow> account_public_address \<Rightarrow> secret_key \<Rightarrow> nat \<Rightarrow> u64 list \<Rightarrow> tx_out list option" where
  "miner_outs G miner_address txsec no [] = Some []"
| "miner_outs G miner_address txsec no (a # as) = do {
     derivation \<leftarrow> generate_key_derivation G (m_view_public_key miner_address) txsec;
     out_eph_public_key \<leftarrow> derive_public_key G derivation no (m_spend_public_key miner_address);
     outs \<leftarrow> miner_outs G miner_address txsec (no + 1) as;
     Some (\<lparr>amount = a, target = txout_to_key out_eph_public_key\<rparr> # outs) }"

definition construct_miner_tx :: "'p ge_ops \<Rightarrow> 512 word \<Rightarrow> u64 \<Rightarrow> u64 \<Rightarrow> u64 \<Rightarrow> u64 \<Rightarrow> u64 \<Rightarrow> account_public_address
    \<Rightarrow> transaction \<Rightarrow> blob \<Rightarrow> nat \<Rightarrow> transaction option" where
  "construct_miner_tx G tmp height median_size already_generated_coins current_block_size fee miner_address tx extra_nonce max_outs = do {
     (txpub, txsec) \<leftarrow> keypair_generate G tmp;
     let ext = add_tx_pub_key_to_extra [] txpub;
     ext \<leftarrow> (if extra_nonce \<noteq> [] then add_extra_nonce_to_tx_extra ext extra_nonce else Some ext);
     block_reward \<leftarrow> get_block_reward median_size current_block_size already_generated_coins;
     let block_reward = block_reward + fee;
     let out_amounts = map chunk_amount (decompose_amount_into_digits block_reward DEFAULT_DUST_THRESHOLD);
     if \<not> 1 \<le> max_outs then None
     else do {
       let out_amounts = merge_outs max_outs out_amounts;
       outs \<leftarrow> miner_outs G miner_address txsec 0 out_amounts;
       if fold (\<lambda>a s. s + a) out_amounts 0 \<noteq> block_reward then None
       else Some (tx\<lparr>version := CURRENT_TRANSACTION_VERSION, unlock_time := height + CRYPTONOTE_MINED_MONEY_UNLOCK_WINDOW,
                     vin := [txin_gen height], vout := outs, extra := ext\<rparr>) } }"

subsection \<open>Spending outputs\<close>

definition generate_key_image_helper :: "'p ge_ops \<Rightarrow> account_keys \<Rightarrow> public_key \<Rightarrow> nat
    \<Rightarrow> ((public_key \<times> secret_key) \<times> key_image) option" where
  "generate_key_image_helper G ack tx_public_key real_output_index = do {
     recv_derivation \<leftarrow> generate_key_derivation G tx_public_key (m_view_secret_key ack);
     pub \<leftarrow> derive_public_key G recv_derivation real_output_index (m_spend_public_key (m_account_address ack));
     sec \<leftarrow> derive_secret_key recv_derivation real_output_index (m_spend_secret_key ack);
     Some ((pub, sec), generate_key_image G pub sec) }"

text \<open>
  The three loops of \<open>construct_tx\<close>: the inputs with the secret keys of their contexts and the sum of
  their amounts, the outputs with their sum, and the ring signatures; \<open>rnd i\<close> are the random bytes of
  the \<open>i\<close>-th ring signature.
\<close>

fun fill_inputs :: "'p ge_ops \<Rightarrow> account_keys \<Rightarrow> tx_source_entry list \<Rightarrow> u64 \<Rightarrow> ((txin \<times> secret_key) list \<times> u64) option" where
  "fill_inputs G keys [] money = Some ([], money)"
| "fill_inputs G keys (src # srcs) money =
     (if length (outputs src) \<le> real_output src then None
      else do {
        ((pub, sec), img) \<leftarrow> generate_key_image_helper G keys (real_out_tx_key src) (real_output_in_tx_index src);
        if pub \<noteq> snd (outputs src ! real_output src) then None
        else do {
          (ins, money) \<leftarrow> fill_inputs G keys srcs (money + src_amount src);
          Some ((txin_to_key (src_amount src) (absolute_output_offsets_to_relative (map fst (outputs src))) img, sec) # ins,
            money) } })"

fun fill_outputs :: "'p ge_ops \<Rightarrow> secret_key \<Rightarrow> nat \<Rightarrow> tx_destination_entry list \<Rightarrow> u64 \<Rightarrow> (tx_out list \<times> u64) option" where
  "fill_outputs G txsec output_index [] money = Some ([], money)"
| "fill_outputs G txsec output_index (dst # dsts) money =
     (if \<not> 0 < dst_amount dst then None
      else do {
        derivation \<leftarrow> generate_key_derivation G (m_view_public_key (addr dst)) txsec;
        out_eph_public_key \<leftarrow> derive_public_key G derivation output_index (m_spend_public_key (addr dst));
        (outs, money) \<leftarrow> fill_outputs G txsec (output_index + 1) dsts (money + dst_amount dst);
        Some (\<lparr>amount = dst_amount dst, target = txout_to_key out_eph_public_key\<rparr> # outs, money) })"

fun sign_inputs :: "'p ge_ops \<Rightarrow> (nat \<Rightarrow> nat \<Rightarrow> 512 word) \<Rightarrow> hash \<Rightarrow> nat \<Rightarrow> tx_source_entry list \<Rightarrow> (txin \<times> secret_key) list
    \<Rightarrow> signature list list option" where
  "sign_inputs G rnd tx_prefix_hash i (src # srcs) ((txin_to_key amt offs k_image, sec) # ins) = do {
     sigs \<leftarrow> generate_ring_signature G (rnd i) tx_prefix_hash k_image (map snd (outputs src)) sec (real_output src)
       (replicate (length (outputs src)) 0);
     rest \<leftarrow> sign_inputs G rnd tx_prefix_hash (i + 1) srcs ins;
     Some (sigs # rest) }"
| "sign_inputs G rnd tx_prefix_hash i srcs ins = Some []"

text \<open>
  \<open>std::sort\<close> by amount; among equal amounts the stable order, which is what the insertion sort for
  short sequences gives.
\<close>

definition construct_tx :: "'p ge_ops \<Rightarrow> 512 word \<Rightarrow> (nat \<Rightarrow> nat \<Rightarrow> 512 word) \<Rightarrow> account_keys \<Rightarrow> tx_source_entry list
    \<Rightarrow> tx_destination_entry list \<Rightarrow> blob \<Rightarrow> u64 \<Rightarrow> transaction option" where
  "construct_tx G tmp rnd sender_account_keys sources destinations ext unlock = do {
     (txpub, txsec) \<leftarrow> keypair_generate G tmp;
     let ext = add_tx_pub_key_to_extra ext txpub;
     (ins, summary_inputs_money) \<leftarrow> fill_inputs G sender_account_keys sources 0;
     let shuffled_dsts = sort_key dst_amount destinations;
     (outs, summary_outs_money) \<leftarrow> fill_outputs G txsec 0 shuffled_dsts 0;
     if summary_inputs_money < summary_outs_money then None
     else do {
       let tx = \<lparr>version = CURRENT_TRANSACTION_VERSION, unlock_time = unlock, vin = map fst ins, vout = outs,
                 extra = ext, signatures = []\<rparr>;
       sigs \<leftarrow> sign_inputs G rnd (get_transaction_prefix_hash tx) 0 sources ins;
       Some (tx\<lparr>signatures := sigs\<rparr>) } }"

subsection \<open>Finding outputs\<close>

text \<open>
  \<open>is_out_to_acc\<close> ignores the results of \<open>generate_key_derivation\<close> and \<open>derive_public_key\<close>: when one of
  them fails, the comparison reads an uninitialised key, which is \<open>None\<close> here.
\<close>

definition is_out_to_acc :: "'p ge_ops \<Rightarrow> account_keys \<Rightarrow> public_key \<Rightarrow> public_key \<Rightarrow> nat \<Rightarrow> bool option" where
  "is_out_to_acc G acc out_key tx_pub_key output_index = do {
     derivation \<leftarrow> generate_key_derivation G tx_pub_key (m_view_secret_key acc);
     pk \<leftarrow> derive_public_key G derivation output_index (m_spend_public_key (m_account_address acc));
     Some (pk = out_key) }"

fun lookup_acc_outs_loop :: "'p ge_ops \<Rightarrow> account_keys \<Rightarrow> public_key \<Rightarrow> nat \<Rightarrow> tx_out list \<Rightarrow> nat list \<Rightarrow> u64
    \<Rightarrow> (nat list \<times> u64) option" where
  "lookup_acc_outs_loop G acc tx_pub_key i [] outs money = Some (outs, money)"
| "lookup_acc_outs_loop G acc tx_pub_key i (out # os) outs money =
     (case target out of
        txout_to_key key \<Rightarrow> do {
          mine \<leftarrow> is_out_to_acc G acc key tx_pub_key i;
          if mine then lookup_acc_outs_loop G acc tx_pub_key (i + 1) os (outs @ [i]) (money + amount out)
          else lookup_acc_outs_loop G acc tx_pub_key (i + 1) os outs money }
      | _ \<Rightarrow> None)"

definition lookup_acc_outs_with_key :: "'p ge_ops \<Rightarrow> account_keys \<Rightarrow> transaction \<Rightarrow> public_key \<Rightarrow> nat list \<Rightarrow> (nat list \<times> u64) option" where
  "lookup_acc_outs_with_key G acc tx tx_pub_key outs = lookup_acc_outs_loop G acc tx_pub_key 0 (vout tx) outs 0"

definition lookup_acc_outs :: "'p ge_ops \<Rightarrow> account_keys \<Rightarrow> transaction \<Rightarrow> nat list \<Rightarrow> (nat list \<times> u64) option" where
  "lookup_acc_outs G acc tx outs =
     (let tx_pub_key = get_tx_pub_key_from_extra (extra tx)
      in if tx_pub_key = null_pkey then None else lookup_acc_outs_with_key G acc tx tx_pub_key outs)"

subsection \<open>One-time keys\<close>

text \<open>The key that a sender with the secret transaction key \<open>r\<close> derives for output \<open>n\<close> to an address.\<close>

definition out_key :: "'p ge_ops \<Rightarrow> account_public_address \<Rightarrow> secret_key \<Rightarrow> nat \<Rightarrow> public_key option" where
  "out_key G a r n = do {
     d \<leftarrow> generate_key_derivation G (m_view_public_key a) r;
     derive_public_key G d n (m_spend_public_key a) }"

abbreviation address_ok :: "'p ge_ops \<Rightarrow> account_public_address \<Rightarrow> bool" where
  "address_ok G a \<equiv> check_key G (m_spend_public_key a) \<and> check_key G (m_view_public_key a)"

lemma keypair_generate_ok:
  "\<exists>sec. keypair_generate G tmp = Some (ge_tobytes G (ge_scalarmult_base G sec), sec) \<and> sc_check sec = 0"
  by (simp add: keypair_generate_def generate_keys_eq Let_def sc_check_canonical)

lemma out_key_defined: "address_ok G a \<Longrightarrow> \<exists>k. out_key G a r n = Some k"
  by (auto simp: out_key_def generate_key_derivation_def derive_public_key_def derivation_to_scalar_def check_key_def)

lemma account_ok_address: "curve_laws G B \<Longrightarrow> account_ok G acc \<Longrightarrow> address_ok G (m_account_address acc)"
  using curve_lawsD(1) by (auto simp: account_ok_def check_key_def)

lemma out_key_received:
  assumes "curve_laws G B" "account_ok G acc" "sc_check r = 0"
    and "out_key G (m_account_address acc) r n = Some k"
  shows "is_out_to_acc G acc k (ge_tobytes G (ge_scalarmult_base G r)) n = Some True"
proof -
  have "generate_key_derivation G (m_view_public_key (m_account_address acc)) r
      = generate_key_derivation G (ge_tobytes G (ge_scalarmult_base G r)) (m_view_secret_key acc)"
    using assms(2) by (intro derivation_shared(1) [OF assms(1) _ assms(3) _ refl]) (auto simp: account_ok_def)
  then show ?thesis
    using assms(4) unfolding out_key_def is_out_to_acc_def by (auto simp: bind_eq_Some_conv)
qed

lemma lookup_all_mine:
  assumes "\<And>n. n < length os \<Longrightarrow> \<exists>k. target (os ! n) = txout_to_key k \<and> is_out_to_acc G acc k pub (i + n) = Some True"
  shows "lookup_acc_outs_loop G acc pub i os outs money
    = Some (outs @ [i..<i + length os], money + sum_list (map amount os))"
  using assms
proof (induction os arbitrary: i outs money)
  case (Cons out os)
  obtain k where k: "target out = txout_to_key k" "is_out_to_acc G acc k pub i = Some True"
    using Cons.prems [of 0] by auto
  have "lookup_acc_outs_loop G acc pub (i + 1) os (outs @ [i]) (money + amount out)
      = Some ((outs @ [i]) @ [i + 1..<i + 1 + length os], money + amount out + sum_list (map amount os))"
    using Cons.prems [of "Suc n" for n] by (intro Cons.IH) auto
  moreover have "[i..<i + length (out # os)] = i # [i + 1..<i + 1 + length os]" by (simp add: upt_rec [of i] Suc_le_eq)
  ultimately show ?case using k by (simp add: add.assoc)
qed simp

subsection \<open>The coinbase transaction\<close>

lemma merge_outs_step: "merge_outs m (ys @ [x, y]) = (if 1 \<le> m \<and> m < length ys + 2 then merge_outs m (ys @ [x + y]) else ys @ [x, y])"
  by (subst merge_outs.simps) (simp add: Let_def nth_append list_update_append butlast_append)

lemma last_two: "2 \<le> length xs \<Longrightarrow> \<exists>ys x y. xs = ys @ [x, y]"
  by (cases xs rule: rev_cases; cases "butlast xs" rule: rev_cases) auto

lemma merge_outs_props:
  assumes "sum_list (map unat outs) < 2 ^ 64" "1 \<le> m"
  shows "sum_list (map unat (merge_outs m outs)) = sum_list (map unat outs) \<and> length (merge_outs m outs) \<le> m"
  using assms
proof (induction "length outs" arbitrary: outs rule: less_induct)
  case less
  show ?case
  proof (cases "m < length outs")
    case False
    then show ?thesis by (subst (1 2) merge_outs.simps) simp
  next
    case True
    then have "2 \<le> length outs" using less.prems by simp
    then obtain ys x y where o: "outs = ys @ [x, y]"
      using last_two by blast
    have "unat (x + y) = unat x + unat y"
      using less.prems(1) by (intro unat_add_64) (simp add: o)
    then show ?thesis
      using less.hyps [of "ys @ [x + y]"] less.prems True by (simp add: o merge_outs_step)
  qed
qed

lemma fold_add_sum_list: "fold (\<lambda>a s. s + a) as (z :: u64) = z + sum_list as"
  by (induction as arbitrary: z) (simp_all add: add.assoc)

lemma unat_sum_list: "sum_list (map unat as) < 2 ^ 64 \<Longrightarrow> unat (sum_list (as :: u64 list)) = sum_list (map unat as)"
proof (induction as)
  case (Cons a as)
  then have "unat (sum_list as) = sum_list (map unat as)" by simp
  with Cons.prems show ?case by (simp add: unat_add_64)
qed simp

lemma miner_outs_ok:
  assumes "address_ok G a"
  shows "\<exists>outs. miner_outs G a r no as = Some outs \<and> map amount outs = as
    \<and> (\<forall>n < length as. \<exists>k. target (outs ! n) = txout_to_key k \<and> out_key G a r (no + n) = Some k)"
proof (induction as arbitrary: no)
  case (Cons x xs)
  obtain k where k: "out_key G a r no = Some k" using out_key_defined [OF assms] by blast
  then obtain d where d: "generate_key_derivation G (m_view_public_key a) r = Some d"
      "derive_public_key G d no (m_spend_public_key a) = Some k"
    by (auto simp: out_key_def bind_eq_Some_conv)
  obtain outs where outs: "miner_outs G a r (no + 1) xs = Some outs" "map amount outs = xs"
      "\<forall>n < length xs. \<exists>k. target (outs ! n) = txout_to_key k \<and> out_key G a r (no + 1 + n) = Some k"
    using Cons [of "no + 1"] by auto
  have "\<forall>n < length (x # xs). \<exists>k'. target ((\<lparr>amount = x, target = txout_to_key k\<rparr> # outs) ! n) = txout_to_key k'
      \<and> out_key G a r (no + n) = Some k'"
    using outs(3) k by (auto simp: nth_Cons split: nat.splits)
  then show ?case using d outs(1, 2) by simp
qed simp

lemma miner_amounts:
  fixes v thr :: u64
  assumes "1 \<le> max_outs"
  defines "as \<equiv> merge_outs max_outs (map chunk_amount (decompose_amount_into_digits v thr))"
  shows "sum_list as = v" "length as \<le> max_outs" "sum_list (map unat as) = unat v"
proof -
  have "sum_list (map unat (map chunk_amount (decompose_amount_into_digits v thr))) = unat v"
    using decompose_total [of v thr] by (simp add: chunk_total_def comp_def)
  then have *: "sum_list (map unat as) = unat v" "length as \<le> max_outs"
    using merge_outs_props [of "map chunk_amount (decompose_amount_into_digits v thr)" max_outs] assms(1)
    unfolding as_def by simp_all
  then show "sum_list (map unat as) = unat v" "length as \<le> max_outs" by simp_all
  have "unat (sum_list as) = unat v" using * unat_sum_list [of as] by simp
  then show "sum_list as = v" by (simp only: word_unat_eq_iff)
qed

lemma first_key_found: "get_tx_pub_key_from_extra (add_tx_pub_key_to_extra [] pub @ rest) = pub"
proof -
  have "add_tx_pub_key_to_extra [] pub @ rest = fst (wr_tag TX_EXTRA_TAG_PUBKEY) @ fst (wr_pod pub) @ rest"
    by (simp add: add_tx_pub_key_to_extra_def wr_tag_def wr_uint_bytes wr_pod_def bytes_of_word_def)
  then have "rd_tx_extra_field (add_tx_pub_key_to_extra [] pub @ rest) = Some (tx_extra_pub_key pub, rest)"
    by (simp add: rd_tx_extra_field_def tx_extra_tags rd_tx_extra_pub_key_def pod32.rd_wr)
  then have "find_tx_extra_pub_key (snd (parse_tx_extra_loop (add_tx_pub_key_to_extra [] pub @ rest))) = Some pub"
    by (subst parse_tx_extra_loop.simps) (simp split: prod.splits)
  then show ?thesis
    by (simp add: get_tx_pub_key_from_extra_def parse_tx_extra_def) (simp add: add_tx_pub_key_to_extra_def)
qed

lemma coinbase_extra_key:
  assumes "length extra_nonce \<le> 255"
  shows "\<exists>ext. (if extra_nonce \<noteq> [] then add_extra_nonce_to_tx_extra (add_tx_pub_key_to_extra [] pub) extra_nonce
      else Some (add_tx_pub_key_to_extra [] pub)) = Some ext
    \<and> get_tx_pub_key_from_extra ext = pub"
  using assms first_key_found [of pub "[]"] first_key_found [of pub]
  by (simp add: add_extra_nonce_to_tx_extra_def TX_EXTRA_NONCE_MAX_COUNT_def)

lemma construct_miner_tx_ok:
  assumes "address_ok G a" "1 \<le> max_outs" "length extra_nonce \<le> 255"
    and "get_block_reward median_size current_block_size already_generated_coins = Some reward"
  shows "\<exists>tx' sec. construct_miner_tx G tmp height median_size already_generated_coins current_block_size fee a tx
        extra_nonce max_outs = Some tx'
    \<and> sc_check sec = 0 \<and> get_tx_pub_key_from_extra (extra tx') = ge_tobytes G (ge_scalarmult_base G sec)
    \<and> vin tx' = [txin_gen height] \<and> unlock_time tx' = height + 60 \<and> version tx' = 1
    \<and> length (vout tx') \<le> max_outs \<and> sum_list (map amount (vout tx')) = reward + fee \<and> sum_outputs tx' = unat (reward + fee)
    \<and> (\<forall>n < length (vout tx'). \<exists>k. target (vout tx' ! n) = txout_to_key k \<and> out_key G a sec n = Some k)"
proof -
  obtain sec where sec: "keypair_generate G tmp = Some (ge_tobytes G (ge_scalarmult_base G sec), sec)" "sc_check sec = 0"
    using keypair_generate_ok by blast
  define pub where "pub = ge_tobytes G (ge_scalarmult_base G sec)"
  obtain ext where ext: "(if extra_nonce \<noteq> [] then add_extra_nonce_to_tx_extra (add_tx_pub_key_to_extra [] pub) extra_nonce
      else Some (add_tx_pub_key_to_extra [] pub)) = Some ext"
      "get_tx_pub_key_from_extra ext = pub"
    using coinbase_extra_key [OF assms(3)] by blast
  define as where "as = merge_outs max_outs (map chunk_amount (decompose_amount_into_digits (reward + fee) DEFAULT_DUST_THRESHOLD))"
  note amounts = miner_amounts [OF assms(2), of "reward + fee" DEFAULT_DUST_THRESHOLD, folded as_def]
  obtain outs where outs: "miner_outs G a sec 0 as = Some outs" "map amount outs = as"
      "\<forall>n < length as. \<exists>k. target (outs ! n) = txout_to_key k \<and> out_key G a sec n = Some k"
    using miner_outs_ok [OF assms(1), of sec 0 as] by auto
  have len: "length outs = length as" using outs(2) by (metis length_map)
  have sums: "sum_list (map (\<lambda>out. unat (amount out)) outs) = unat (reward + fee)"
    using amounts(3) by (simp add: comp_def flip: outs(2))
  show ?thesis
    using sec ext outs amounts assms(2, 4) len sums
    by (simp add: construct_miner_tx_def Let_def fold_add_sum_list sum_outputs_def CURRENT_TRANSACTION_VERSION_def
        CRYPTONOTE_MINED_MONEY_UNLOCK_WINDOW_def flip: as_def pub_def)
      (auto simp: pub_def)
qed

subsection \<open>Spending\<close>

text \<open>A source that the account can spend: its real output is an output to the account.\<close>

definition source_ok :: "'p ge_ops \<Rightarrow> account_keys \<Rightarrow> tx_source_entry \<Rightarrow> bool" where
  "source_ok G keys src \<longleftrightarrow>
     real_output src < length (outputs src) \<and> (\<forall>p \<in> set (outputs src). check_key G (snd p))
     \<and> is_out_to_acc G keys (snd (outputs src ! real_output src)) (real_out_tx_key src) (real_output_in_tx_index src) = Some True"

lemma key_image_helper_ok:
  assumes "curve_laws G B" "account_ok G keys" "source_ok G keys src"
  shows "\<exists>sec. generate_key_image_helper G keys (real_out_tx_key src) (real_output_in_tx_index src)
      = Some ((snd (outputs src ! real_output src), sec), generate_key_image G (snd (outputs src ! real_output src)) sec)
    \<and> sc_check sec = 0 \<and> snd (outputs src ! real_output src) = ge_tobytes G (ge_scalarmult_base G sec)"
proof -
  obtain d where d: "generate_key_derivation G (real_out_tx_key src) (m_view_secret_key keys) = Some d"
      "derive_public_key G d (real_output_in_tx_index src) (m_spend_public_key (m_account_address keys))
        = Some (snd (outputs src ! real_output src))"
    using assms(3) by (auto simp: source_ok_def is_out_to_acc_def bind_eq_Some_conv)
  obtain pk sk where "derive_public_key G d (real_output_in_tx_index src) (m_spend_public_key (m_account_address keys)) = Some pk"
      "derive_secret_key d (real_output_in_tx_index src) (m_spend_secret_key keys) = Some sk"
      "sc_check sk = 0" "pk = ge_tobytes G (ge_scalarmult_base G sk)"
    using derived_key_pair [OF assms(1), of "m_spend_secret_key keys" "m_spend_public_key (m_account_address keys)" d "real_output_in_tx_index src"] assms(2)
    unfolding account_ok_def by blast
  then show ?thesis using d by (simp add: generate_key_image_helper_def)
qed

text \<open>What \<open>construct_tx\<close> knows of an input and its context.\<close>

definition input_for :: "'p ge_ops \<Rightarrow> tx_source_entry \<Rightarrow> txin \<times> secret_key \<Rightarrow> bool" where
  "input_for G src c \<longleftrightarrow>
     (let key = snd (outputs src ! real_output src)
      in fst c = txin_to_key (src_amount src) (absolute_output_offsets_to_relative (map fst (outputs src))) (generate_key_image G key (snd c))
         \<and> sc_check (snd c) = 0 \<and> key = ge_tobytes G (ge_scalarmult_base G (snd c)))"

lemma fill_inputs_ok:
  assumes "curve_laws G B" "account_ok G keys" "\<forall>src \<in> set srcs. source_ok G keys src"
  shows "\<exists>ins. fill_inputs G keys srcs money = Some (ins, money + sum_list (map src_amount srcs))
    \<and> list_all2 (input_for G) srcs ins"
  using assms(3)
proof (induction srcs arbitrary: money)
  case (Cons src srcs)
  have src: "source_ok G keys src" using Cons.prems by simp
  obtain sec where sec: "generate_key_image_helper G keys (real_out_tx_key src) (real_output_in_tx_index src)
      = Some ((snd (outputs src ! real_output src), sec), generate_key_image G (snd (outputs src ! real_output src)) sec)"
      "sc_check sec = 0" "snd (outputs src ! real_output src) = ge_tobytes G (ge_scalarmult_base G sec)"
    using key_image_helper_ok [OF assms(1, 2) src] by blast
  obtain ins where "fill_inputs G keys srcs (money + src_amount src) = Some (ins, money + src_amount src + sum_list (map src_amount srcs))"
      "list_all2 (input_for G) srcs ins"
    using Cons by auto
  moreover have "input_for G src (txin_to_key (src_amount src) (absolute_output_offsets_to_relative (map fst (outputs src)))
      (generate_key_image G (snd (outputs src ! real_output src)) sec), sec)"
    using sec by (simp add: input_for_def)
  ultimately show ?case using sec(1) src by (simp add: source_ok_def add.assoc)
qed simp

lemma fill_outputs_ok:
  assumes "\<forall>d \<in> set dsts. 0 < dst_amount d \<and> address_ok G (addr d)"
  shows "\<exists>outs. fill_outputs G r i dsts money = Some (outs, money + sum_list (map dst_amount dsts))
    \<and> map amount outs = map dst_amount dsts
    \<and> (\<forall>n < length dsts. \<exists>k. target (outs ! n) = txout_to_key k \<and> out_key G (addr (dsts ! n)) r (i + n) = Some k)"
  using assms
proof (induction dsts arbitrary: i money)
  case (Cons d ds)
  obtain k where k: "out_key G (addr d) r i = Some k" using out_key_defined [of G "addr d" r i] Cons.prems by auto
  then obtain dv where dv: "generate_key_derivation G (m_view_public_key (addr d)) r = Some dv"
      "derive_public_key G dv i (m_spend_public_key (addr d)) = Some k"
    by (auto simp: out_key_def bind_eq_Some_conv)
  obtain outs where outs: "fill_outputs G r (i + 1) ds (money + dst_amount d) = Some (outs, money + dst_amount d + sum_list (map dst_amount ds))"
      "map amount outs = map dst_amount ds"
      "\<forall>n < length ds. \<exists>k. target (outs ! n) = txout_to_key k \<and> out_key G (addr (ds ! n)) r (i + 1 + n) = Some k"
    using Cons.IH [of "i + 1" "money + dst_amount d"] Cons.prems by auto
  have "\<forall>n < length (d # ds). \<exists>k'. target ((\<lparr>amount = dst_amount d, target = txout_to_key k\<rparr> # outs) ! n) = txout_to_key k'
      \<and> out_key G (addr ((d # ds) ! n)) r (i + n) = Some k'"
    using outs(3) k by (auto simp: nth_Cons split: nat.splits)
  then show ?case using dv outs(1, 2) Cons.prems by (simp add: add.assoc)
qed simp

lemma sign_inputs_ok:
  assumes "curve_laws G B" "list_all2 (input_for G) srcs ins" "\<forall>src \<in> set srcs. source_ok G keys src"
  shows "\<exists>sigs. sign_inputs G rnd h i srcs ins = Some sigs \<and> length sigs = length srcs
    \<and> (\<forall>n < length srcs. \<exists>ki. fst (ins ! n) = txin_to_key (src_amount (srcs ! n))
          (absolute_output_offsets_to_relative (map fst (outputs (srcs ! n)))) ki
        \<and> check_ring_signature G h ki (map snd (outputs (srcs ! n))) (sigs ! n) = Some True)"
  using assms(2, 3)
proof (induction srcs ins arbitrary: i rule: list_all2_induct)
  case (Cons src srcs c ins)
  let ?offs = "absolute_output_offsets_to_relative (map fst (outputs src))"
  define ki where "ki = generate_key_image G (snd (outputs src ! real_output src)) (snd c)"
  have src: "source_ok G keys src" using Cons.prems by simp
  have c: "c = (txin_to_key (src_amount src) ?offs ki, snd c)" "sc_check (snd c) = 0"
      "snd (outputs src ! real_output src) = ge_tobytes G (ge_scalarmult_base G (snd c))"
    using Cons.hyps by (cases c; simp add: input_for_def Let_def ki_def)+
  obtain sg where sg: "generate_ring_signature G (rnd i) h ki (map snd (outputs src)) (snd c) (real_output src)
        (replicate (length (outputs src)) 0) = Some sg"
      "check_ring_signature G h ki (map snd (outputs src)) sg = Some True"
    using ring_signature_accepted [OF assms(1), of "real_output src" "map snd (outputs src)" "replicate (length (outputs src)) 0" "snd c" ki "rnd i" h]
      src c by (auto simp: source_ok_def ki_def)
  obtain sigs where sigs: "sign_inputs G rnd h (i + 1) srcs ins = Some sigs" "length sigs = length srcs"
      "\<forall>n < length srcs. \<exists>ki. fst (ins ! n) = txin_to_key (src_amount (srcs ! n))
          (absolute_output_offsets_to_relative (map fst (outputs (srcs ! n)))) ki
        \<and> check_ring_signature G h ki (map snd (outputs (srcs ! n))) (sigs ! n) = Some True"
    using Cons.IH [of "i + 1"] Cons.prems by auto
  have "sign_inputs G rnd h i (src # srcs) (c # ins) = Some (sg # sigs)"
    using sg(1) sigs(1) by (subst c(1)) simp
  moreover have "fst c = txin_to_key (src_amount src) ?offs ki" by (subst c(1)) simp
  ultimately show ?case using sg(2) sigs(2, 3) by (auto simp: nth_Cons split: nat.splits)
qed simp

lemma prefix_hash_signatures: "get_transaction_prefix_hash (tx\<lparr>signatures := s\<rparr>) = get_transaction_prefix_hash tx"
  by (simp add: get_transaction_prefix_hash_def wr_transaction_prefix_def)

lemma lookup_loop_filter:
  assumes "\<And>n. n < length os \<Longrightarrow> \<exists>k. target (os ! n) = txout_to_key k \<and> is_out_to_acc G acc k pub (i + n) = Some (m (i + n))"
  shows "\<exists>money'. lookup_acc_outs_loop G acc pub i os outs money = Some (outs @ filter m [i..<i + length os], money')"
  using assms
proof (induction os arbitrary: i outs money)
  case (Cons out os)
  obtain k where k: "target out = txout_to_key k" "is_out_to_acc G acc k pub i = Some (m i)"
    using Cons.prems [of 0] by auto
  define ns where "ns = [Suc i..<Suc i + length os]"
  have IH: "\<exists>money'. lookup_acc_outs_loop G acc pub (Suc i) os outs' money'' = Some (outs' @ filter m ns, money')"
    for outs' money'' unfolding ns_def using Cons.prems [of "Suc n" for n] by (intro Cons.IH) auto
  have "[i..<i + length (out # os)] = i # ns" by (simp add: ns_def upt_rec [of i] Suc_le_eq)
  then show ?case using k IH [of "outs @ [i]" "money + amount out"] IH [of outs money] by (cases "m i") simp_all
qed simp

lemma is_out_to_acc_defined:
  assumes "curve_laws G B" "account_ok G acc"
  shows "is_out_to_acc G acc k (ge_tobytes G P) n = Some (is_out_to_acc G acc k (ge_tobytes G P) n = Some True)"
proof -
  have "check_key G (m_spend_public_key (m_account_address acc))" using account_ok_address [OF assms] by simp
  then show ?thesis
    using curve_lawsD(1) [OF assms(1)]
    by (auto simp: is_out_to_acc_def generate_key_derivation_def derive_public_key_def derivation_to_scalar_def check_key_def)
qed

lemma sum_list_sort_key: "sum_list (map f (sort_key g xs)) = (sum_list (map f xs) :: 'a::comm_monoid_add)"
  by (metis mset_map mset_sort sum_mset_sum_list)

lemma construct_tx_ok:
  assumes "curve_laws G B" "account_ok G keys" "\<forall>src \<in> set sources. source_ok G keys src"
    and "\<forall>d \<in> set destinations. 0 < dst_amount d \<and> address_ok G (addr d)"
    and "sum_list (map dst_amount destinations) \<le> sum_list (map src_amount sources)"
  shows "\<exists>tx sec. construct_tx G tmp rnd keys sources destinations ext unlock = Some tx
    \<and> sc_check sec = 0 \<and> extra tx = add_tx_pub_key_to_extra ext (ge_tobytes G (ge_scalarmult_base G sec))
    \<and> length (vin tx) = length sources \<and> length (signatures tx) = length sources
    \<and> (\<forall>n < length sources. \<exists>ki. vin tx ! n = txin_to_key (src_amount (sources ! n))
          (absolute_output_offsets_to_relative (map fst (outputs (sources ! n)))) ki
        \<and> check_ring_signature G (get_transaction_prefix_hash tx) ki (map snd (outputs (sources ! n))) (signatures tx ! n) = Some True)
    \<and> map amount (vout tx) = map dst_amount (sort_key dst_amount destinations)
    \<and> (\<forall>n < length (vout tx). \<exists>k. target (vout tx ! n) = txout_to_key k
          \<and> out_key G (addr (sort_key dst_amount destinations ! n)) sec n = Some k)"
proof -
  obtain sec where sec: "keypair_generate G tmp = Some (ge_tobytes G (ge_scalarmult_base G sec), sec)" "sc_check sec = 0"
    using keypair_generate_ok by blast
  obtain ins where ins: "fill_inputs G keys sources 0 = Some (ins, sum_list (map src_amount sources))"
      "list_all2 (input_for G) sources ins"
    using fill_inputs_ok [OF assms(1-3), of 0] by auto
  have len: "length ins = length sources" using ins(2) by (simp add: list_all2_lengthD)
  obtain outs where outs: "fill_outputs G sec 0 (sort_key dst_amount destinations) 0 = Some (outs, sum_list (map dst_amount destinations))"
      "map amount outs = map dst_amount (sort_key dst_amount destinations)"
      "\<forall>n < length destinations. \<exists>k. target (outs ! n) = txout_to_key k
          \<and> out_key G (addr (sort_key dst_amount destinations ! n)) sec n = Some k"
    using fill_outputs_ok [of "sort_key dst_amount destinations" G sec 0 0] assms(4) by (auto simp: sum_list_sort_key)
  have lo: "length outs = length destinations" using arg_cong [OF outs(2), of length] by simp
  define tx where "tx = \<lparr>version = CURRENT_TRANSACTION_VERSION, unlock_time = unlock, vin = map fst ins, vout = outs,
    extra = add_tx_pub_key_to_extra ext (ge_tobytes G (ge_scalarmult_base G sec)), signatures = []\<rparr>"
  obtain sigs where sigs: "sign_inputs G rnd (get_transaction_prefix_hash tx) 0 sources ins = Some sigs" "length sigs = length sources"
      "\<forall>n < length sources. \<exists>ki. fst (ins ! n) = txin_to_key (src_amount (sources ! n))
          (absolute_output_offsets_to_relative (map fst (outputs (sources ! n)))) ki
        \<and> check_ring_signature G (get_transaction_prefix_hash tx) ki (map snd (outputs (sources ! n))) (sigs ! n) = Some True"
    using sign_inputs_ok [OF assms(1) ins(2) assms(3)] by blast
  have "construct_tx G tmp rnd keys sources destinations ext unlock = Some (tx\<lparr>signatures := sigs\<rparr>)"
    using sec ins outs sigs(1) assms(5) by (simp add: construct_tx_def Let_def not_less flip: tx_def)
  then show ?thesis
    using sec(2) sigs(2, 3) outs(2, 3) len lo
    by (intro exI [of _ "tx\<lparr>signatures := sigs\<rparr>"] exI [of _ sec]) (simp add: prefix_hash_signatures, simp add: tx_def)
qed

subsection \<open>Properties\<close>

text \<open>
  C4. Transactions of the wallet verify: if the account's keys are consistent, every source is an
  output to the account among valid keys, every destination has a positive amount and valid keys,
  and the outputs do not exceed the inputs, then \<open>construct_tx\<close> succeeds for all random bytes. Each
  input carries the amount and the relative offsets of its ring, and its ring signature over the
  prefix hash of the finished transaction is accepted by \<open>check_ring_signature\<close>. The outputs carry
  exactly the amounts of the destinations.
\<close>

theorem construct_tx_verifies:
  assumes "curve_laws G B" "account_ok G keys" "\<forall>src \<in> set sources. source_ok G keys src"
    and "\<forall>d \<in> set destinations. 0 < dst_amount d \<and> check_key G (m_spend_public_key (addr d)) \<and> check_key G (m_view_public_key (addr d))"
    and "sum_list (map dst_amount destinations) \<le> sum_list (map src_amount sources)"
  shows "\<exists>tx. construct_tx G tmp rnd keys sources destinations ext unlock = Some tx
    \<and> length (vin tx) = length sources \<and> length (signatures tx) = length sources
    \<and> (\<forall>n < length sources. \<exists>ki. vin tx ! n = txin_to_key (src_amount (sources ! n))
          (absolute_output_offsets_to_relative (map fst (outputs (sources ! n)))) ki
        \<and> check_ring_signature G (get_transaction_prefix_hash tx) ki (map snd (outputs (sources ! n))) (signatures tx ! n) = Some True)
    \<and> mset (map amount (vout tx)) = mset (map dst_amount destinations)"
proof -
  have "mset (map dst_amount (sort_key dst_amount destinations)) = mset (map dst_amount destinations)" by simp
  then show ?thesis using construct_tx_ok [OF assms, of tmp rnd ext unlock] by (metis (no_types, lifting))
qed

definition z_account :: account_keys where
  "z_account = \<lparr>m_account_address = \<lparr>m_spend_public_key = ge_tobytes z_ops (ge_scalarmult_base z_ops 1),
     m_view_public_key = ge_tobytes z_ops (ge_scalarmult_base z_ops 1)\<rparr>, m_spend_secret_key = 1, m_view_secret_key = 1\<rparr>"

lemma z_account_ok: "account_ok z_ops z_account"
  by (simp add: account_ok_def z_account_def sc_check_1)

text \<open>An output that the account has received with the transaction key 1.\<close>

definition z_source :: tx_source_entry where
  "z_source = \<lparr>outputs = [(5, ge_tobytes z_ops z_base), (9, the (out_key z_ops (m_account_address z_account) 1 0))],
     real_output = 1, real_out_tx_key = ge_tobytes z_ops (ge_scalarmult_base z_ops 1), real_output_in_tx_index = 0, src_amount = 100\<rparr>"

lemma z_source_ok: "source_ok z_ops z_account z_source"
proof -
  have "address_ok z_ops (m_account_address z_account)" by (rule account_ok_address [OF z_laws z_account_ok])
  then obtain k where k: "out_key z_ops (m_account_address z_account) 1 0 = Some k" using out_key_defined by blast
  then have "is_out_to_acc z_ops z_account k (ge_tobytes z_ops (ge_scalarmult_base z_ops 1)) 0 = Some True"
    by (intro out_key_received [OF z_laws z_account_ok sc_check_1])
  moreover have "check_key z_ops k"
    using k z_check_key by (auto simp: out_key_def derive_public_key_def bind_eq_Some_conv)
  ultimately show ?thesis using k by (simp add: source_ok_def z_source_def z_check_key)
qed

theorem construct_tx_verifies_witness:
  "\<exists>tx. construct_tx z_ops 3 (\<lambda>i n. of_nat (i + n)) z_account [z_source]
       [\<lparr>dst_amount = 60, addr = m_account_address z_account\<rparr>, \<lparr>dst_amount = 30, addr = m_account_address z_account\<rparr>] [] 0 = Some tx
     \<and> length (signatures tx) = 1 \<and> mset (map amount (vout tx)) = {#60, 30#}"
  using construct_tx_verifies [OF z_laws z_account_ok, of "[z_source]"
      "[\<lparr>dst_amount = 60, addr = m_account_address z_account\<rparr>, \<lparr>dst_amount = 30, addr = m_account_address z_account\<rparr>]"
      3 "\<lambda>i n. of_nat (i + n)" "[]" 0] z_source_ok account_ok_address [OF z_laws z_account_ok]
  by (auto simp: z_source_def)



text \<open>
  C14. The coinbase transaction: whenever the block is not too big, \<open>construct_miner_tx\<close> succeeds for at
  least one output and a nonce of at most 255 bytes. The result is a coinbase transaction for the
  height, locked for 60 blocks, with at most \<open>max_outs\<close> outputs that pay exactly the reward plus the fee
  (modulo \<open>2 ^ 64\<close>), and the miner's account finds all of them.
\<close>

theorem construct_miner_tx_pays:
  assumes "curve_laws G B" "account_ok G acc" "1 \<le> max_outs" "length extra_nonce \<le> 255"
    and "get_block_reward median_size current_block_size already_generated_coins = Some reward"
  shows "\<exists>tx'. construct_miner_tx G tmp height median_size already_generated_coins current_block_size fee
        (m_account_address acc) tx extra_nonce max_outs = Some tx'
    \<and> is_coinbase tx' \<and> vin tx' = [txin_gen height] \<and> unlock_time tx' = height + 60
    \<and> length (vout tx') \<le> max_outs \<and> sum_outputs tx' = unat (reward + fee)
    \<and> lookup_acc_outs_with_key G acc tx' (get_tx_pub_key_from_extra (extra tx')) [] = Some ([0..<length (vout tx')], reward + fee)"
proof -
  obtain tx' sec where tx: "construct_miner_tx G tmp height median_size already_generated_coins current_block_size fee
        (m_account_address acc) tx extra_nonce max_outs = Some tx'"
      "sc_check sec = 0" "get_tx_pub_key_from_extra (extra tx') = ge_tobytes G (ge_scalarmult_base G sec)"
      "vin tx' = [txin_gen height]" "unlock_time tx' = height + 60" "length (vout tx') \<le> max_outs"
      "sum_list (map amount (vout tx')) = reward + fee" "sum_outputs tx' = unat (reward + fee)"
      "\<forall>n < length (vout tx'). \<exists>k. target (vout tx' ! n) = txout_to_key k \<and> out_key G (m_account_address acc) sec n = Some k"
    using construct_miner_tx_ok [OF account_ok_address [OF assms(1, 2)] assms(3-5)] by blast
  have "lookup_acc_outs_loop G acc (ge_tobytes G (ge_scalarmult_base G sec)) 0 (vout tx') [] 0
      = Some ([] @ [0..<0 + length (vout tx')], 0 + sum_list (map amount (vout tx')))"
    using tx(9) out_key_received [OF assms(1, 2) tx(2)] by (intro lookup_all_mine) auto
  then show ?thesis
    using tx by (auto simp: lookup_acc_outs_with_key_def is_coinbase_def)
qed

theorem construct_miner_tx_pays_witness:
  "\<exists>tx'. construct_miner_tx z_ops 3 7 0 0 0 5 (m_account_address z_account) set_null [1, 2] 1 = Some tx'
     \<and> is_coinbase tx' \<and> sum_outputs tx' = 17592186044420 \<and> length (vout tx') \<le> 1"
  using construct_miner_tx_pays [OF z_laws z_account_ok, of 1 "[1, 2]" 0 0 0 17592186044415 3 7 5 set_null]
  by (auto simp: get_block_reward_def Let_def MONEY_SUPPLY_def EMISSION_SPEED_FACTOR_def FINAL_SUBSIDY_PER_MINUTE_def
      CRYPTONOTE_BLOCK_GRANTED_FULL_REWARD_ZONE_def mask_eq_exp_minus_1)

end
