(* ===== verification/Checkpoints.thy ===== *)
theory Checkpoints
  imports Format_Utils
begin

text \<open>
  \<open>src/cryptonote_core/checkpoints.cpp\<close> and \<open>checkpoints_create.cpp\<close>: hard-coded block ids at some
  heights, and the rules that follow from them. The \<open>std::map\<close> of points is a list of pairs in the
  order of the heights. Reading the JSON file and the DNS records is a parameter.
\<close>

subsection \<open>The ordered map of points\<close>

type_synonym points = "(u64 \<times> hash) list"

text \<open>\<open>m_points[height] = h\<close> of an ordered map.\<close>

fun points_insert :: "u64 \<Rightarrow> hash \<Rightarrow> points \<Rightarrow> points" where
  "points_insert k v [] = [(k, v)]"
| "points_insert k v ((k', v') # ps) =
     (if k < k' then (k, v) # (k', v') # ps
      else if k = k' then (k, v) # ps
      else (k', v') # points_insert k v ps)"

subsection \<open>Operations\<close>

definition add_checkpoint :: "u64 \<Rightarrow> blob \<Rightarrow> points \<Rightarrow> points option" where
  "add_checkpoint height hash_str m_points = do {
     h \<leftarrow> parse_tpod_from_hex_string 32 hash_str;
     case map_of m_points height of
       Some h' \<Rightarrow> if h = h' then Some (points_insert height h m_points) else None
     | None \<Rightarrow> Some (points_insert height h m_points) }"

definition is_in_checkpoint_zone :: "points \<Rightarrow> u64 \<Rightarrow> bool" where
  "is_in_checkpoint_zone m_points height \<longleftrightarrow> m_points \<noteq> [] \<and> height \<le> fst (last m_points)"

text \<open>The result and \<open>is_a_checkpoint\<close>.\<close>

definition check_block_point :: "points \<Rightarrow> u64 \<Rightarrow> hash \<Rightarrow> bool \<times> bool" where
  "check_block_point m_points height h =
     (case map_of m_points height of None \<Rightarrow> (True, False) | Some h' \<Rightarrow> (h' = h, True))"

definition check_block :: "points \<Rightarrow> u64 \<Rightarrow> hash \<Rightarrow> bool" where
  "check_block m_points height h = fst (check_block_point m_points height h)"

text \<open>\<open>upper_bound\<close> is the first position with a greater key; \<open>takeWhile\<close> are the points before it.\<close>

definition is_alternative_block_allowed :: "points \<Rightarrow> u64 \<Rightarrow> u64 \<Rightarrow> bool" where
  "is_alternative_block_allowed m_points blockchain_height block_height =
     (if block_height = 0 then False
      else
        let before = takeWhile (\<lambda>p. \<not> blockchain_height < fst p) m_points
        in if before = [] then True else fst (last before) < block_height)"

text \<open>\<open>std::max_element\<close> on an empty map is the end iterator, whose use is undefined (\<open>None\<close>).\<close>

definition get_max_height :: "points \<Rightarrow> u64 option" where
  "get_max_height m_points = (if m_points = [] then None else Some (foldl (\<lambda>m p. if m < fst p then fst p else m) (fst (hd m_points)) (tl m_points)))"

fun check_for_conflicts :: "points \<Rightarrow> points \<Rightarrow> bool" where
  "check_for_conflicts m_points [] = True"
| "check_for_conflicts m_points ((height, h) # other) =
     (case map_of m_points height of
        Some h' \<Rightarrow> if h = h' then check_for_conflicts m_points other else False
      | None \<Rightarrow> check_for_conflicts m_points other)"

subsection \<open>Loading points\<close>

text \<open>A sequence of \<open>ADD_CHECKPOINT\<close>: the first failure ends it, and the points added before it stay.\<close>

fun add_checkpoints :: "(u64 \<times> blob) list \<Rightarrow> points \<Rightarrow> bool \<times> points" where
  "add_checkpoints [] m_points = (True, m_points)"
| "add_checkpoints ((height, hash_str) # ps) m_points =
     (case add_checkpoint height hash_str m_points of
        None \<Rightarrow> (False, m_points)
      | Some m_points \<Rightarrow> add_checkpoints ps m_points)"

definition hard_coded_points :: "(u64 \<times> blob) list" where
  "hard_coded_points =
     [(1, lit ''771fbcd656ec1464d3a02ead5e18644030007a0fc664c0a964d30922821a8148''),
      (10, lit ''c0e3b387e47042f72d8ccdca88071ff96bff1ac7cde09ae113dbb7ad3fe92381''),
      (100, lit ''ac3e11ca545e57c49fca2b4e8c48c03c23be047c43e471e1394528b1f9f80b2d''),
      (1000, lit ''5acfc45acffd2b2e7345caf42fa02308c5793f15ec33946e969e829f40b03876''),
      (10000, lit ''c758b7c81f928be3295d45e230646de8b852ec96a821eac3fea4daf3fcac0ca2''),
      (22231, lit ''7cb10e29d67e1c069e6e11b17d30b809724255fee2f6868dc14cfc6ed44dfb25''),
      (29556, lit ''53c484a8ed91e4da621bb2fa88106dbde426fe90d7ef07b9c1e5127fb6f3a7f6''),
      (50000, lit ''0fe8758ab06a8b9cb35b7328fd4f757af530a5d37759f9d3e421023231f7b31c''),
      (80000, lit ''a62dcd7b536f22e003ebae8726e9e7276f63d594e264b6f0cd7aab27b66e75e3''),
      (202612, lit ''bbd604d2ba11ba27935e006ed39c9bfdd99b76bf4a50654bc1e1e61217962698''),
      (202613, lit ''e2aa337e78df1f98f462b3b1e560c6b914dec47b610698b7b7d1e3e86b6197c2''),
      (202614, lit ''c29e3dc37d8da3e72e506e31a213a58771b24450144305bcba9e70fa4d6ea6fb''),
      (205000, lit ''5d3d7a26e6dc7535e34f03def711daa8c263785f73ec1fadef8a45880fde8063''),
      (220000, lit ''9613f455933c00e3e33ac315cc6b455ee8aa0c567163836858c2d9caff111553''),
      (230300, lit ''bae7a80c46859db355556e3a9204a337ae8f24309926a1312323fdecf1920e61''),
      (230700, lit ''93e631240ceac831da1aebfc5dac8f722c430463024763ebafa888796ceaeedf''),
      (231350, lit ''b5add137199b820e1ea26640e5c3e121fd85faa86a1e39cf7e6cc097bdeb1131''),
      (232150, lit ''955de8e6b6508af2c24f7334f97beeea651d78e9ade3ab18fec3763be3201aa8''),
      (249380, lit ''654fb0a81ce3e5caf7e3264a70f447d4bd07586c08fa50f6638cc54da0a52b2d''),
      (460000, lit ''75037a7aed3e765db96c75bcf908f59d690a5f3390baebb9edeafd336a1c4831'')]"

definition create_checkpoints :: "points \<Rightarrow> bool \<times> points" where
  "create_checkpoints m_points = add_checkpoints hard_coded_points m_points"

text \<open>
  The argument is the content of the JSON file, if it exists. The result \<open>None\<close> is the undefined value of
  \<open>get_max_height\<close> for the empty map.
\<close>

definition load_checkpoints_from_json :: "(u64 \<times> blob) list option \<Rightarrow> points \<Rightarrow> (bool \<times> points) option" where
  "load_checkpoints_from_json hashlines m_points =
     (case hashlines of
        None \<Rightarrow> Some (True, m_points)
      | Some ls \<Rightarrow> do {
          prev_max_height \<leftarrow> get_max_height m_points;
          Some (add_checkpoints (filter (\<lambda>l. \<not> fst l \<le> prev_max_height) ls) m_points) })"

text \<open>
  \<open>load_checkpoints_from_dns\<close>: \<open>query i\<close> is the answer for the \<open>i\<close>-th of the four names, its records with
  the flags \<open>avail\<close> and \<open>valid\<close>. The loop tries the names in cyclic order from \<open>first_index\<close>.
\<close>

definition dns_urls_size :: nat where "dns_urls_size = 4"

fun dns_query_loop :: "(nat \<Rightarrow> blob list \<times> bool \<times> bool) \<Rightarrow> nat \<Rightarrow> nat \<Rightarrow> nat \<Rightarrow> blob list option" where
  "dns_query_loop query first_index cur_index 0 = None"
| "dns_query_loop query first_index cur_index (Suc fuel) =
     (let (records, avail, valid) = query cur_index
      in if length records = 0 \<or> \<not> avail \<or> \<not> valid then
           let cur_index = cur_index + 1;
               cur_index = (if cur_index = dns_urls_size then 0 else cur_index)
           in if cur_index \<noteq> first_index then dns_query_loop query first_index cur_index fuel else Some []
         else Some records)"

text \<open>\<open>ss >> height\<close> for an unsigned 64-bit number: white space, a sign, then at least one digit.\<close>

definition read_height :: "blob \<Rightarrow> u64 option" where
  "read_height s =
     (let r = dropWhile isspace s;
          neg = (r \<noteq> [] \<and> r ! 0 = 45);
          r = (if r \<noteq> [] \<and> (r ! 0 = 43 \<or> r ! 0 = 45) then drop 1 r else r);
          ds = takeWhile isdigit r
      in if ds = [] \<or> 2 ^ 64 \<le> dec_value ds then None
         else Some (if neg then - of_nat (dec_value ds) else of_nat (dec_value ds)))"

fun add_dns_records :: "blob list \<Rightarrow> points \<Rightarrow> bool \<times> points" where
  "add_dns_records [] m_points = (True, m_points)"
| "add_dns_records (record # records) m_points =
     (let pos = length (takeWhile (\<lambda>c. c \<noteq> 58) record)
      in if pos < length record then
           case read_height (take pos record) of
             None \<Rightarrow> add_dns_records records m_points
           | Some height \<Rightarrow>
               let hash_str = drop (pos + 1) record
               in case parse_tpod_from_hex_string 32 hash_str :: hash option of
                    None \<Rightarrow> add_dns_records records m_points
                  | Some h \<Rightarrow>
                      (case add_checkpoint height hash_str m_points of
                         None \<Rightarrow> (False, m_points)
                       | Some m_points \<Rightarrow> add_dns_records records m_points)
         else add_dns_records records m_points)"

definition load_checkpoints_from_dns :: "(nat \<Rightarrow> blob list \<times> bool \<times> bool) \<Rightarrow> nat \<Rightarrow> points \<Rightarrow> (bool \<times> points) option" where
  "load_checkpoints_from_dns query first_index m_points = do {
     records \<leftarrow> dns_query_loop query first_index first_index dns_urls_size;
     Some (add_dns_records records m_points) }"

definition load_new_checkpoints :: "(u64 \<times> blob) list option \<Rightarrow> (nat \<Rightarrow> blob list \<times> bool \<times> bool) \<Rightarrow> nat \<Rightarrow> points \<Rightarrow> (bool \<times> points) option" where
  "load_new_checkpoints hashlines query first_index m_points = do {
     (r, m_points) \<leftarrow> load_checkpoints_from_json hashlines m_points;
     if \<not> r then Some (False, m_points) else load_checkpoints_from_dns query first_index m_points }"

subsection \<open>The invariant of the map\<close>

definition points_ok :: "points \<Rightarrow> bool" where
  "points_ok m_points = sorted_wrt (<) (map fst m_points)"

subsection \<open>The interface of the map\<close>

text \<open>
  What the operations on checkpoints rely on: an insertion changes the value at one key only and
  keeps the map well formed. Whoever adds points that agree with the present ones, as
  \<open>add_checkpoint\<close> ensures, only extends the map.
\<close>

locale point_map =
  fixes ok :: "'m \<Rightarrow> bool" and look :: "'m \<Rightarrow> 'k \<rightharpoonup> 'v" and ins :: "'k \<Rightarrow> 'v \<Rightarrow> 'm \<Rightarrow> 'm"
  assumes ok_ins: "ok m \<Longrightarrow> ok (ins k v m)"
    and look_ins: "ok m \<Longrightarrow> look (ins k v m) = (look m)(k \<mapsto> v)"
begin

lemma ins_extends: "ok m \<Longrightarrow> look m k = None \<or> look m k = Some v \<Longrightarrow> look m \<subseteq>\<^sub>m look (ins k v m)"
  by (auto simp: look_ins map_le_def)

definition extension :: "'m \<Rightarrow> 'm \<Rightarrow> bool" where
  "extension m m' \<longleftrightarrow> ok m' \<and> look m \<subseteq>\<^sub>m look m'"

lemma extension_refl: "ok m \<Longrightarrow> extension m m"
  by (simp add: extension_def)

lemma extension_trans: "extension m m' \<Longrightarrow> extension m' m'' \<Longrightarrow> extension m m''"
  by (auto simp: extension_def intro: map_le_trans)

lemma extension_ins: "ok m \<Longrightarrow> look m k = None \<or> look m k = Some v \<Longrightarrow> extension m (ins k v m)"
  by (simp add: extension_def ok_ins ins_extends)

end

lemma points_ok_simps [simp]:
  "points_ok []"
  "points_ok (p # ps) \<longleftrightarrow> (\<forall>q \<in> set ps. fst p < fst q) \<and> points_ok ps"
  by (simp_all add: points_ok_def)

lemma set_points_insert: "fst ` set (points_insert k v ps) = insert k (fst ` set ps)"
  by (induction k v ps rule: points_insert.induct) auto

lemma points_ok_insert: "points_ok ps \<Longrightarrow> points_ok (points_insert k v ps)"
proof (induction k v ps rule: points_insert.induct)
  case (2 k v k' v' ps)
  have "k' < fst q" if "q \<in> set (points_insert k v ps)" "k' < k" "\<forall>q \<in> set ps. k' < fst q" for q
    using set_points_insert [of k v ps] that by (metis (no_types, lifting) image_eqI image_iff insert_iff)
  with 2 show ?case by (auto intro: less_trans)
qed simp

lemma map_of_points_insert: "points_ok ps \<Longrightarrow> map_of (points_insert k v ps) = (map_of ps)(k \<mapsto> v)"
proof (induction k v ps rule: points_insert.induct)
  case (2 k v k' v' ps)
  then show ?case by (auto simp: fun_eq_iff)
qed auto

interpretation points: point_map points_ok map_of points_insert
  by unfold_locales (simp_all add: points_ok_insert map_of_points_insert)

lemma add_checkpoint_extends:
  "points_ok ps \<Longrightarrow> add_checkpoint height s ps = Some ps' \<Longrightarrow> points.extension ps ps'"
  by (cases "map_of ps height")
    (auto simp: add_checkpoint_def bind_eq_Some_conv intro!: points.extension_ins split: if_splits)

lemma add_checkpoints_extends: "points_ok ps \<Longrightarrow> add_checkpoints ls ps = (r, ps') \<Longrightarrow> points.extension ps ps'"
proof (induction ls arbitrary: ps)
  case (Cons l ls)
  obtain height s where l: "l = (height, s)" by (cases l)
  show ?case
  proof (cases "add_checkpoint height s ps")
    case None
    then show ?thesis using Cons.prems by (simp add: l points.extension_refl)
  next
    case (Some ps1)
    then have "points.extension ps ps1" using Cons.prems add_checkpoint_extends by blast
    then show ?thesis using Cons.IH [of ps1] Cons.prems Some points.extension_trans by (auto simp: l points.extension_def)
  qed
qed (simp add: points.extension_refl)

lemma load_json_extends:
  "points_ok ps \<Longrightarrow> load_checkpoints_from_json hashlines ps = Some (r, ps') \<Longrightarrow> points.extension ps ps'"
  by (auto simp: load_checkpoints_from_json_def bind_eq_Some_conv points.extension_refl add_checkpoints_extends split: option.splits)

lemma add_dns_records_extends: "points_ok ps \<Longrightarrow> add_dns_records rs ps = (r, ps') \<Longrightarrow> points.extension ps ps'"
proof (induction rs arbitrary: ps)
  case (Cons rd rs)
  from Cons.prems(2) consider "add_dns_records rs ps = (r, ps')" | "ps' = ps"
    | height s ps1 where "add_checkpoint height s ps = Some ps1" "add_dns_records rs ps1 = (r, ps')"
    by (auto simp: Let_def split: if_splits option.splits)
  then show ?case
  proof cases
    case 3
    then have "points.extension ps ps1" using Cons.prems(1) add_checkpoint_extends by blast
    then show ?thesis using Cons.IH [of ps1] 3(2) points.extension_trans by (auto simp: points.extension_def)
  qed (use Cons points.extension_refl in blast)+
qed (simp add: points.extension_refl)

text \<open>The loop over the names of the servers visits at most four of them: the fuel is enough.\<close>

lemma dns_query_loop_defined:
  assumes "first_index < dns_urls_size"
  shows "dns_query_loop query first_index first_index dns_urls_size \<noteq> None"
proof -
  from assms consider "first_index = 3" | "first_index = 2" | "first_index = 1" | "first_index = 0"
    unfolding dns_urls_size_def by linarith
  then show ?thesis
    by cases (simp_all add: dns_urls_size_def numeral_eq_Suc Let_def split: prod.splits)
qed

lemma load_dns_extends:
  "points_ok ps \<Longrightarrow> load_checkpoints_from_dns query first_index ps = Some (r, ps') \<Longrightarrow> points.extension ps ps'"
  by (auto simp: load_checkpoints_from_dns_def bind_eq_Some_conv add_dns_records_extends)

lemma load_new_extends:
  assumes "points_ok ps" "load_new_checkpoints hashlines query first_index ps = Some (r, ps')"
  shows "points.extension ps ps'"
proof -
  from assms(2) obtain r1 ps1 where l: "load_checkpoints_from_json hashlines ps = Some (r1, ps1)"
    and d: "(if \<not> r1 then Some (False, ps1) else load_checkpoints_from_dns query first_index ps1) = Some (r, ps')"
    by (auto simp: load_new_checkpoints_def bind_eq_Some_conv)
  note ext = load_json_extends [OF assms(1) l]
  then have "points.extension ps1 ps'"
    using d load_dns_extends [of ps1] by (auto simp: points.extension_def points.extension_refl split: if_splits)
  then show ?thesis using ext points.extension_trans by (auto simp: points.extension_def)
qed

subsection \<open>Exactness of the rules\<close>

lemma last_is_max: "points_ok ps \<Longrightarrow> ps \<noteq> [] \<Longrightarrow> p \<in> set ps \<Longrightarrow> fst p \<le> fst (last ps)"
  by (induction ps) (auto intro: less_imp_le split: if_splits)

lemma zone_iff: "points_ok ps \<Longrightarrow> is_in_checkpoint_zone ps height \<longleftrightarrow> (\<exists>p \<in> set ps. height \<le> fst p)"
  using last_is_max [of ps] last_in_set [of ps] by (fastforce simp: is_in_checkpoint_zone_def)

lemma points_ok_takeWhile: "points_ok ps \<Longrightarrow> points_ok (takeWhile P ps)"
  by (induction ps) (auto dest: set_takeWhileD)

lemma takeWhile_upper_bound:
  "points_ok ps \<Longrightarrow> set (takeWhile (\<lambda>p. \<not> bh < fst p) ps) = {p \<in> set ps. fst p \<le> bh}"
  by (induction ps) (auto simp: not_less dest: less_le_trans)

lemma alternative_allowed_iff:
  assumes "points_ok ps"
  shows "is_alternative_block_allowed ps bh h \<longleftrightarrow> h \<noteq> 0 \<and> (\<forall>p \<in> set ps. fst p \<le> bh \<longrightarrow> fst p < h)"
proof -
  define before where "before = takeWhile (\<lambda>p. \<not> bh < fst p) ps"
  have set: "set before = {p \<in> set ps. fst p \<le> bh}" unfolding before_def by (rule takeWhile_upper_bound [OF assms])
  have ok: "points_ok before" unfolding before_def by (rule points_ok_takeWhile [OF assms])
  have "(\<forall>p \<in> set before. fst p < h) \<longleftrightarrow> fst (last before) < h" if "before \<noteq> []"
    using last_is_max [OF ok that] last_in_set [OF that] by (meson le_less_trans)
  then show ?thesis
    using set by (cases "before = []") (auto simp: is_alternative_block_allowed_def simp flip: before_def)
qed

lemma max_height_last: "points_ok ps \<Longrightarrow> ps \<noteq> [] \<Longrightarrow> get_max_height ps = Some (fst (last ps))"
proof -
  have "foldl (\<lambda>m p. if m < fst p then fst p else m) k ps = (if ps = [] then k else fst (last ps))"
    if "points_ok ps" "\<forall>p \<in> set ps. k < fst p" for k and ps :: points
    using that by (induction ps arbitrary: k) auto
  then show "points_ok ps \<Longrightarrow> ps \<noteq> [] \<Longrightarrow> get_max_height ps = Some (fst (last ps))"
    by (cases ps) (auto simp: get_max_height_def)
qed

lemma conflicts_iff:
  "check_for_conflicts ps qs \<longleftrightarrow> (\<forall>(k, v) \<in> set qs. map_of ps k = None \<or> map_of ps k = Some v)"
  by (induction ps qs rule: check_for_conflicts.induct) (auto split: option.splits)

text \<open>The hard-coded points: 64 hexadecimal digits each, at ascending heights.\<close>

definition hex64 :: "blob \<Rightarrow> bool" where
  "hex64 s \<longleftrightarrow> length s = 64 \<and> list_all (\<lambda>c. hex_value c \<noteq> None) s"

lemma hex64_lit:
  assumes "length s = 64" "list_all (\<lambda>c. c \<in> set ''0123456789abcdef'') s"
  shows "hex64 (lit s)"
proof -
  have "hex_value (of_char c) \<noteq> None" if "c \<in> set ''0123456789abcdef''" for c
    using that by (simp; elim disjE; simp add: hex_value_def)
  then show ?thesis using assms by (auto simp: hex64_def lit_def list_all_iff)
qed

lemma hard_coded_hex64: "list_all (\<lambda>p. hex64 (snd p)) hard_coded_points"
  unfolding hard_coded_points_def list.pred_inject snd_conv
  by (intro conjI TrueI hex64_lit) simp_all

lemma hard_coded_heights: "sorted_wrt (<) (map fst hard_coded_points)"
  by (simp add: hard_coded_points_def)

lemma hex_value_digit_props:
  assumes "hex_value c \<noteq> None"
  shows "\<not> isspace c" "c \<noteq> 43" "c \<noteq> 45" "the (hex_value c) < 16"
  using assms by (auto simp: hex_value_def isspace_def word_le_nat_alt word_unat_eq_iff split: if_splits)

lemma parse_hexstr_loop_hex64:
  assumes "\<And>i. i \<in> set is \<Longrightarrow> 2 * i + 1 < length s" "list_all (\<lambda>c. hex_value c \<noteq> None) s"
  shows "\<exists>bs. parse_hexstr_loop s is res = Some (res @ bs) \<and> length bs = length is"
  using assms(1)
proof (induction "is" arbitrary: res)
  case (Cons i js)
  have i: "2 * i + 1 < length s" using Cons.prems by simp
  have "take 2 (drop (2 * i) s) = [s ! (2 * i), s ! (2 * i + 1)]"
    using i by (auto simp: numeral_2_eq_2 take_Suc_conv_app_nth nth_append intro: nth_equalityI)
  moreover have h: "hex_value (s ! (2 * i)) \<noteq> None" "hex_value (s ! (2 * i + 1)) \<noteq> None"
    using assms(2) i by (auto simp: list_all_length)
  ultimately obtain v where v: "strtoul_16 (take 2 (drop (2 * i) s)) = Some v" "0 \<le> v" "v \<le> 255"
    using hex_value_digit_props [OF h(1)] hex_value_digit_props [OF h(2)] by (auto simp: strtoul_16_def)
  obtain bs where "parse_hexstr_loop s js (res @ [word_of_int v]) = Some ((res @ [word_of_int v]) @ bs)" "length bs = length js"
    using Cons.IH [of "res @ [word_of_int v]"] Cons.prems by auto
  then show ?case using v by (intro exI [of _ "word_of_int v # bs"]) simp
qed simp

lemma parse_hex64: "hex64 s \<Longrightarrow> \<exists>h. parse_tpod_from_hex_string 32 s = Some (h :: hash)"
proof -
  assume s: "hex64 s"
  have "\<exists>bs. parse_hexstr_loop s [0..<32] [] = Some ([] @ bs) \<and> length bs = length [0..<32]"
    using s by (intro parse_hexstr_loop_hex64) (auto simp: hex64_def)
  then show ?thesis
    using s by (auto simp: parse_tpod_from_hex_string_def parse_hexstr_to_binbuff_def hex64_def)
qed

lemma points_insert_last: "\<forall>p \<in> set ps. fst p < k \<Longrightarrow> points_insert k v ps = ps @ [(k, v)]"
  by (induction k v ps rule: points_insert.induct) auto

lemma add_ascending:
  assumes "sorted_wrt (<) (map fst ps @ map fst ls)" "list_all (\<lambda>p. hex64 (snd p)) ls"
  shows "\<exists>ps'. add_checkpoints ls ps = (True, ps') \<and> map fst ps' = map fst ps @ map fst ls"
  using assms
proof (induction ls arbitrary: ps)
  case (Cons l ls)
  obtain k s where l: "l = (k, s)" by (cases l)
  obtain h :: hash where h: "parse_tpod_from_hex_string 32 s = Some h" using Cons.prems(2) parse_hex64 [of s] by (auto simp: l)
  have lt: "\<forall>p \<in> set ps. fst p < k" using Cons.prems(1) by (auto simp: l sorted_wrt_append)
  then have "map_of ps k = None" by (force simp: map_of_eq_None_iff)
  then have "add_checkpoint k s ps = Some (ps @ [(k, h)])" by (simp add: add_checkpoint_def h points_insert_last [OF lt])
  moreover have "sorted_wrt (<) (map fst (ps @ [(k, h)]) @ map fst ls)" using Cons.prems(1) by (simp add: l)
  ultimately show ?case using Cons.IH [of "ps @ [(k, h)]"] Cons.prems(2) by (auto simp: l)
qed simp

lemma create_checkpoints_ok:
  "\<exists>ps. create_checkpoints [] = (True, ps) \<and> points_ok ps \<and> map fst ps = map fst hard_coded_points"
  using add_ascending [of "[]" hard_coded_points] hard_coded_heights hard_coded_hex64
  by (auto simp: create_checkpoints_def points_ok_def)

subsection \<open>Properties\<close>



text \<open>
  C38. The rules of the checkpoints, over an ordered map: the zone reaches up to the highest point; an
  alternative block is allowed exactly when its height is not 0 and is above every point that the
  main chain has passed; the conflict check accepts exactly the maps that agree on common heights.
\<close>

theorem checkpoint_rules_exact:
  assumes "points_ok ps"
  shows "(is_in_checkpoint_zone ps height \<longleftrightarrow> (\<exists>p \<in> set ps. height \<le> fst p))
    \<and> (is_alternative_block_allowed ps blockchain_height block_height \<longleftrightarrow>
         block_height \<noteq> 0 \<and> (\<forall>p \<in> set ps. fst p \<le> blockchain_height \<longrightarrow> fst p < block_height))
    \<and> (check_for_conflicts ps qs \<longleftrightarrow> (\<forall>(k, v) \<in> set qs. map_of ps k = None \<or> map_of ps k = Some v))
    \<and> (ps \<noteq> [] \<longrightarrow> get_max_height ps = Some (fst (last ps)))"
  using zone_iff [OF assms] alternative_allowed_iff [OF assms] conflicts_iff max_height_last [OF assms] by simp

theorem checkpoint_rules_exact_witness:
  "is_alternative_block_allowed [(1, 7), (10, 8)] 9 2 \<and> \<not> is_alternative_block_allowed [(1, 7), (10, 8)] 10 9
   \<and> get_max_height [(1, 7), (10, 8)] = Some 10"
  using checkpoint_rules_exact [of "[(1, 7), (10, 8)]" 5 9 2 "[]"] checkpoint_rules_exact [of "[(1, 7), (10, 8)]" 5 10 9 "[]"]
  by simp

end
