(* ===== verification/Tx_Pool.thy ===== *)
theory Tx_Pool
  imports Format_Utils "HOL-Library.Sublist"
begin

text \<open>
  \<open>src/cryptonote_core/tx_pool.cpp\<close>: the memory pool of transactions that wait for a block. The pool
  asks the chain about inputs through a \<open>chain_view\<close>; the model of \<open>blockchain_storage\<close> provides it.
  The hash table of transactions is a list of pairs, whose order stands for the unspecified order of
  iteration. Current times are arguments. Locks, printing and the pool file are left out.
\<close>

definition FEE_PER_KB :: u64 where "FEE_PER_KB = 10000000000"
definition CRYPTONOTE_COINBASE_BLOB_RESERVED_SIZE :: u64 where "CRYPTONOTE_COINBASE_BLOB_RESERVED_SIZE = 600"
definition CRYPTONOTE_MEMPOOL_TX_LIVETIME :: u64 where "CRYPTONOTE_MEMPOOL_TX_LIVETIME = 86400"
definition CRYPTONOTE_MEMPOOL_TX_FROM_ALT_BLOCK_LIVETIME :: u64 where
  "CRYPTONOTE_MEMPOOL_TX_FROM_ALT_BLOCK_LIVETIME = 604800"
definition CRYPTONOTE_GETBLOCKTEMPLATE_MAX_BLOCK_SIZE :: u64 where
  "CRYPTONOTE_GETBLOCKTEMPLATE_MAX_BLOCK_SIZE = 196608"
definition TRANSACTION_SIZE_LIMIT :: u64 where
  "TRANSACTION_SIZE_LIMIT = CRYPTONOTE_BLOCK_GRANTED_FULL_REWARD_ZONE * 125 div 100 - CRYPTONOTE_COINBASE_BLOB_RESERVED_SIZE"

subsection \<open>State\<close>

record tx_details =
  td_tx :: transaction
  td_blob_size :: u64
  td_fee :: u64
  max_used_block_id :: hash
  max_used_block_height :: u64
  kept_by_block :: bool
  last_failed_height :: u64
  last_failed_id :: hash
  receive_time :: u64

record tx_memory_pool =
  pool_transactions :: "(hash \<times> tx_details) list"
  m_spent_key_images :: "key_image \<rightharpoonup> hash set"
  remove_stuck_last :: u64

record tx_verification_context =
  m_should_be_relayed :: bool
  m_verifivation_failed :: bool
  m_verifivation_impossible :: bool
  m_added_to_pool :: bool

text \<open>
  What the pool sees of the chain: \<open>cv_check_tx_inputs\<close> is \<open>check_tx_inputs\<close> with its two reference
  parameters, of which the height is always written and the id, given as argument, only on success.
\<close>

record chain_view =
  cv_height :: u64
  cv_block_id :: "u64 \<Rightarrow> hash"
  cv_check_tx_inputs :: "transaction \<Rightarrow> hash \<Rightarrow> bool \<times> u64 \<times> hash"
  cv_have_tx_keyimges_as_spent :: "transaction \<Rightarrow> bool"

subsection \<open>Key images\<close>

definition have_tx_keyimg_as_spent :: "tx_memory_pool \<Rightarrow> key_image \<Rightarrow> bool" where
  "have_tx_keyimg_as_spent p key_im \<longleftrightarrow> m_spent_key_images p key_im \<noteq> None"

fun have_ins_as_spent :: "tx_memory_pool \<Rightarrow> txin list \<Rightarrow> bool" where
  "have_ins_as_spent p [] = False"
| "have_ins_as_spent p (txin_to_key amt offs k_image # ins) =
     (if have_tx_keyimg_as_spent p k_image then True else have_ins_as_spent p ins)"
| "have_ins_as_spent p (_ # ins) = True"

definition have_tx_keyimges_as_spent :: "tx_memory_pool \<Rightarrow> transaction \<Rightarrow> bool" where
  "have_tx_keyimges_as_spent p tx = have_ins_as_spent p (vin tx)"

text \<open>
  The loop of \<open>add_tx\<close> over the key images. \<open>m_spent_key_images[k_image]\<close> creates an empty set for a
  new image; a failed check leaves the loop with \<open>False\<close>.
\<close>

fun register_images :: "bool \<Rightarrow> hash \<Rightarrow> txin list \<Rightarrow> (key_image \<rightharpoonup> hash set) \<Rightarrow> bool \<times> (key_image \<rightharpoonup> hash set)" where
  "register_images kept tid [] sp = (True, sp)"
| "register_images kept tid (txin_to_key amt offs k # ins) sp =
     (let s = (case sp k of None \<Rightarrow> {} | Some s \<Rightarrow> s);
          sp = sp(k \<mapsto> s)
      in if \<not> (kept \<or> s = {}) then (False, sp)
         else if tid \<in> s then (False, sp)
         else register_images kept tid ins (sp(k \<mapsto> insert tid s)))"
| "register_images kept tid (_ # ins) sp = (False, sp)"

fun remove_images :: "hash \<Rightarrow> txin list \<Rightarrow> (key_image \<rightharpoonup> hash set) \<Rightarrow> bool \<times> (key_image \<rightharpoonup> hash set)" where
  "remove_images tid [] sp = (True, sp)"
| "remove_images tid (txin_to_key amt offs k # ins) sp =
     (case sp k of
        None \<Rightarrow> (False, sp)
      | Some s \<Rightarrow>
          if s = {} then (False, sp)
          else if tid \<notin> s then (False, sp)
          else remove_images tid ins (if s - {tid} = {} then sp(k := None) else sp(k \<mapsto> s - {tid})))"
| "remove_images tid (_ # ins) sp = (False, sp)"

definition remove_transaction_keyimages :: "transaction \<Rightarrow> tx_memory_pool \<Rightarrow> bool \<times> tx_memory_pool" where
  "remove_transaction_keyimages tx p =
     (let (r, sp) = remove_images (get_transaction_hash tx) (vin tx) (m_spent_key_images p)
      in (r, p\<lparr>m_spent_key_images := sp\<rparr>))"

subsection \<open>Adding and taking transactions\<close>

definition add_tx_with_id :: "chain_view \<Rightarrow> u64 \<Rightarrow> transaction \<Rightarrow> hash \<Rightarrow> u64 \<Rightarrow> tx_verification_context \<Rightarrow> bool
    \<Rightarrow> tx_memory_pool \<Rightarrow> bool \<times> tx_verification_context \<times> tx_memory_pool" where
  "add_tx_with_id cv now tx tid blob_size tvc kept p =
     (let failed = (False, tvc\<lparr>m_verifivation_failed := True\<rparr>, p)
      in if \<not> check_inputs_types_supported tx then failed
         else case get_inputs_money_amount tx of
           None \<Rightarrow> failed
         | Some inputs_amount \<Rightarrow>
             let outputs_amount = get_outs_money_amount tx
             in if outputs_amount \<ge> inputs_amount then failed
                else
                  let fee = inputs_amount - outputs_amount;
                      needed_fee = blob_size div 1024;
                      needed_fee = needed_fee + (if blob_size mod 1024 \<noteq> 0 then 1 else 0);
                      needed_fee = needed_fee * FEE_PER_KB
                  in if \<not> kept \<and> fee < needed_fee then failed
                     else if \<not> kept \<and> blob_size \<ge> TRANSACTION_SIZE_LIMIT then failed
                     else if \<not> kept \<and> have_tx_keyimges_as_spent p tx then failed
                     else
                       let (ch_inp_res, max_height, max_id) = cv_check_tx_inputs cv tx null_hash;
                           txd = \<lparr>td_tx = tx, td_blob_size = blob_size, td_fee = fee,
                                  max_used_block_id = (if ch_inp_res then max_id else null_hash),
                                  max_used_block_height = (if ch_inp_res then max_height else 0),
                                  kept_by_block = kept, last_failed_height = 0, last_failed_id = null_hash,
                                  receive_time = now\<rparr>
                       in if \<not> ch_inp_res \<and> \<not> kept then failed
                          else if tid \<in> fst ` set (pool_transactions p) then (False, tvc, p)
                          else
                            let p = p\<lparr>pool_transactions := pool_transactions p @ [(tid, txd)]\<rparr>;
                                tvc = (if ch_inp_res
                                       then (if 0 < fee then tvc\<lparr>m_added_to_pool := True, m_should_be_relayed := True\<rparr>
                                             else tvc\<lparr>m_added_to_pool := True\<rparr>)
                                       else tvc\<lparr>m_verifivation_impossible := True, m_added_to_pool := True\<rparr>);
                                (r, sp) = register_images kept tid (vin tx) (m_spent_key_images p);
                                p = p\<lparr>m_spent_key_images := sp\<rparr>
                            in (r, tvc\<lparr>m_verifivation_failed := \<not> r\<rparr>, p))"

definition add_tx :: "chain_view \<Rightarrow> u64 \<Rightarrow> transaction \<Rightarrow> tx_verification_context \<Rightarrow> bool \<Rightarrow> tx_memory_pool
    \<Rightarrow> bool \<times> tx_verification_context \<times> tx_memory_pool" where
  "add_tx cv now tx tvc keeped_by_block p =
     add_tx_with_id cv now tx (get_transaction_hash tx) (of_nat (get_object_blobsize tx)) tvc keeped_by_block p"

definition take_tx :: "hash \<Rightarrow> tx_memory_pool \<Rightarrow> (transaction \<times> u64 \<times> u64 \<times> tx_memory_pool) option" where
  "take_tx tid p =
     (case map_of (pool_transactions p) tid of
        None \<Rightarrow> None
      | Some d \<Rightarrow>
          let (r, p) = remove_transaction_keyimages (td_tx d) p
          in Some (td_tx d, td_blob_size d, td_fee d,
               p\<lparr>pool_transactions := filter (\<lambda>e. fst e \<noteq> tid) (pool_transactions p)\<rparr>))"

definition remove_stuck_transactions :: "u64 \<Rightarrow> tx_memory_pool \<Rightarrow> tx_memory_pool" where
  "remove_stuck_transactions now p =
     p\<lparr>pool_transactions := filter (\<lambda>(tid, d).
        let tx_age = now - receive_time d
        in \<not> (tx_age > CRYPTONOTE_MEMPOOL_TX_LIVETIME \<and> \<not> kept_by_block d
              \<or> tx_age > CRYPTONOTE_MEMPOOL_TX_FROM_ALT_BLOCK_LIVETIME \<and> kept_by_block d)) (pool_transactions p)\<rparr>"

text \<open>\<open>on_idle\<close> runs \<open>remove_stuck_transactions\<close> at most every 30 seconds (\<open>once_a_time_seconds\<close>).\<close>

definition pool_on_idle :: "u64 \<Rightarrow> tx_memory_pool \<Rightarrow> tx_memory_pool" where
  "pool_on_idle now p =
     (if sint (now - remove_stuck_last p) > 30
      then (remove_stuck_transactions now p)\<lparr>remove_stuck_last := now\<rparr> else p)"

definition get_transactions_count :: "tx_memory_pool \<Rightarrow> nat" where
  "get_transactions_count p = length (pool_transactions p)"

definition pool_get_transactions :: "tx_memory_pool \<Rightarrow> transaction list" where
  "pool_get_transactions p = map (\<lambda>e. td_tx (snd e)) (pool_transactions p)"

definition pool_get_transaction :: "tx_memory_pool \<Rightarrow> hash \<Rightarrow> transaction option" where
  "pool_get_transaction p tid = map_option td_tx (map_of (pool_transactions p) tid)"

definition pool_have_tx :: "tx_memory_pool \<Rightarrow> hash \<Rightarrow> bool" where
  "pool_have_tx p tid \<longleftrightarrow> map_of (pool_transactions p) tid \<noteq> None"

text \<open>What \<open>init\<close> does with a pool that was loaded: transactions of an illegal size are removed.\<close>

definition remove_too_big :: "tx_memory_pool \<Rightarrow> tx_memory_pool" where
  "remove_too_big p = foldl (\<lambda>p (tid, d).
     if td_blob_size d \<ge> TRANSACTION_SIZE_LIMIT
     then (snd (remove_transaction_keyimages (td_tx d) p))
            \<lparr>pool_transactions := filter (\<lambda>e. fst e \<noteq> tid) (pool_transactions p)\<rparr>
     else p) p (pool_transactions p)"

subsection \<open>The block template\<close>

text \<open>The result and the details, whose cached check results are updated.\<close>

definition is_transaction_ready_to_go :: "chain_view \<Rightarrow> tx_details \<Rightarrow> bool \<times> tx_details" where
  "is_transaction_ready_to_go cv txd =
     (let recheck = (\<lambda>txd.
            let (r, h, tid) = cv_check_tx_inputs cv (td_tx txd) (max_used_block_id txd);
                txd = txd\<lparr>max_used_block_height := h, max_used_block_id := tid\<rparr>
            in if \<not> r then
                 (False, txd\<lparr>last_failed_height := cv_height cv - 1, last_failed_id := cv_block_id cv (cv_height cv - 1)\<rparr>)
               else (\<not> cv_have_tx_keyimges_as_spent cv (td_tx txd), txd))
      in if max_used_block_id txd = null_hash then
           (if last_failed_id txd \<noteq> null_hash \<and> cv_height cv > last_failed_height txd
              \<and> last_failed_id txd = cv_block_id cv (last_failed_height txd)
            then (False, txd) else recheck txd)
         else if max_used_block_height txd \<ge> cv_height cv then (False, txd)
         else if cv_block_id cv (max_used_block_height txd) \<noteq> max_used_block_id txd then
           (if last_failed_id txd = cv_block_id cv (last_failed_height txd) then (False, txd) else recheck txd)
         else (\<not> cv_have_tx_keyimges_as_spent cv (td_tx txd), txd))"

fun have_key_images_loop :: "key_image set \<Rightarrow> txin list \<Rightarrow> bool" where
  "have_key_images_loop ks [] = False"
| "have_key_images_loop ks (txin_to_key amt offs k # ins) = (if k \<in> ks then True else have_key_images_loop ks ins)"
| "have_key_images_loop ks (_ # ins) = False"

definition have_key_images :: "key_image set \<Rightarrow> transaction \<Rightarrow> bool" where
  "have_key_images ks tx = have_key_images_loop ks (vin tx)"

fun append_key_images_loop :: "key_image set \<Rightarrow> txin list \<Rightarrow> bool \<times> key_image set" where
  "append_key_images_loop ks [] = (True, ks)"
| "append_key_images_loop ks (txin_to_key amt offs k # ins) =
     (if k \<in> ks then (False, ks) else append_key_images_loop (insert k ks) ins)"
| "append_key_images_loop ks (_ # ins) = (False, ks)"

definition append_key_images :: "key_image set \<Rightarrow> transaction \<Rightarrow> bool \<times> key_image set" where
  "append_key_images ks tx = append_key_images_loop ks (vin tx)"

text \<open>
  The loop of \<open>fill_block_template\<close>: the state is the set of key images, the total size, the fee and
  the hashes of the block; the result also has the transactions with their updated details.
\<close>

fun fill_block_loop :: "chain_view \<Rightarrow> u64 \<Rightarrow> u64 \<Rightarrow> (hash \<times> tx_details) list \<Rightarrow> key_image set \<times> u64 \<times> u64 \<times> hash list
    \<Rightarrow> (u64 \<times> u64 \<times> hash list) \<times> (hash \<times> tx_details) list" where
  "fill_block_loop cv median_size max_total_size [] (ks, total_size, fee, hashes) = ((total_size, fee, hashes), [])"
| "fill_block_loop cv median_size max_total_size ((tid, d) # es) (ks, total_size, fee, hashes) =
     (if max_total_size < total_size + td_blob_size d then
        let (r, es') = fill_block_loop cv median_size max_total_size es (ks, total_size, fee, hashes) in (r, (tid, d) # es')
      else if total_size + td_blob_size d > CRYPTONOTE_GETBLOCKTEMPLATE_MAX_BLOCK_SIZE then
        let (r, es') = fill_block_loop cv median_size max_total_size es (ks, total_size, fee, hashes) in (r, (tid, d) # es')
      else if total_size > median_size then ((total_size, fee, hashes), (tid, d) # es)
      else
        let (ready, d) = is_transaction_ready_to_go cv d
        in if \<not> ready \<or> have_key_images ks (td_tx d) then
             let (r, es') = fill_block_loop cv median_size max_total_size es (ks, total_size, fee, hashes) in (r, (tid, d) # es')
           else
             let (ok, ks') = append_key_images ks (td_tx d);
                 (r, es') = fill_block_loop cv median_size max_total_size es
                   (ks', total_size + td_blob_size d, fee + td_fee d, hashes @ [tid])
             in (r, (tid, d) # es'))"

definition fill_block_template :: "chain_view \<Rightarrow> u64 \<Rightarrow> hash list \<Rightarrow> tx_memory_pool \<Rightarrow> (u64 \<times> u64 \<times> hash list) \<times> tx_memory_pool" where
  "fill_block_template cv median_size hashes p =
     (let max_total_size = (130 * median_size) div 100 - CRYPTONOTE_COINBASE_BLOB_RESERVED_SIZE;
          (r, es) = fill_block_loop cv median_size max_total_size (pool_transactions p) ({}, 0, 0, hashes)
      in (r, p\<lparr>pool_transactions := es\<rparr>))"

subsection \<open>Key images of a transaction\<close>

fun ins_images :: "txin list \<Rightarrow> key_image list" where
  "ins_images [] = []"
| "ins_images (txin_to_key amt offs k # ins) = k # ins_images ins"
| "ins_images (_ # ins) = ins_images ins"

abbreviation tx_images :: "transaction \<Rightarrow> key_image list" where
  "tx_images tx \<equiv> ins_images (vin tx)"

text \<open>The transactions registered for a key image.\<close>

definition ids_of :: "(key_image \<rightharpoonup> hash set) \<Rightarrow> key_image \<Rightarrow> hash set" where
  "ids_of sp k = (case sp k of None \<Rightarrow> {} | Some s \<Rightarrow> s)"

lemma ids_of_upd [simp]: "ids_of (sp(k \<mapsto> s)) = (ids_of sp)(k := s)" "ids_of (sp(k := None)) = (ids_of sp)(k := {})"
  by (auto simp: ids_of_def fun_eq_iff)

lemma have_ins_as_spent_iff:
  "have_ins_as_spent p ins \<longleftrightarrow> \<not> list_all is_txin_to_key ins \<or> (\<exists>k \<in> set (ins_images ins). m_spent_key_images p k \<noteq> None)"
  by (induction p ins rule: have_ins_as_spent.induct) (auto simp: have_tx_keyimg_as_spent_def)

lemma register_images_ok:
  assumes "list_all is_txin_to_key ins" "distinct (ins_images ins)"
    and "\<And>k. k \<in> set (ins_images ins) \<Longrightarrow> tid \<notin> ids_of sp k \<and> (kept \<or> ids_of sp k = {})"
  shows "register_images kept tid ins sp =
    (True, \<lambda>k. if k \<in> set (ins_images ins) then Some (insert tid (ids_of sp k)) else sp k)"
  using assms
proof (induction kept tid ins sp rule: register_images.induct)
  case (2 kept tid amt offs k ins sp)
  have s: "(case sp k of None \<Rightarrow> {} | Some s \<Rightarrow> s) = ids_of sp k" by (simp add: ids_of_def)
  have k: "tid \<notin> ids_of sp k" "kept \<or> ids_of sp k = {}" using 2(4) [of k] by auto
  have "register_images kept tid ins (sp(k \<mapsto> ids_of sp k, k \<mapsto> insert tid (ids_of sp k))) =
      (True, \<lambda>k'. if k' \<in> set (ins_images ins)
        then Some (insert tid (ids_of (sp(k \<mapsto> ids_of sp k, k \<mapsto> insert tid (ids_of sp k))) k'))
        else (sp(k \<mapsto> ids_of sp k, k \<mapsto> insert tid (ids_of sp k))) k')"
  proof (rule 2(1) [OF s [symmetric] refl])
    show "list_all is_txin_to_key ins" "distinct (ins_images ins)" using 2(2, 3) by auto
    show "\<not> \<not> (kept \<or> ids_of sp k = {})" "tid \<notin> ids_of sp k" using k by auto
    show "tid \<notin> ids_of (sp(k \<mapsto> ids_of sp k, k \<mapsto> insert tid (ids_of sp k))) k'
        \<and> (kept \<or> ids_of (sp(k \<mapsto> ids_of sp k, k \<mapsto> insert tid (ids_of sp k))) k' = {})"
      if "k' \<in> set (ins_images ins)" for k'
      using that 2(3) 2(4) [of k'] by auto
  qed
  then show ?case
    using k 2(3) by (auto simp: Let_def s fun_eq_iff)
qed auto

lemma register_images_stale:
  assumes "k \<in> set (ins_images ins)" "tid \<in> ids_of sp k"
  shows "fst (register_images kept tid ins sp) = False"
  using assms
proof (induction ins arbitrary: sp rule: ins_images.induct)
  case (2 amt offs k' ins)
  define s where "s = (case sp k' of None \<Rightarrow> {} | Some s \<Rightarrow> s)"
  show ?case
  proof (cases "k = k' \<or> tid \<in> s \<or> \<not> (kept \<or> s = {})")
    case True
    then have "tid \<in> s \<or> \<not> (kept \<or> s = {})" using 2(3) by (auto simp: s_def ids_of_def)
    then show ?thesis by (auto simp: Let_def simp flip: s_def)
  next
    case False
    then have "k \<in> set (ins_images ins)" "tid \<in> ids_of (sp(k' \<mapsto> insert tid s)) k" using 2(2, 3) by simp_all
    then have "fst (register_images kept tid ins (sp(k' \<mapsto> s, k' \<mapsto> insert tid s))) = False"
      unfolding fun_upd_upd by (rule 2(1))
    then show ?thesis using False by (simp only: register_images.simps Let_def flip: s_def) simp
  qed
qed simp_all

lemma remove_images_ok:
  assumes "list_all is_txin_to_key ins" "distinct (ins_images ins)"
    and "\<And>k. k \<in> set (ins_images ins) \<Longrightarrow> tid \<in> ids_of sp k"
  shows "remove_images tid ins sp =
    (True, \<lambda>k. if k \<in> set (ins_images ins)
      then (if ids_of sp k - {tid} = {} then None else Some (ids_of sp k - {tid})) else sp k)"
  using assms
proof (induction tid ins sp rule: remove_images.induct)
  case (2 tid amt offs k ins sp)
  have k: "tid \<in> ids_of sp k" using 2(4) by simp
  then obtain s where s: "sp k = Some s" "ids_of sp k = s" "tid \<in> s" by (auto simp: ids_of_def split: option.splits)
  define sp' where "sp' = (if s - {tid} = {} then sp(k := None) else sp(k \<mapsto> s - {tid}))"
  have "ids_of sp' k' = ids_of sp k'" "sp' k' = sp k'" if "k' \<noteq> k" for k' using that by (auto simp: sp'_def ids_of_def)
  moreover have "remove_images tid ins sp' = (True, \<lambda>k. if k \<in> set (ins_images ins)
      then (if ids_of sp' k - {tid} = {} then None else Some (ids_of sp' k - {tid})) else sp' k)"
    using s 2(2-4) unfolding sp'_def by (intro 2(1)) auto
  ultimately show ?case
    using s 2(3) by (auto simp: fun_eq_iff sp'_def)
qed auto

subsection \<open>The invariant of the pool\<close>

text \<open>What \<open>add_tx\<close> requires of a transaction that is kept for a block.\<close>

definition pool_admissible :: "transaction \<Rightarrow> bool" where
  "pool_admissible tx \<longleftrightarrow> list_all is_txin_to_key (vin tx)
     \<and> (\<exists>a. get_inputs_money_amount tx = Some a \<and> get_outs_money_amount tx < a)"

text \<open>
  Every transaction has its own entry under its hash, with distinct key images, which are all
  registered for it. A pool without stale registrations also has no others; expired transactions
  leave stale ones behind.
\<close>

definition entry_ok :: "(key_image \<rightharpoonup> hash set) \<Rightarrow> hash \<times> tx_details \<Rightarrow> bool" where
  "entry_ok sp e \<longleftrightarrow>
     fst e = get_transaction_hash (td_tx (snd e)) \<and> list_all is_txin_to_key (vin (td_tx (snd e)))
     \<and> pool_admissible (td_tx (snd e))
     \<and> td_fee (snd e) = the (get_inputs_money_amount (td_tx (snd e))) - get_outs_money_amount (td_tx (snd e))
     \<and> distinct (tx_images (td_tx (snd e))) \<and> (\<forall>k \<in> set (tx_images (td_tx (snd e))). fst e \<in> ids_of sp k)"

definition pool_ok :: "tx_memory_pool \<Rightarrow> bool" where
  "pool_ok p \<longleftrightarrow>
     distinct (map fst (pool_transactions p)) \<and> (\<forall>e \<in> set (pool_transactions p). entry_ok (m_spent_key_images p) e)
     \<and> (\<forall>k s. m_spent_key_images p k = Some s \<longrightarrow> s \<noteq> {})"

definition no_stale :: "tx_memory_pool \<Rightarrow> bool" where
  "no_stale p \<longleftrightarrow> (\<forall>k. \<forall>tid \<in> ids_of (m_spent_key_images p) k.
     \<exists>d. (tid, d) \<in> set (pool_transactions p) \<and> k \<in> set (tx_images (td_tx d)))"

lemma spent_none_iff: "pool_ok p \<Longrightarrow> m_spent_key_images p k = None \<longleftrightarrow> ids_of (m_spent_key_images p) k = {}"
  by (auto simp: pool_ok_def ids_of_def split: option.splits)

definition admitted :: "chain_view \<Rightarrow> transaction \<Rightarrow> u64 \<Rightarrow> bool \<Rightarrow> tx_memory_pool \<Rightarrow> bool" where
  "admitted cv tx blob_size kept p \<longleftrightarrow>
     pool_admissible tx
     \<and> (kept \<or> \<not> have_tx_keyimges_as_spent p tx \<and> fst (cv_check_tx_inputs cv tx null_hash)
          \<and> blob_size < TRANSACTION_SIZE_LIMIT
          \<and> (blob_size div 1024 + (if blob_size mod 1024 \<noteq> 0 then 1 else 0)) * FEE_PER_KB
              \<le> the (get_inputs_money_amount tx) - get_outs_money_amount tx)"

lemma add_tx_cases:
  assumes "add_tx_with_id cv now tx tid blob_size tvc kept p = (r, tvc', p')"
  shows "(\<not> admitted cv tx blob_size kept p \<or> tid \<in> fst ` set (pool_transactions p)) \<and> \<not> r \<and> p' = p
    \<or> admitted cv tx blob_size kept p \<and> tid \<notin> fst ` set (pool_transactions p)
       \<and> (\<exists>d. td_tx d = tx \<and> td_blob_size d = blob_size
            \<and> td_fee d = the (get_inputs_money_amount tx) - get_outs_money_amount tx \<and> kept_by_block d = kept
            \<and> pool_transactions p' = pool_transactions p @ [(tid, d)]
            \<and> register_images kept tid (vin tx) (m_spent_key_images p) = (r, m_spent_key_images p'))"
proof -
  obtain r' h i where c: "cv_check_tx_inputs cv tx null_hash = (r', h, i)" by (cases "cv_check_tx_inputs cv tx null_hash")
  show ?thesis
  proof (cases "pool_admissible tx")
    case False
    then show ?thesis
      using assms
      by (auto simp: add_tx_with_id_def admitted_def pool_admissible_def check_inputs_types_supported_def Let_def not_less
          split: if_splits option.splits)
  next
    case True
    then obtain a where a: "list_all is_txin_to_key (vin tx)" "get_inputs_money_amount tx = Some a" "get_outs_money_amount tx < a"
      by (auto simp: pool_admissible_def)
    obtain rr sp where reg: "register_images kept tid (vin tx) (m_spent_key_images p) = (rr, sp)"
      by (cases "register_images kept tid (vin tx) (m_spent_key_images p)")
    define low where "low \<longleftrightarrow> a - get_outs_money_amount tx
      < (blob_size div 1024 + (if blob_size mod 1024 \<noteq> 0 then 1 else 0)) * FEE_PER_KB"
    have adm: "admitted cv tx blob_size kept p \<longleftrightarrow>
        kept \<or> \<not> have_tx_keyimges_as_spent p tx \<and> r' \<and> \<not> TRANSACTION_SIZE_LIMIT \<le> blob_size \<and> \<not> low"
      using True a(2) c by (simp add: admitted_def low_def not_le not_less)
    have "\<not> a \<le> get_outs_money_amount tx" using a(3) by simp
    then show ?thesis
      using assms a(1, 2) c reg unfolding add_tx_with_id_def check_inputs_types_supported_def Let_def adm
      by (cases "tid \<in> fst ` set (pool_transactions p)"; cases kept; cases r') (auto simp flip: low_def split: if_splits)
  qed
qed

lemma add_tx_keeps:
  assumes "pool_ok p" "tid = get_transaction_hash tx" "distinct (tx_images tx)"
    and fresh: "\<And>k. k \<in> set (tx_images tx) \<Longrightarrow> tid \<notin> fst ` set (pool_transactions p) \<Longrightarrow> tid \<notin> ids_of (m_spent_key_images p) k"
    and add: "add_tx_with_id cv now tx tid blob_size tvc kept p = (r, tvc', p')"
  shows "pool_ok p'" "r \<longleftrightarrow> admitted cv tx blob_size kept p \<and> tid \<notin> fst ` set (pool_transactions p)"
    "\<not> r \<Longrightarrow> p' = p" "no_stale p \<Longrightarrow> no_stale p'"
    "r \<Longrightarrow> \<exists>d. td_tx d = tx \<and> pool_transactions p' = pool_transactions p @ [(tid, d)]
        \<and> td_blob_size d = blob_size \<and> td_fee d = the (get_inputs_money_amount tx) - get_outs_money_amount tx"
proof -
  have "pool_ok p' \<and> (r \<longleftrightarrow> admitted cv tx blob_size kept p \<and> tid \<notin> fst ` set (pool_transactions p))
    \<and> (\<not> r \<longrightarrow> p' = p) \<and> (no_stale p \<longrightarrow> no_stale p')
    \<and> (r \<longrightarrow> (\<exists>d. td_tx d = tx \<and> pool_transactions p' = pool_transactions p @ [(tid, d)]
        \<and> td_blob_size d = blob_size \<and> td_fee d = the (get_inputs_money_amount tx) - get_outs_money_amount tx))"
    using add_tx_cases [OF add]
  proof (elim disjE)
    assume "(\<not> admitted cv tx blob_size kept p \<or> tid \<in> fst ` set (pool_transactions p)) \<and> \<not> r \<and> p' = p"
    then show ?thesis using assms(1) by auto
  next
    assume "admitted cv tx blob_size kept p \<and> tid \<notin> fst ` set (pool_transactions p)
       \<and> (\<exists>d. td_tx d = tx \<and> td_blob_size d = blob_size
            \<and> td_fee d = the (get_inputs_money_amount tx) - get_outs_money_amount tx \<and> kept_by_block d = kept
            \<and> pool_transactions p' = pool_transactions p @ [(tid, d)]
            \<and> register_images kept tid (vin tx) (m_spent_key_images p) = (r, m_spent_key_images p'))"
    then obtain d where adm: "admitted cv tx blob_size kept p" and new: "tid \<notin> fst ` set (pool_transactions p)"
      and d: "td_tx d = tx" "td_blob_size d = blob_size" "td_fee d = the (get_inputs_money_amount tx) - get_outs_money_amount tx"
        "pool_transactions p' = pool_transactions p @ [(tid, d)]"
        "register_images kept tid (vin tx) (m_spent_key_images p) = (r, m_spent_key_images p')" by auto
    have types: "list_all is_txin_to_key (vin tx)" using adm by (simp add: admitted_def pool_admissible_def)
    have "register_images kept tid (vin tx) (m_spent_key_images p) = (True, \<lambda>k. if k \<in> set (tx_images tx)
        then Some (insert tid (ids_of (m_spent_key_images p) k)) else m_spent_key_images p k)"
      using adm fresh new spent_none_iff [OF assms(1)]
      by (intro register_images_ok types assms(3))
        (auto simp: admitted_def have_tx_keyimges_as_spent_def have_ins_as_spent_iff)
    then have r: "r" and sp: "m_spent_key_images p' = (\<lambda>k. if k \<in> set (tx_images tx)
        then Some (insert tid (ids_of (m_spent_key_images p) k)) else m_spent_key_images p k)"
      using d(5) by auto
    have ids: "ids_of (m_spent_key_images p') k = (if k \<in> set (tx_images tx)
        then insert tid (ids_of (m_spent_key_images p) k) else ids_of (m_spent_key_images p) k)" for k
      by (simp add: sp ids_of_def)
    have "pool_ok p'"
      using assms(1-3) new types d(1, 3) adm unfolding pool_ok_def admitted_def d(4) entry_ok_def ids by (auto simp: sp)
    moreover have "no_stale p'" if stale: "no_stale p"
      unfolding no_stale_def
    proof (intro allI ballI)
      fix k t
      assume t: "t \<in> ids_of (m_spent_key_images p') k"
      show "\<exists>d. (t, d) \<in> set (pool_transactions p') \<and> k \<in> set (tx_images (td_tx d))"
      proof (cases "t \<in> ids_of (m_spent_key_images p) k")
        case True
        then show ?thesis using stale unfolding no_stale_def d(4) by fastforce
      next
        case False
        then have "t = tid \<and> k \<in> set (tx_images tx)" using t by (simp add: ids split: if_splits)
        then show ?thesis using d(1) unfolding d(4) by auto
      qed
    qed
    ultimately show ?thesis using r adm new d by auto
  qed
  then show "pool_ok p'" "r \<longleftrightarrow> admitted cv tx blob_size kept p \<and> tid \<notin> fst ` set (pool_transactions p)"
    "\<not> r \<Longrightarrow> p' = p" "no_stale p \<Longrightarrow> no_stale p'"
    "r \<Longrightarrow> \<exists>d. td_tx d = tx \<and> pool_transactions p' = pool_transactions p @ [(tid, d)]
        \<and> td_blob_size d = blob_size \<and> td_fee d = the (get_inputs_money_amount tx) - get_outs_money_amount tx"
    by blast+
qed

lemma take_tx_keeps:
  assumes "pool_ok p" "take_tx tid p = Some (tx, b, f, p')"
  shows "\<exists>d. map_of (pool_transactions p) tid = Some d \<and> tx = td_tx d \<and> b = td_blob_size d \<and> f = td_fee d"
    "pool_transactions p' = filter (\<lambda>e. fst e \<noteq> tid) (pool_transactions p)"
    "pool_ok p'" "no_stale p \<Longrightarrow> no_stale p'"
    "\<And>k. ids_of (m_spent_key_images p') k = ids_of (m_spent_key_images p) k - (if k \<in> set (tx_images tx) then {tid} else {})"
    "entry_ok (m_spent_key_images p) (tid, the (map_of (pool_transactions p) tid))"
proof -
  from assms(2) obtain d where d: "map_of (pool_transactions p) tid = Some d" "tx = td_tx d" "b = td_blob_size d" "f = td_fee d"
    by (auto simp: take_tx_def split: option.splits prod.splits)
  then show "\<exists>d. map_of (pool_transactions p) tid = Some d \<and> tx = td_tx d \<and> b = td_blob_size d \<and> f = td_fee d" by blast
  have mem: "(tid, d) \<in> set (pool_transactions p)" using d(1) by (rule map_of_SomeD)
  then have e: "entry_ok (m_spent_key_images p) (tid, d)" using assms(1) by (auto simp: pool_ok_def)
  then show "entry_ok (m_spent_key_images p) (tid, the (map_of (pool_transactions p) tid))" using d(1) by simp
  define sp where "sp = (\<lambda>k. if k \<in> set (tx_images tx)
      then (if ids_of (m_spent_key_images p) k - {tid} = {} then None else Some (ids_of (m_spent_key_images p) k - {tid}))
      else m_spent_key_images p k)"
  have "remove_images (get_transaction_hash tx) (vin tx) (m_spent_key_images p) = (True, sp)"
  proof -
    have "get_transaction_hash (td_tx d) = tid" using e by (simp add: entry_ok_def)
    then show ?thesis
      using remove_images_ok [of "vin (td_tx d)" tid "m_spent_key_images p"] e
      unfolding sp_def d(2) entry_ok_def by simp
  qed
  then have p': "p' = p\<lparr>m_spent_key_images := sp, pool_transactions := filter (\<lambda>e. fst e \<noteq> tid) (pool_transactions p)\<rparr>"
    using assms(2) d by (simp add: take_tx_def remove_transaction_keyimages_def)
  show txs: "pool_transactions p' = filter (\<lambda>e. fst e \<noteq> tid) (pool_transactions p)" by (simp add: p')
  have ids: "ids_of sp k = ids_of (m_spent_key_images p) k - (if k \<in> set (tx_images tx) then {tid} else {})" for k
    by (simp add: sp_def ids_of_def)
  then show "\<And>k. ids_of (m_spent_key_images p') k = ids_of (m_spent_key_images p) k - (if k \<in> set (tx_images tx) then {tid} else {})"
    by (simp add: p')
  have "entry_ok sp e" if "e \<in> set (pool_transactions p)" "fst e \<noteq> tid" for e
    using that assms(1) by (auto simp: pool_ok_def entry_ok_def ids)
  moreover have "s \<noteq> {}" if "sp k = Some s" for k s
    using that assms(1) by (auto simp: sp_def pool_ok_def split: if_splits)
  ultimately show "pool_ok p'"
    using assms(1) by (auto simp: pool_ok_def p' distinct_map_filter)
  assume stale: "no_stale p"
  show "no_stale p'"
    unfolding no_stale_def
  proof (intro allI ballI)
    fix k t
    assume "t \<in> ids_of (m_spent_key_images p') k"
    then have t: "t \<in> ids_of (m_spent_key_images p) k" "t = tid \<Longrightarrow> k \<notin> set (tx_images tx)" by (auto simp: p' ids split: if_splits)
    then obtain d' where d': "(t, d') \<in> set (pool_transactions p)" "k \<in> set (tx_images (td_tx d'))"
      using stale by (auto simp: no_stale_def)
    then have "d' = d" if "t = tid" using that mem assms(1) by (auto simp: pool_ok_def dest: eq_key_imp_eq_value)
    then show "\<exists>d. (t, d) \<in> set (pool_transactions p') \<and> k \<in> set (tx_images (td_tx d))"
      using d' t(2) d(2) by (auto simp: txs)
  qed
qed

lemma take_tx_None: "take_tx tid p = None \<longleftrightarrow> pool_get_transaction p tid = None"
  by (auto simp: take_tx_def pool_get_transaction_def split: option.splits prod.splits)

lemma map_of_filter_neq: "map_of (filter (\<lambda>e. fst e \<noteq> k) xs) = (map_of xs)(k := None)"
  by (induction xs) auto

lemma take_tx_look:
  assumes "pool_ok p" "take_tx tid p = Some (tx, b, f, p')"
  shows "pool_get_transaction p tid = Some tx" "pool_get_transaction p' = (pool_get_transaction p)(tid := None)"
  using take_tx_keeps(1,2) [OF assms] by (auto simp: pool_get_transaction_def map_of_filter_neq fun_eq_iff)

lemma remove_stuck_keeps: "pool_ok p \<Longrightarrow> pool_ok (remove_stuck_transactions now p)"
  by (auto simp: pool_ok_def remove_stuck_transactions_def distinct_map_filter)

subsection \<open>The interface for the chain\<close>

text \<open>
  What the chain relies on when it takes the transactions of a block out of the pool: taking one
  succeeds exactly for a known hash, and removes this transaction and no other. Then a list of
  hashes can be taken exactly when it has no duplicates and all are known.
\<close>

locale tx_source =
  fixes ok :: "'p \<Rightarrow> bool" and look :: "'p \<Rightarrow> 'h \<rightharpoonup> 't" and take1 :: "'h \<Rightarrow> 'p \<Rightarrow> ('t \<times> 'b \<times> 'f \<times> 'p) option"
  assumes take_None: "take1 h p = None \<longleftrightarrow> look p h = None"
    and take_ok: "ok p \<Longrightarrow> take1 h p = Some (t, b, f, p') \<Longrightarrow> ok p'"
    and take_look: "ok p \<Longrightarrow> take1 h p = Some (t, b, f, p') \<Longrightarrow> look p h = Some t \<and> look p' = (look p)(h := None)"
begin

fun take_all :: "'h list \<Rightarrow> 'p \<Rightarrow> ('t list \<times> 'p) option" where
  "take_all [] p = Some ([], p)"
| "take_all (h # hs) p =
     (case take1 h p of None \<Rightarrow> None
      | Some (t, b, f, p') \<Rightarrow> (case take_all hs p' of None \<Rightarrow> None | Some (ts, p'') \<Rightarrow> Some (t # ts, p'')))"

lemma take_all_Some:
  "ok p \<Longrightarrow> take_all hs p = Some (ts, p') \<Longrightarrow>
   ok p' \<and> distinct hs \<and> map (look p) hs = map Some ts \<and> look p' = (\<lambda>h. if h \<in> set hs then None else look p h)"
proof (induction hs arbitrary: p ts)
  case (Cons h hs)
  from Cons.prems(2) obtain t b f p1 us where t: "take1 h p = Some (t, b, f, p1)" "take_all hs p1 = Some (us, p')" "ts = t # us"
    by (auto split: option.splits)
  note l = take_look [OF Cons.prems(1) t(1)] and IH = Cons.IH [OF take_ok [OF Cons.prems(1) t(1)] t(2)]
  have "h \<notin> set hs"
  proof
    assume "h \<in> set hs"
    then have "look p1 h \<in> set (map (look p1) hs)" by simp
    then have "look p1 h \<in> set (map Some us)" using IH by metis
    then show False using l by auto
  qed
  then have "map (look p1) hs = map (look p) hs" using l by auto
  then have "map (look p) hs = map Some us" using IH by metis
  moreover have "look p' = (\<lambda>x. if x \<in> set (h # hs) then None else look p x)" using l IH by (auto simp: fun_eq_iff)
  ultimately show ?case using l IH t(3) \<open>h \<notin> set hs\<close> by simp
qed auto

lemma take_all_total: "ok p \<Longrightarrow> distinct hs \<Longrightarrow> set hs \<subseteq> dom (look p) \<Longrightarrow> \<exists>ts p'. take_all hs p = Some (ts, p')"
proof (induction hs arbitrary: p)
  case (Cons h hs)
  then have "take1 h p \<noteq> None" using take_None [of h p] by auto
  then obtain t b f p1 where t: "take1 h p = Some (t, b, f, p1)" by (cases "take1 h p") auto
  have "set hs \<subseteq> dom (look p1)" using Cons.prems take_look [OF Cons.prems(1) t] by auto
  then show ?case using Cons.IH [of p1] Cons.prems take_ok [OF Cons.prems(1) t] t by fastforce
qed simp

end

interpretation pool: tx_source pool_ok pool_get_transaction take_tx
proof unfold_locales
  show "take_tx h p = None \<longleftrightarrow> pool_get_transaction p h = None" for h p by (rule take_tx_None)
  show "pool_ok p'" if "pool_ok p" "take_tx h p = Some (t, b, f, p')" for p h t b f p'
    using take_tx_keeps(3) [OF that] .
  show "pool_get_transaction p h = Some t \<and> pool_get_transaction p' = (pool_get_transaction p)(h := None)"
    if "pool_ok p" "take_tx h p = Some (t, b, f, p')" for p h t b f p'
    using take_tx_look [OF that] by blast
qed

subsection \<open>The block template\<close>

lemma have_key_images_iff:
  "list_all is_txin_to_key (vin tx) \<Longrightarrow> have_key_images ks tx \<longleftrightarrow> set (tx_images tx) \<inter> ks \<noteq> {}"
proof -
  have "have_key_images_loop ks ins \<longleftrightarrow> set (ins_images ins) \<inter> ks \<noteq> {}" if "list_all is_txin_to_key ins" for ins
    using that by (induction ks ins rule: have_key_images_loop.induct) auto
  then show "list_all is_txin_to_key (vin tx) \<Longrightarrow> have_key_images ks tx \<longleftrightarrow> set (tx_images tx) \<inter> ks \<noteq> {}"
    by (simp add: have_key_images_def)
qed

lemma append_key_images_ok:
  "list_all is_txin_to_key (vin tx) \<Longrightarrow> distinct (tx_images tx) \<Longrightarrow> set (tx_images tx) \<inter> ks = {} \<Longrightarrow>
   append_key_images ks tx = (True, ks \<union> set (tx_images tx))"
proof -
  have "append_key_images_loop ks ins = (True, ks \<union> set (ins_images ins))"
    if "list_all is_txin_to_key ins" "distinct (ins_images ins)" "set (ins_images ins) \<inter> ks = {}" for ins ks
    using that by (induction ks ins rule: append_key_images_loop.induct) auto
  then show "list_all is_txin_to_key (vin tx) \<Longrightarrow> distinct (tx_images tx) \<Longrightarrow> set (tx_images tx) \<inter> ks = {} \<Longrightarrow>
   append_key_images ks tx = (True, ks \<union> set (tx_images tx))"
    by (simp add: append_key_images_def)
qed

lemma ready_props:
  assumes "is_transaction_ready_to_go cv d = (r, d')"
  shows "td_tx d' = td_tx d" "td_blob_size d' = td_blob_size d" "td_fee d' = td_fee d"
    "r \<Longrightarrow> \<not> cv_have_tx_keyimges_as_spent cv (td_tx d)"
  using assms by (auto simp: is_transaction_ready_to_go_def Let_def split: if_splits prod.splits)

abbreviation entry_data :: "hash \<times> tx_details \<Rightarrow> hash \<times> transaction \<times> u64 \<times> u64" where
  "entry_data e \<equiv> (fst e, td_tx (snd e), td_blob_size (snd e), td_fee (snd e))"

text \<open>What one run of the loop selects from the remaining entries.\<close>

definition selection :: "chain_view \<Rightarrow> u64 \<Rightarrow> (hash \<times> tx_details) list \<Rightarrow> key_image set \<Rightarrow> u64 \<Rightarrow> u64 \<Rightarrow> (hash \<times> tx_details) list \<Rightarrow> bool" where
  "selection cv max_total_size es ks t t' sel \<longleftrightarrow>
     subseq sel es \<and> distinct (concat (map (\<lambda>e. tx_images (td_tx (snd e))) sel))
     \<and> (\<forall>e \<in> set sel. set (tx_images (td_tx (snd e))) \<inter> ks = {} \<and> \<not> cv_have_tx_keyimges_as_spent cv (td_tx (snd e)))
     \<and> unat t' = unat t + sum_list (map (\<lambda>e. unat (td_blob_size (snd e))) sel)
     \<and> (sel \<noteq> [] \<longrightarrow> t' \<le> max_total_size \<and> t' \<le> CRYPTONOTE_GETBLOCKTEMPLATE_MAX_BLOCK_SIZE)"

lemma fill_block_loop_selects:
  assumes "\<forall>e \<in> set es. entry_ok sp e \<and> unat (td_blob_size (snd e)) < 2 ^ 63"
    and "t \<le> CRYPTONOTE_GETBLOCKTEMPLATE_MAX_BLOCK_SIZE"
    and "fill_block_loop cv median_size mx es (ks, t, f, hs) = ((t', f', hs'), es')"
  shows "map entry_data es' = map entry_data es
    \<and> (\<exists>sel. selection cv mx es ks t t' sel \<and> hs' = hs @ map fst sel \<and> f' = f + sum_list (map (\<lambda>e. td_fee (snd e)) sel))"
  using assms
proof (induction es arbitrary: ks t f hs es')
  case Nil
  then show ?case by (auto simp: selection_def intro: exI [of _ "[]"])
next
  case (Cons e es)
  obtain tid d where e: "e = (tid, d)" by (cases e)
  obtain r d' where rd: "is_transaction_ready_to_go cv d = (r, d')" by (cases "is_transaction_ready_to_go cv d")
  note ready = ready_props [OF rd]
  have ok: "\<forall>e \<in> set es. entry_ok sp e \<and> unat (td_blob_size (snd e)) < 2 ^ 63" using Cons.prems(1) by simp
  have d: "list_all is_txin_to_key (vin (td_tx d))" "distinct (tx_images (td_tx d))" "unat (td_blob_size d) < 2 ^ 63"
    using Cons.prems(1) by (auto simp: e entry_ok_def)
  let ?t = "t + td_blob_size d"
  have skip: "\<exists>sel. selection cv mx (e # es) ks t t' sel \<and> P sel"
    if "\<exists>sel. selection cv mx es ks t t' sel \<and> P sel" for P
    using that by (auto simp: selection_def)
  show ?case
  proof (cases "mx < ?t \<or> ?t > CRYPTONOTE_GETBLOCKTEMPLATE_MAX_BLOCK_SIZE \<or> t \<le> median_size \<and> (\<not> r \<or> have_key_images ks (td_tx d'))")
    case True
    show ?thesis
    proof (cases "\<not> (mx < ?t \<or> ?t > CRYPTONOTE_GETBLOCKTEMPLATE_MAX_BLOCK_SIZE) \<and> t > median_size")
      case True
      then show ?thesis using Cons.prems(3) by (auto simp: e selection_def intro!: exI [of _ "[]"])
    next
      case False
      with True Cons.prems(3) rd obtain es1 d1 where es1: "fill_block_loop cv median_size mx es (ks, t, f, hs) = ((t', f', hs'), es1)"
          "es' = (tid, d1) # es1" "entry_data (tid, d1) = entry_data e"
        using ready by (auto simp: e Let_def split: if_splits prod.splits)
      then show ?thesis using Cons.IH [OF ok Cons.prems(2) es1(1)] skip by auto
    qed
  next
    case no: False
    show ?thesis
    proof (cases "t > median_size")
      case True
      then show ?thesis using no Cons.prems(3) by (auto simp: e selection_def intro!: exI [of _ "[]"])
    next
      case False
      with no have inc: "?t \<le> mx" "?t \<le> CRYPTONOTE_GETBLOCKTEMPLATE_MAX_BLOCK_SIZE" "r" "\<not> have_key_images ks (td_tx d)"
        using ready by (auto simp: not_less)
      have disj: "set (tx_images (td_tx d)) \<inter> ks = {}" using inc(4) have_key_images_iff [OF d(1)] by simp
      have "unat t \<le> 196608" using Cons.prems(2) by (simp add: word_le_nat_alt CRYPTONOTE_GETBLOCKTEMPLATE_MAX_BLOCK_SIZE_def)
      then have ut: "unat ?t = unat t + unat (td_blob_size d)" using d(3) by (intro unat_add_64) simp
      obtain es1 where es1: "fill_block_loop cv median_size mx es (ks \<union> set (tx_images (td_tx d)), ?t, f + td_fee d, hs @ [tid])
          = ((t', f', hs'), es1)" "es' = (tid, d') # es1"
        using Cons.prems(3) no False inc rd ready append_key_images_ok [OF d(1, 2) disj]
        by (auto simp: e Let_def not_less split: if_splits prod.splits)
      then obtain sel where sel: "selection cv mx es (ks \<union> set (tx_images (td_tx d))) ?t t' sel" "hs' = (hs @ [tid]) @ map fst sel"
          "f' = f + td_fee d + sum_list (map (\<lambda>e. td_fee (snd e)) sel)" "map entry_data es1 = map entry_data es"
        using Cons.IH [OF ok inc(2) es1(1)] by blast
      have "t' \<le> mx \<and> t' \<le> CRYPTONOTE_GETBLOCKTEMPLATE_MAX_BLOCK_SIZE"
      proof (cases "sel = []")
        case True
        then have "t' = ?t" using sel(1) by (simp add: selection_def word_unat_eq_iff)
        then show ?thesis using inc by simp
      next
        case False
        then show ?thesis using sel(1) by (simp add: selection_def)
      qed
      moreover have "distinct (concat (map (\<lambda>e. tx_images (td_tx (snd e))) (e # sel)))"
        using sel(1) d(2) by (auto simp: selection_def e)
      ultimately have "selection cv mx (e # es) ks t t' (e # sel)"
        using sel(1) disj ready(4) inc(3) ut unfolding selection_def by (auto simp: e)
      then show ?thesis
        using sel(2-4) es1(2) ready by (auto simp: e add.assoc intro!: exI [of _ "e # sel"])
    qed
  qed
qed

lemma template_keeps:
  assumes "map entry_data es = map entry_data (pool_transactions p)"
  shows "pool_ok p \<Longrightarrow> pool_ok (p\<lparr>pool_transactions := es\<rparr>)" "no_stale p \<Longrightarrow> no_stale (p\<lparr>pool_transactions := es\<rparr>)"
proof -
  have im: "entry_data ` set es = entry_data ` set (pool_transactions p)" using assms by (simp flip: set_map)
  have ex: "\<exists>e' \<in> set xs. entry_data e' = entry_data e" if "entry_data ` set ys = entry_data ` set xs" "e \<in> set ys" for e xs ys
  proof -
    have "entry_data e \<in> entry_data ` set xs" using that by blast
    then show ?thesis by (auto simp only: image_iff)
  qed
  have fst: "map fst es = map fst (pool_transactions p)"
    using arg_cong [OF assms, of "map fst"] unfolding map_map comp_def fst_conv .
  show "pool_ok (p\<lparr>pool_transactions := es\<rparr>)" if "pool_ok p"
  proof -
    have "entry_ok (m_spent_key_images p) e" if "e \<in> set es" for e
    proof -
      obtain e' where "e' \<in> set (pool_transactions p)" "entry_data e' = entry_data e" using ex [OF im \<open>e \<in> set es\<close>] by blast
      moreover have "entry_ok (m_spent_key_images p) e'" using calculation(1) \<open>pool_ok p\<close> by (simp add: pool_ok_def)
      ultimately show ?thesis unfolding entry_ok_def prod.inject by metis
    qed
    then show ?thesis using that by (simp add: pool_ok_def fst)
  qed
  show "no_stale (p\<lparr>pool_transactions := es\<rparr>)" if "no_stale p"
    unfolding no_stale_def
  proof (intro allI ballI)
    fix k t
    assume "t \<in> ids_of (m_spent_key_images (p\<lparr>pool_transactions := es\<rparr>)) k"
    then obtain d where "(t, d) \<in> set (pool_transactions p)" "k \<in> set (tx_images (td_tx d))"
      using \<open>no_stale p\<close> by (auto simp: no_stale_def)
    then obtain e where "e \<in> set es" "entry_data e = entry_data (t, d)" using ex [OF im [symmetric]] by blast
    then show "\<exists>d. (t, d) \<in> set (pool_transactions (p\<lparr>pool_transactions := es\<rparr>)) \<and> k \<in> set (tx_images (td_tx d))"
      using \<open>k \<in> _\<close> by (intro exI [of _ "snd e"]) (cases e, simp)
  qed
qed

lemma fill_block_loop_kept:
  "map (\<lambda>e. (entry_data e, kept_by_block (snd e))) (snd (fill_block_loop cv m mx es st))
   = map (\<lambda>e. (entry_data e, kept_by_block (snd e))) es"
proof (induction cv m mx es st rule: fill_block_loop.induct)
  case (2 cv median_size max_total_size tid d es ks total_size fee hashes)
  obtain r d' where rd: "is_transaction_ready_to_go cv d = (r, d')" by (cases "is_transaction_ready_to_go cv d")
  then have d': "entry_data (tid, d') = entry_data (tid, d)" "kept_by_block d' = kept_by_block d"
    by (auto simp: is_transaction_ready_to_go_def Let_def split: if_splits prod.splits)
  obtain ok ks' where ap: "append_key_images ks (td_tx d') = (ok, ks')" by (cases "append_key_images ks (td_tx d')")
  show ?case
    using 2(1-3) 2(4) [OF _ _ _ rd [symmetric]] rd ap d'
    by (auto simp: Let_def case_prod_unfold)
qed simp

text \<open>Two transactions of the pool that no block keeps there have no key image in common.\<close>

definition loose_disjoint :: "(hash \<times> tx_details) list \<Rightarrow> bool" where
  "loose_disjoint es \<longleftrightarrow> (\<forall>e \<in> set es. \<forall>e' \<in> set es.
     \<not> kept_by_block (snd e) \<and> \<not> kept_by_block (snd e') \<and> fst e \<noteq> fst e'
     \<longrightarrow> set (tx_images (td_tx (snd e))) \<inter> set (tx_images (td_tx (snd e'))) = {})"

lemma loose_disjoint_mono: "loose_disjoint es \<Longrightarrow> set es' \<subseteq> set es \<Longrightarrow> loose_disjoint es'"
  unfolding loose_disjoint_def by (meson subsetD)

lemma loose_disjoint_cong:
  assumes "loose_disjoint es" "(\<lambda>e. (entry_data e, kept_by_block (snd e))) ` set es' = (\<lambda>e. (entry_data e, kept_by_block (snd e))) ` set es"
  shows "loose_disjoint es'"
proof -
  have ex: "\<exists>a \<in> set es. fst a = fst e \<and> td_tx (snd a) = td_tx (snd e) \<and> kept_by_block (snd a) = kept_by_block (snd e)"
    if "e \<in> set es'" for e
  proof -
    have "(entry_data e, kept_by_block (snd e)) \<in> (\<lambda>e. (entry_data e, kept_by_block (snd e))) ` set es"
      using that unfolding assms(2) [symmetric] by (rule imageI)
    then show ?thesis by (auto simp only: image_iff prod.inject)
  qed
  show ?thesis
    unfolding loose_disjoint_def
  proof (intro ballI impI)
    fix e e'
    assume e: "e \<in> set es'" "e' \<in> set es'"
      and ne: "\<not> kept_by_block (snd e) \<and> \<not> kept_by_block (snd e') \<and> fst e \<noteq> fst e'"
    obtain a where "a \<in> set es" "fst a = fst e" "td_tx (snd a) = td_tx (snd e)" "kept_by_block (snd a) = kept_by_block (snd e)"
      using ex [OF e(1)] by blast
    moreover obtain a' where "a' \<in> set es" "fst a' = fst e'" "td_tx (snd a') = td_tx (snd e')" "kept_by_block (snd a') = kept_by_block (snd e')"
      using ex [OF e(2)] by blast
    ultimately show "set (tx_images (td_tx (snd e))) \<inter> set (tx_images (td_tx (snd e'))) = {}"
      using assms(1) ne unfolding loose_disjoint_def by metis
  qed
qed

definition pool_clean :: "tx_memory_pool \<Rightarrow> bool" where
  "pool_clean p \<longleftrightarrow> pool_ok p \<and> no_stale p \<and> loose_disjoint (pool_transactions p)"

lemma add_tx_clean:
  assumes "pool_clean p" "distinct (tx_images tx)"
    and add: "add_tx_with_id cv now tx (get_transaction_hash tx) blob_size tvc kept p = (r, tvc', p')"
  shows "pool_clean p'"
proof -
  let ?t = "get_transaction_hash tx"
  have p: "pool_ok p" "no_stale p" "loose_disjoint (pool_transactions p)" using assms(1) by (auto simp: pool_clean_def)
  have fresh: "?t \<notin> ids_of (m_spent_key_images p) k" if "?t \<notin> fst ` set (pool_transactions p)" for k
    using that p(2) by (force simp: no_stale_def)
  note keeps = add_tx_keeps [OF p(1) refl assms(2) fresh add, simplified]
  have "loose_disjoint (pool_transactions p')"
    using add_tx_cases [OF add]
  proof (elim disjE conjE exE)
    fix d
    assume adm: "admitted cv tx blob_size kept p" "td_tx d = tx" "kept_by_block d = kept"
      "pool_transactions p' = pool_transactions p @ [(?t, d)]"
    have new: "set (tx_images tx) \<inter> set (tx_images (td_tx (snd e))) = {}" if "e \<in> set (pool_transactions p)" "\<not> kept" for e
    proof -
      have "k \<notin> set (tx_images tx)" if "k \<in> set (tx_images (td_tx (snd e)))" for k
      proof -
        have "fst e \<in> ids_of (m_spent_key_images p) k"
          using that \<open>e \<in> _\<close> p(1) unfolding pool_ok_def entry_ok_def by blast
        then have "m_spent_key_images p k \<noteq> None" using spent_none_iff [OF p(1)] by blast
        then show ?thesis
          using adm(1) \<open>\<not> kept\<close> by (auto simp: admitted_def have_tx_keyimges_as_spent_def have_ins_as_spent_iff)
      qed
      then show ?thesis by blast
    qed
    show ?thesis
      using p(3) new adm(2, 3) unfolding adm(4) loose_disjoint_def by (auto simp: Int_commute)
  qed (use p(3) in simp_all)
  then show ?thesis using keeps p by (simp add: pool_clean_def)
qed

lemma take_tx_clean: "pool_clean p \<Longrightarrow> take_tx tid p = Some (tx, b, f, p') \<Longrightarrow> pool_clean p'"
  using take_tx_keeps(2-4) [of p tid tx b f p'] by (auto simp: pool_clean_def intro: loose_disjoint_mono)

lemma fill_block_template_clean:
  assumes "pool_clean p" "fill_block_template cv median_size hashes p = (r, p')"
  shows "pool_clean p'"
proof -
  let ?l = "fill_block_loop cv median_size (130 * median_size div 100 - CRYPTONOTE_COINBASE_BLOB_RESERVED_SIZE)
    (pool_transactions p) ({}, 0, 0, hashes)"
  have p': "p' = p\<lparr>pool_transactions := snd ?l\<rparr>"
    using assms(2) by (auto simp: fill_block_template_def Let_def split: prod.splits)
  note kept = fill_block_loop_kept [of cv median_size _ "pool_transactions p" "({}, 0, 0, hashes)"]
  have "map entry_data (snd ?l) = map entry_data (pool_transactions p)"
    using arg_cong [OF kept, of "map fst"] by (simp add: comp_def)
  moreover have "loose_disjoint (snd ?l)"
    using loose_disjoint_cong [of "pool_transactions p" "snd ?l"] assms(1) arg_cong [OF kept, of set]
    by (simp add: pool_clean_def)
  ultimately show ?thesis using template_keeps [of "snd ?l" p] assms(1) by (auto simp: pool_clean_def p')
qed

lemma remove_too_big_clean: "pool_clean p \<Longrightarrow> pool_clean (remove_too_big p)"
proof -
  let ?f = "\<lambda>p (tid, d). if td_blob_size d \<ge> TRANSACTION_SIZE_LIMIT
     then (snd (remove_transaction_keyimages (td_tx d) p))
            \<lparr>pool_transactions := filter (\<lambda>e. fst e \<noteq> tid) (pool_transactions p)\<rparr>
     else p"
  have "pool_clean (foldl ?f p es)" if "pool_clean p" "distinct (map fst es)" "set es \<subseteq> set (pool_transactions p)" for p es
    using that
  proof (induction es arbitrary: p)
    case (Cons e es)
    obtain tid d where e: "e = (tid, d)" by (cases e)
    show ?case
    proof (cases "TRANSACTION_SIZE_LIMIT \<le> td_blob_size d")
      case True
      have "map_of (pool_transactions p) tid = Some d"
        using Cons.prems e by (auto simp: pool_clean_def pool_ok_def)
      then have "take_tx tid p = Some (td_tx d, td_blob_size d, td_fee d, ?f p e)"
        using True e by (simp add: take_tx_def remove_transaction_keyimages_def case_prod_unfold Let_def)
      then have "pool_clean (?f p e)" "pool_transactions (?f p e) = filter (\<lambda>e. fst e \<noteq> tid) (pool_transactions p)"
        using Cons.prems(1) take_tx_clean take_tx_keeps(2) unfolding pool_clean_def by blast+
      moreover have "set es \<subseteq> set (filter (\<lambda>e. fst e \<noteq> tid) (pool_transactions p))"
        using Cons.prems(2, 3) e by force
      ultimately show ?thesis using Cons.IH [of "?f p e"] Cons.prems(2) by simp
    qed (use Cons in \<open>auto simp: e\<close>)
  qed simp
  moreover have "pool_clean p \<Longrightarrow> distinct (map fst (pool_transactions p))" by (simp add: pool_clean_def pool_ok_def)
  ultimately show "pool_clean p \<Longrightarrow> pool_clean (remove_too_big p)"
    unfolding remove_too_big_def by blast
qed

text \<open>
  The runs of a pool, apart from expiry: transactions reach \<open>add_tx\<close> under their hash and with distinct key images
  (\<open>check_tx_inputs_keyimages_diff\<close>).
\<close>

inductive pool_reachable :: "tx_memory_pool \<Rightarrow> bool" where
  empty: "pool_reachable \<lparr>pool_transactions = [], m_spent_key_images = Map.empty, remove_stuck_last = t\<rparr>"
| added: "pool_reachable p \<Longrightarrow> distinct (tx_images tx) \<Longrightarrow>
    add_tx_with_id cv now tx (get_transaction_hash tx) blob_size tvc kept p = (r, tvc', p') \<Longrightarrow> pool_reachable p'"
| taken: "pool_reachable p \<Longrightarrow> take_tx tid p = Some (tx, b, f, p') \<Longrightarrow> pool_reachable p'"
| template: "pool_reachable p \<Longrightarrow> fill_block_template cv median_size hashes p = (r', p') \<Longrightarrow> pool_reachable p'"
| trimmed: "pool_reachable p \<Longrightarrow> pool_reachable (remove_too_big p)"

lemma pool_reachable_clean: "pool_reachable p \<Longrightarrow> pool_clean p"
proof (induction rule: pool_reachable.induct)
  case (empty t)
  show ?case by (simp add: pool_clean_def pool_ok_def no_stale_def loose_disjoint_def ids_of_def)
next
  case (trimmed p)
  then show ?case using remove_too_big_clean by simp
qed (blast intro: add_tx_clean take_tx_clean fill_block_template_clean)+

lemma pool_spent_iff:
  assumes "pool_ok p" "no_stale p"
  shows "have_tx_keyimg_as_spent p k \<longleftrightarrow> (\<exists>e \<in> set (pool_transactions p). k \<in> set (tx_images (td_tx (snd e))))"
proof -
  have "have_tx_keyimg_as_spent p k \<longleftrightarrow> ids_of (m_spent_key_images p) k \<noteq> {}"
    using spent_none_iff [OF assms(1)] by (simp add: have_tx_keyimg_as_spent_def)
  also have "\<dots> \<longleftrightarrow> (\<exists>e \<in> set (pool_transactions p). k \<in> set (tx_images (td_tx (snd e))))"
  proof
    assume "ids_of (m_spent_key_images p) k \<noteq> {}"
    then obtain t d where "(t, d) \<in> set (pool_transactions p)" "k \<in> set (tx_images (td_tx d))"
      using assms(2) unfolding no_stale_def by blast
    then show "\<exists>e \<in> set (pool_transactions p). k \<in> set (tx_images (td_tx (snd e)))" by (intro bexI [of _ "(t, d)"]) simp
  next
    assume "\<exists>e \<in> set (pool_transactions p). k \<in> set (tx_images (td_tx (snd e)))"
    then show "ids_of (m_spent_key_images p) k \<noteq> {}" using assms(1) unfolding pool_ok_def entry_ok_def by blast
  qed
  finally show ?thesis .
qed

text \<open>A pool with one transaction, for the witnesses.\<close>

definition one_tx :: transaction where
  "one_tx = \<lparr>version = 1, unlock_time = 0, vin = [txin_to_key 1000 [0] 7], vout = [\<lparr>amount = 900, target = txout_to_key 3\<rparr>],
     extra = [], signatures = [[0]]\<rparr>"

definition one_details :: tx_details where
  "one_details = \<lparr>td_tx = one_tx, td_blob_size = 100, td_fee = 100, max_used_block_id = null_hash, max_used_block_height = 0,
     kept_by_block = True, last_failed_height = 0, last_failed_id = null_hash, receive_time = 5\<rparr>"

definition one_pool :: tx_memory_pool where
  "one_pool = \<lparr>pool_transactions = [(get_transaction_hash one_tx, one_details)],
     m_spent_key_images = [7 \<mapsto> {get_transaction_hash one_tx}], remove_stuck_last = 0\<rparr>"

definition open_view :: chain_view where
  "open_view = \<lparr>cv_height = 1, cv_block_id = (\<lambda>h. 1), cv_check_tx_inputs = (\<lambda>tx i. (True, 0, 1)),
     cv_have_tx_keyimges_as_spent = (\<lambda>tx. False)\<rparr>"

lemma one_pool_ok: "pool_ok one_pool"
  by (auto simp: pool_ok_def one_pool_def entry_ok_def pool_admissible_def get_inputs_money_amount_def get_outs_money_amount_def
      one_details_def one_tx_def ids_of_def)

lemma one_pool_reachable:
  "\<exists>p. pool_reachable p \<and> map fst (pool_transactions p) = [get_transaction_hash one_tx]"
proof -
  define p0 :: tx_memory_pool where "p0 = \<lparr>pool_transactions = [], m_spent_key_images = Map.empty, remove_stuck_last = 0\<rparr>"
  define tvc where "tvc = \<lparr>m_should_be_relayed = False, m_verifivation_failed = False, m_verifivation_impossible = False, m_added_to_pool = False\<rparr>"
  obtain r tvc' p' where add: "add_tx open_view 5 one_tx tvc True p0 = (r, tvc', p')" by (cases "add_tx open_view 5 one_tx tvc True p0")
  have r0: "pool_reachable p0" unfolding p0_def by (rule pool_reachable.empty)
  have d: "distinct (tx_images one_tx)" by (simp add: one_tx_def)
  have ok: "pool_ok p0" "no_stale p0" using pool_reachable_clean [OF r0] by (auto simp: pool_clean_def)
  have adm: "admitted open_view one_tx b True p0" for b
    by (simp add: admitted_def pool_admissible_def one_tx_def get_inputs_money_amount_def get_outs_money_amount_def)
  have "r" "pool_ok p'" using add_tx_keeps(1,2) [OF ok(1) refl d _ add [unfolded add_tx_def]] adm ok(2)
    by (auto simp: p0_def no_stale_def)
  then have "map fst (pool_transactions p') = [get_transaction_hash one_tx]"
    using add_tx_keeps(5) [OF ok(1) refl d _ add [unfolded add_tx_def]] by (auto simp: p0_def ids_of_def)
  with pool_reachable.added [OF r0 d add [unfolded add_tx_def]] show ?thesis by (intro exI [of _ p']) simp
qed

subsection \<open>Properties\<close>



text \<open>
  C11. The block template that the pool fills has distinct hashes of transactions of the pool, no two of
  which spend the same output and none of which the chain already has as spent. The reported size and
  fee are the sums over these transactions, and the size is within 130% of the median (less the room
  for the miner transaction) and within the template limit. The pool keeps its invariant.
\<close>
theorem block_template_valid:
  assumes "pool_ok p" "\<forall>e \<in> set (pool_transactions p). unat (td_blob_size (snd e)) < 2 ^ 63"
    and "fill_block_template cv median_size [] p = ((tsize, fee, hashes), p')"
  shows "(\<exists>sel. subseq sel (pool_transactions p) \<and> hashes = map fst sel \<and> distinct hashes
      \<and> distinct (concat (map (\<lambda>e. tx_images (td_tx (snd e))) sel))
      \<and> (\<forall>e \<in> set sel. \<not> cv_have_tx_keyimges_as_spent cv (td_tx (snd e)))
      \<and> unat tsize = sum_list (map (\<lambda>e. unat (td_blob_size (snd e))) sel)
      \<and> fee = sum_list (map (\<lambda>e. td_fee (snd e)) sel)
      \<and> tsize \<le> CRYPTONOTE_GETBLOCKTEMPLATE_MAX_BLOCK_SIZE
      \<and> (sel \<noteq> [] \<longrightarrow> tsize \<le> 130 * median_size div 100 - CRYPTONOTE_COINBASE_BLOB_RESERVED_SIZE))
    \<and> pool_ok p'"
proof (rule conjI)
  let ?mx = "130 * median_size div 100 - CRYPTONOTE_COINBASE_BLOB_RESERVED_SIZE"
  obtain es where es: "fill_block_loop cv median_size ?mx (pool_transactions p) ({}, 0, 0, []) = ((tsize, fee, hashes), es)"
    "p' = p\<lparr>pool_transactions := es\<rparr>"
    using assms(3) by (auto simp: fill_block_template_def Let_def split: prod.splits)
  have ok: "\<forall>e \<in> set (pool_transactions p). entry_ok (m_spent_key_images p) e \<and> unat (td_blob_size (snd e)) < 2 ^ 63"
    using assms(1, 2) unfolding pool_ok_def by blast
  note sel = fill_block_loop_selects [OF ok _ es(1)]
  then obtain sel where sel: "selection cv ?mx (pool_transactions p) {} 0 tsize sel" "hashes = map fst sel"
      "fee = sum_list (map (\<lambda>e. td_fee (snd e)) sel)" "map entry_data es = map entry_data (pool_transactions p)"
    by auto
  have "tsize \<le> CRYPTONOTE_GETBLOCKTEMPLATE_MAX_BLOCK_SIZE"
    using sel(1) by (cases "sel = []") (auto simp: selection_def unat_eq_0)
  moreover have "distinct hashes"
    using sel(1, 2) assms(1) by (auto simp: selection_def pool_ok_def subseq_conv_nths simp flip: nths_map)
  ultimately show "\<exists>sel. subseq sel (pool_transactions p) \<and> hashes = map fst sel \<and> distinct hashes
      \<and> distinct (concat (map (\<lambda>e. tx_images (td_tx (snd e))) sel))
      \<and> (\<forall>e \<in> set sel. \<not> cv_have_tx_keyimges_as_spent cv (td_tx (snd e)))
      \<and> unat tsize = sum_list (map (\<lambda>e. unat (td_blob_size (snd e))) sel)
      \<and> fee = sum_list (map (\<lambda>e. td_fee (snd e)) sel)
      \<and> tsize \<le> CRYPTONOTE_GETBLOCKTEMPLATE_MAX_BLOCK_SIZE
      \<and> (sel \<noteq> [] \<longrightarrow> tsize \<le> ?mx)"
    using sel unfolding selection_def by (intro exI [of _ sel]) simp
  show "pool_ok p'" using template_keeps(1) [OF sel(4) assms(1)] es(2) by simp
qed

theorem block_template_valid_witness:
  "fst (fill_block_template open_view 1000 [] one_pool) = (100, 100, [get_transaction_hash one_tx])
   \<and> pool_ok (snd (fill_block_template open_view 1000 [] one_pool))"
proof -
  have f: "fst (fill_block_template open_view 1000 [] one_pool) = (100, 100, [get_transaction_hash one_tx])"
    by (simp add: fill_block_template_def one_pool_def one_details_def open_view_def is_transaction_ready_to_go_def Let_def
        have_key_images_def append_key_images_def one_tx_def CRYPTONOTE_COINBASE_BLOB_RESERVED_SIZE_def
        CRYPTONOTE_GETBLOCKTEMPLATE_MAX_BLOCK_SIZE_def)
  have "\<forall>e \<in> set (pool_transactions one_pool). unat (td_blob_size (snd e)) < 2 ^ 63"
    by (simp add: one_pool_def one_details_def)
  from block_template_valid [OF one_pool_ok this, of open_view 1000 100 100 "[get_transaction_hash one_tx]"] f
  show ?thesis by (metis prod.collapse)
qed



end
