(* ===== verification/Blockchain.thy ===== *)
theory Blockchain
  imports Tx_Pool Checkpoints Tx_Construct Difficulty Emission
begin

text \<open>
  \<open>src/cryptonote_core/blockchain_storage.cpp\<close>: the state of the block chain, what it answers about
  blocks and transactions, the checks of inputs, and the index of transactions, outputs and key images
  with the operations that add a transaction of a block and take it back. The ledger invariant says
  that these indexes are those of the list of transactions of the chain.

  An operation gets what it needs of its surroundings in a \<open>chain_env\<close>: the curve routines, the slow
  hash and the current time. The result of \<open>std::unordered_map\<close> look-ups is a map; logging, locks and
  the file of the chain are left out.
\<close>

definition CRYPTONOTE_MAX_BLOCK_NUMBER :: u64 where "CRYPTONOTE_MAX_BLOCK_NUMBER = 500000000"
definition CRYPTONOTE_LOCKED_TX_ALLOWED_DELTA_BLOCKS :: u64 where "CRYPTONOTE_LOCKED_TX_ALLOWED_DELTA_BLOCKS = 1"
definition CRYPTONOTE_LOCKED_TX_ALLOWED_DELTA_SECONDS :: u64 where
  "CRYPTONOTE_LOCKED_TX_ALLOWED_DELTA_SECONDS = DIFFICULTY_TARGET * CRYPTONOTE_LOCKED_TX_ALLOWED_DELTA_BLOCKS"
definition CRYPTONOTE_BLOCK_FUTURE_TIME_LIMIT :: u64 where "CRYPTONOTE_BLOCK_FUTURE_TIME_LIMIT = 60 * 60 * 2"
definition BLOCKCHAIN_TIMESTAMP_CHECK_WINDOW :: nat where "BLOCKCHAIN_TIMESTAMP_CHECK_WINDOW = 60"
definition CRYPTONOTE_REWARD_BLOCKS_WINDOW :: nat where "CRYPTONOTE_REWARD_BLOCKS_WINDOW = 100"

subsection \<open>State\<close>

record transaction_chain_entry =
  ce_tx :: transaction
  m_keeper_block_height :: u64
  m_blob_size :: u64
  m_global_output_indexes :: "u64 list"

record block_extended_info =
  bei_bl :: block
  bei_height :: u64
  block_cumulative_size :: u64
  cumulative_difficulty :: u64
  already_generated_coins :: u64

record blockchain_storage =
  m_blocks :: "block_extended_info list"
  m_blocks_index :: "hash \<rightharpoonup> nat"
  m_transactions :: "hash \<rightharpoonup> transaction_chain_entry"
  m_spent_keys :: "key_image set"
  m_current_block_cumul_sz_limit :: u64
  m_alternative_chains :: "hash \<rightharpoonup> block_extended_info"
  m_invalid_blocks :: "hash \<rightharpoonup> block_extended_info"
  m_outputs :: "u64 \<rightharpoonup> (hash \<times> nat) list"
  m_checkpoints :: points
  m_is_in_checkpoint_zone :: bool
  m_enforce_dns_checkpoints :: bool
  m_testnet :: bool
  m_tx_pool :: tx_memory_pool

record block_verification_context =
  m_added_to_main_chain :: bool
  bvc_verifivation_failed :: bool
  m_marked_as_orphaned :: bool
  m_already_exists :: bool

record 'p chain_env =
  env_ge :: "'p ge_ops"
  env_slow_hash :: "blob \<Rightarrow> hash"
  env_now :: u64

definition tvc_init :: tx_verification_context where
  "tvc_init = \<lparr>m_should_be_relayed = False, m_verifivation_failed = False, m_verifivation_impossible = False, m_added_to_pool = False\<rparr>"

definition bvc_init :: block_verification_context where
  "bvc_init = \<lparr>m_added_to_main_chain = False, bvc_verifivation_failed = False, m_marked_as_orphaned = False, m_already_exists = False\<rparr>"

subsection \<open>Queries\<close>

definition have_tx :: "blockchain_storage \<Rightarrow> hash \<Rightarrow> bool" where
  "have_tx s tid \<longleftrightarrow> m_transactions s tid \<noteq> None"

definition bc_have_tx_keyimg_as_spent :: "blockchain_storage \<Rightarrow> key_image \<Rightarrow> bool" where
  "bc_have_tx_keyimg_as_spent s key_im \<longleftrightarrow> key_im \<in> m_spent_keys s"

definition get_tx :: "blockchain_storage \<Rightarrow> hash \<Rightarrow> transaction option" where
  "get_tx s tid = map_option ce_tx (m_transactions s tid)"

definition get_current_blockchain_height :: "blockchain_storage \<Rightarrow> u64" where
  "get_current_blockchain_height s = of_nat (length (m_blocks s))"

definition get_tail_id :: "blockchain_storage \<Rightarrow> hash" where
  "get_tail_id s = (if m_blocks s \<noteq> [] then get_block_hash (bei_bl (last (m_blocks s))) else null_hash)"

definition get_tail_id_height :: "blockchain_storage \<Rightarrow> hash \<times> u64" where
  "get_tail_id_height s = (get_tail_id s, get_current_blockchain_height s - 1)"

definition get_block_id_by_height :: "blockchain_storage \<Rightarrow> u64 \<Rightarrow> hash" where
  "get_block_id_by_height s h =
     (if unat h \<ge> length (m_blocks s) then null_hash else get_block_hash (bei_bl (m_blocks s ! unat h)))"

text \<open>\<open>None\<close> stands for \<open>false\<close>, and for the access beyond the end of \<open>m_blocks\<close> that a wrong index would cause.\<close>

definition get_block_by_hash :: "blockchain_storage \<Rightarrow> hash \<Rightarrow> block option" where
  "get_block_by_hash s h =
     (case m_blocks_index s h of
        Some i \<Rightarrow> if i < length (m_blocks s) then Some (bei_bl (m_blocks s ! i)) else None
      | None \<Rightarrow> map_option bei_bl (m_alternative_chains s h))"

definition have_block :: "blockchain_storage \<Rightarrow> hash \<Rightarrow> bool" where
  "have_block s h \<longleftrightarrow> m_blocks_index s h \<noteq> None \<or> m_alternative_chains s h \<noteq> None \<or> m_invalid_blocks s h \<noteq> None"

fun bc_have_ins_as_spent :: "blockchain_storage \<Rightarrow> txin list \<Rightarrow> bool" where
  "bc_have_ins_as_spent s [] = False"
| "bc_have_ins_as_spent s (txin_to_key amt offs k_image # ins) =
     (if bc_have_tx_keyimg_as_spent s k_image then True else bc_have_ins_as_spent s ins)"
| "bc_have_ins_as_spent s (_ # ins) = True"

definition bc_have_tx_keyimges_as_spent :: "blockchain_storage \<Rightarrow> transaction \<Rightarrow> bool" where
  "bc_have_tx_keyimges_as_spent s tx = bc_have_ins_as_spent s (vin tx)"

definition get_difficulty_for_next_block :: "blockchain_storage \<Rightarrow> u64" where
  "get_difficulty_for_next_block s =
     (let offset = length (m_blocks s) - min (length (m_blocks s)) DIFFICULTY_BLOCKS_COUNT;
          offset = (if offset = 0 then offset + 1 else offset);
          window = drop offset (m_blocks s)
      in next_difficulty (map (\<lambda>b. timestamp (bei_bl b)) window) (map cumulative_difficulty window) DIFFICULTY_TARGET)"

definition block_difficulty :: "blockchain_storage \<Rightarrow> nat \<Rightarrow> u64" where
  "block_difficulty s i =
     (if \<not> i < length (m_blocks s) then 0
      else if i = 0 then cumulative_difficulty (m_blocks s ! i)
      else cumulative_difficulty (m_blocks s ! i) - cumulative_difficulty (m_blocks s ! (i - 1)))"

definition get_backward_blocks_sizes :: "blockchain_storage \<Rightarrow> nat \<Rightarrow> nat \<Rightarrow> u64 list option" where
  "get_backward_blocks_sizes s from_height cnt =
     (if \<not> from_height < length (m_blocks s) then None
      else
        let start_offset = (from_height + 1) - min (from_height + 1) cnt
        in Some (map (\<lambda>i. block_cumulative_size (m_blocks s ! i)) [start_offset..<from_height + 1]))"

definition get_last_n_blocks_sizes :: "blockchain_storage \<Rightarrow> nat \<Rightarrow> u64 list option" where
  "get_last_n_blocks_sizes s cnt =
     (if m_blocks s = [] then Some [] else get_backward_blocks_sizes s (length (m_blocks s) - 1) cnt)"

text \<open>\<open>epee::misc_utils::median\<close>.\<close>

definition median :: "u64 list \<Rightarrow> u64" where
  "median v =
     (if v = [] then 0 else if length v = 1 then v ! 0
      else
        let n = length v div 2; v = sort v
        in if length v mod 2 \<noteq> 0 then v ! n else (v ! (n - 1) + v ! n) div 2)"

definition is_tx_spendtime_unlocked :: "blockchain_storage \<Rightarrow> u64 \<Rightarrow> u64 \<Rightarrow> bool" where
  "is_tx_spendtime_unlocked s now t \<longleftrightarrow>
     (if t < CRYPTONOTE_MAX_BLOCK_NUMBER
      then get_current_blockchain_height s - 1 + CRYPTONOTE_LOCKED_TX_ALLOWED_DELTA_BLOCKS \<ge> t
      else now + CRYPTONOTE_LOCKED_TX_ALLOWED_DELTA_SECONDS \<ge> t)"

subsection \<open>Inputs\<close>

text \<open>
  \<open>scan_outputkeys_for_indexes\<close> with its visitor as a function that returns a key or fails. The result
  is the return value, the collected keys and \<open>*pmax_related_block_height\<close>.
\<close>

fun scan_loop :: "blockchain_storage \<Rightarrow> (transaction \<Rightarrow> tx_out \<Rightarrow> 'k option) \<Rightarrow> (hash \<times> nat) list \<Rightarrow> u64 list \<Rightarrow> 'k list \<Rightarrow> u64
    \<Rightarrow> bool \<times> 'k list \<times> u64" where
  "scan_loop s vis outs [] acc h = (True, acc, h)"
| "scan_loop s vis outs (i # offsets) acc h =
     (if unat i \<ge> length outs then (False, acc, h)
      else case m_transactions s (fst (outs ! unat i)) of
        None \<Rightarrow> (False, acc, h)
      | Some e \<Rightarrow>
          if \<not> snd (outs ! unat i) < length (vout (ce_tx e)) then (False, acc, h)
          else case vis (ce_tx e) (vout (ce_tx e) ! snd (outs ! unat i)) of
            None \<Rightarrow> (False, acc, h)
          | Some key \<Rightarrow>
              scan_loop s vis outs offsets (acc @ [key])
                (if offsets = [] \<and> h < m_keeper_block_height e then m_keeper_block_height e else h))"

definition scan_outputkeys_for_indexes :: "blockchain_storage \<Rightarrow> (transaction \<Rightarrow> tx_out \<Rightarrow> 'k option) \<Rightarrow> u64 \<Rightarrow> u64 list \<Rightarrow> u64
    \<Rightarrow> bool \<times> 'k list \<times> u64" where
  "scan_outputkeys_for_indexes s vis amt key_offsets h =
     (case m_outputs s amt of
        None \<Rightarrow> (False, [], h)
      | Some outs \<Rightarrow>
          if key_offsets = [] then (False, [], h)
          else scan_loop s vis outs (relative_output_offsets_to_absolute key_offsets) [] h)"

definition handle_output :: "blockchain_storage \<Rightarrow> u64 \<Rightarrow> transaction \<Rightarrow> tx_out \<Rightarrow> public_key option" where
  "handle_output s now tx out =
     (if \<not> is_tx_spendtime_unlocked s now (unlock_time tx) then None
      else case target out of txout_to_key key \<Rightarrow> Some key | _ \<Rightarrow> None)"

text \<open>
  \<open>check_ring_signature\<close> ends the process on an output key that is not a point; here such a check
  fails.
\<close>

definition check_tx_input :: "'p chain_env \<Rightarrow> blockchain_storage \<Rightarrow> u64 \<Rightarrow> u64 list \<Rightarrow> key_image \<Rightarrow> hash \<Rightarrow> signature list \<Rightarrow> u64
    \<Rightarrow> bool \<times> u64" where
  "check_tx_input env s amt key_offsets k_image tx_prefix_hash sig h =
     (let (r, output_keys, h) = scan_outputkeys_for_indexes s (handle_output s (env_now env)) amt key_offsets h
      in if \<not> r then (False, h)
         else if length key_offsets \<noteq> length output_keys then (False, h)
         else if length sig \<noteq> length output_keys then (False, h)
         else if m_is_in_checkpoint_zone s then (True, h)
         else (check_ring_signature (env_ge env) tx_prefix_hash k_image output_keys sig = Some True, h))"

fun check_inputs_loop :: "'p chain_env \<Rightarrow> blockchain_storage \<Rightarrow> hash \<Rightarrow> signature list list \<Rightarrow> nat \<Rightarrow> txin list \<Rightarrow> u64 \<Rightarrow> bool \<times> u64" where
  "check_inputs_loop env s tx_prefix_hash sigs sig_index [] h = (True, h)"
| "check_inputs_loop env s tx_prefix_hash sigs sig_index (txin_to_key amt key_offsets k_image # ins) h =
     (if key_offsets = [] then (False, h)
      else if bc_have_tx_keyimg_as_spent s k_image then (False, h)
      else if \<not> sig_index < length sigs then (False, h)
      else
        let (r, h) = check_tx_input env s amt key_offsets k_image tx_prefix_hash (sigs ! sig_index) h
        in if \<not> r then (False, h) else check_inputs_loop env s tx_prefix_hash sigs (sig_index + 1) ins h)"
| "check_inputs_loop env s tx_prefix_hash sigs sig_index (_ # ins) h = (False, h)"

definition check_tx_inputs :: "'p chain_env \<Rightarrow> blockchain_storage \<Rightarrow> transaction \<Rightarrow> bool \<times> u64" where
  "check_tx_inputs env s tx = check_inputs_loop env s (get_transaction_prefix_hash tx) (signatures tx) 0 (vin tx) 0"

text \<open>The overload with \<open>max_used_block_id\<close>, which keeps its value on failure.\<close>

definition check_tx_inputs_id :: "'p chain_env \<Rightarrow> blockchain_storage \<Rightarrow> transaction \<Rightarrow> hash \<Rightarrow> bool \<times> u64 \<times> hash" where
  "check_tx_inputs_id env s tx max_id =
     (let (res, h) = check_tx_inputs env s tx
      in if \<not> res then (False, h, max_id)
         else if \<not> unat h < length (m_blocks s) then (False, h, max_id)
         else (True, h, get_block_hash (bei_bl (m_blocks s ! unat h))))"

text \<open>The chain as the memory pool sees it.\<close>

definition chain_view_of :: "'p chain_env \<Rightarrow> blockchain_storage \<Rightarrow> chain_view" where
  "chain_view_of env s = \<lparr>cv_height = get_current_blockchain_height s, cv_block_id = get_block_id_by_height s,
     cv_check_tx_inputs = check_tx_inputs_id env s, cv_have_tx_keyimges_as_spent = bc_have_tx_keyimges_as_spent s\<rparr>"

subsection \<open>The index of outputs\<close>

fun push_outs :: "hash \<Rightarrow> nat \<Rightarrow> tx_out list \<Rightarrow> (u64 \<rightharpoonup> (hash \<times> nat) list) \<Rightarrow> u64 list \<Rightarrow> (u64 \<rightharpoonup> (hash \<times> nat) list) \<times> u64 list" where
  "push_outs tx_id i [] m global_indexes = (m, global_indexes)"
| "push_outs tx_id i (ot # outs) m global_indexes =
     (let amount_index = (case m (amount ot) of None \<Rightarrow> [] | Some v \<Rightarrow> v) @ [(tx_id, i)]
      in push_outs tx_id (i + 1) outs (m(amount ot \<mapsto> amount_index)) (global_indexes @ [of_nat (length amount_index - 1)]))"

definition push_transaction_to_global_outs_index :: "transaction \<Rightarrow> hash \<Rightarrow> (u64 \<rightharpoonup> (hash \<times> nat) list) \<Rightarrow> (u64 \<rightharpoonup> (hash \<times> nat) list) \<times> u64 list" where
  "push_transaction_to_global_outs_index tx tx_id m = push_outs tx_id 0 (vout tx) m []"

text \<open>The outputs come in reverse order, each with its index in the transaction.\<close>

fun pop_outs :: "hash \<Rightarrow> (nat \<times> tx_out) list \<Rightarrow> (u64 \<rightharpoonup> (hash \<times> nat) list) \<Rightarrow> bool \<times> (u64 \<rightharpoonup> (hash \<times> nat) list)" where
  "pop_outs tx_id [] m = (True, m)"
| "pop_outs tx_id ((i, ot) # outs) m =
     (case m (amount ot) of
        None \<Rightarrow> (False, m)
      | Some v \<Rightarrow>
          if v = [] then (False, m)
          else if fst (last v) \<noteq> tx_id then (False, m)
          else if snd (last v) \<noteq> i then (False, m)
          else pop_outs tx_id outs (m(amount ot \<mapsto> butlast v)))"

definition pop_transaction_from_global_index :: "transaction \<Rightarrow> hash \<Rightarrow> (u64 \<rightharpoonup> (hash \<times> nat) list) \<Rightarrow> bool \<times> (u64 \<rightharpoonup> (hash \<times> nat) list)" where
  "pop_transaction_from_global_index tx tx_id m = pop_outs tx_id (rev (enumerate 0 (vout tx))) m"

subsection \<open>Adding and taking back a transaction\<close>

fun purge_images :: "bool \<Rightarrow> txin list \<Rightarrow> key_image set \<Rightarrow> bool \<times> key_image set" where
  "purge_images strict_check [] ks = (True, ks)"
| "purge_images strict_check (txin_to_key amt offs k # ins) ks =
     (if k \<in> ks then purge_images strict_check ins (ks - {k})
      else if strict_check then (False, ks) else purge_images strict_check ins ks)"
| "purge_images strict_check (txin_gen h # ins) ks = purge_images strict_check ins ks"
| "purge_images strict_check (_ # ins) ks = (if strict_check then (False, ks) else purge_images strict_check ins ks)"

definition purge_transaction_keyimages_from_blockchain :: "transaction \<Rightarrow> bool \<Rightarrow> blockchain_storage \<Rightarrow> bool \<times> blockchain_storage" where
  "purge_transaction_keyimages_from_blockchain tx strict_check s =
     (let (r, ks) = purge_images strict_check (vin tx) (m_spent_keys s) in (r, s\<lparr>m_spent_keys := ks\<rparr>))"

text \<open>The loop of \<open>add_transaction_from_block\<close> over the inputs.\<close>

fun add_images :: "txin list \<Rightarrow> key_image set \<Rightarrow> bool \<times> key_image set" where
  "add_images [] ks = (True, ks)"
| "add_images (txin_to_key amt offs k # ins) ks = (if k \<in> ks then (False, ks) else add_images ins (insert k ks))"
| "add_images (txin_gen h # ins) ks = add_images ins ks"
| "add_images (_ # ins) ks = (False, ks)"

definition add_transaction_from_block :: "transaction \<Rightarrow> hash \<Rightarrow> u64 \<Rightarrow> u64 \<Rightarrow> blockchain_storage \<Rightarrow> bool \<times> blockchain_storage" where
  "add_transaction_from_block tx tx_id bl_height blob_size s =
     (let (r, ks) = add_images (vin tx) (m_spent_keys s);
          s = s\<lparr>m_spent_keys := ks\<rparr>
      in if \<not> r then (False, snd (purge_transaction_keyimages_from_blockchain tx False s))
         else if m_transactions s tx_id \<noteq> None then (False, s)
         else
           let (outs, gidx) = push_transaction_to_global_outs_index tx tx_id (m_outputs s);
               ch_e = \<lparr>ce_tx = tx, m_keeper_block_height = bl_height, m_blob_size = blob_size, m_global_output_indexes = gidx\<rparr>
           in (True, s\<lparr>m_transactions := (m_transactions s)(tx_id \<mapsto> ch_e), m_outputs := outs\<rparr>))"

definition pool_add_tx :: "'p chain_env \<Rightarrow> transaction \<Rightarrow> blockchain_storage \<Rightarrow> bool \<times> blockchain_storage" where
  "pool_add_tx env tx s =
     (let (r, tvc, p) = add_tx (chain_view_of env s) (env_now env) tx tvc_init True (m_tx_pool s)
      in (r, s\<lparr>m_tx_pool := p\<rparr>))"

definition purge_transaction_from_blockchain :: "'p chain_env \<Rightarrow> hash \<Rightarrow> blockchain_storage \<Rightarrow> bool \<times> blockchain_storage" where
  "purge_transaction_from_blockchain env tx_id s =
     (case m_transactions s tx_id of
        None \<Rightarrow> (False, s)
      | Some e \<Rightarrow>
          let tx = ce_tx e;
              (_, s) = purge_transaction_keyimages_from_blockchain tx True s;
              (r, s) = (if \<not> is_coinbase tx then pool_add_tx env tx s else (True, s))
          in if \<not> r then (False, s)
             else
               let (res, outs) = pop_transaction_from_global_index tx tx_id (m_outputs s)
               in (res, s\<lparr>m_outputs := outs, m_transactions := (m_transactions s)(tx_id := None)\<rparr>))"

text \<open>\<open>res = f() && res\<close> over the processed transactions, the last one first.\<close>

fun purge_loop :: "'p chain_env \<Rightarrow> hash list \<Rightarrow> bool \<Rightarrow> blockchain_storage \<Rightarrow> bool \<times> blockchain_storage" where
  "purge_loop env [] res s = (res, s)"
| "purge_loop env (tx_id # ids) res s =
     (let (r, s) = purge_transaction_from_blockchain env tx_id s in purge_loop env ids (r \<and> res) s)"

definition purge_block_data_from_blockchain :: "'p chain_env \<Rightarrow> block \<Rightarrow> nat \<Rightarrow> blockchain_storage \<Rightarrow> bool \<times> blockchain_storage" where
  "purge_block_data_from_blockchain env bl processed_tx_count s =
     (if \<not> processed_tx_count \<le> length (tx_hashes bl) then (False, s)
      else
        let (res, s) = purge_loop env (rev (take processed_tx_count (tx_hashes bl))) True s;
            (r, s) = purge_transaction_from_blockchain env (get_transaction_hash (miner_tx bl)) s
        in (r \<and> res, s))"

subsection \<open>What the indexes hold\<close>

definition idx :: "(u64 \<rightharpoonup> (hash \<times> nat) list) \<Rightarrow> u64 \<Rightarrow> (hash \<times> nat) list" where
  "idx m a = (case m a of None \<Rightarrow> [] | Some v \<Rightarrow> v)"

lemma idx_upd [simp]: "idx (m(a \<mapsto> v)) = (idx m)(a := v)"
  by (auto simp: idx_def fun_eq_iff)

text \<open>The outputs of one amount, in the order of a list of outputs and of a list of transactions.\<close>

fun refs :: "u64 \<Rightarrow> hash \<Rightarrow> nat \<Rightarrow> tx_out list \<Rightarrow> (hash \<times> nat) list" where
  "refs a h i [] = []"
| "refs a h i (ot # outs) = (if amount ot = a then [(h, i)] else []) @ refs a h (i + 1) outs"

definition out_refs :: "u64 \<Rightarrow> (hash \<times> transaction) list \<Rightarrow> (hash \<times> nat) list" where
  "out_refs a l = concat (map (\<lambda>(h, tx). refs a h 0 (vout tx)) l)"

lemma refs_snoc: "refs a h i (outs @ [ot]) = refs a h i outs @ (if amount ot = a then [(h, i + length outs)] else [])"
  by (induction outs arbitrary: i) auto

lemma set_refs: "set (refs a h i outs) = {(h, i + j) | j. j < length outs \<and> amount (outs ! j) = a}"
proof (induction outs arbitrary: i)
  case (Cons ot outs)
  have "{(h, i + j) | j. j < length (ot # outs) \<and> amount ((ot # outs) ! j) = a}
      = (if amount ot = a then {(h, i)} else {}) \<union> {(h, i + 1 + j) | j. j < length outs \<and> amount (outs ! j) = a}"
    by (auto simp: less_Suc_eq_0_disj)
  then show ?case using Cons [of "i + 1"] by simp
qed simp

lemma out_refs_simps [simp]: "out_refs a [] = []" "out_refs a (l @ [(h, tx)]) = out_refs a l @ refs a h 0 (vout tx)"
  by (simp_all add: out_refs_def)

lemma push_outs_idx: "idx (fst (push_outs h i outs m g)) a = idx m a @ refs a h i outs"
proof (induction outs arbitrary: i m g)
  case (Cons ot outs)
  then show ?case by (simp add: Let_def) (simp add: idx_def)
qed simp

text \<open>The global indexes of the outputs of a transaction are their positions among the outputs of their amounts.\<close>

definition gidx_ok :: "(u64 \<Rightarrow> (hash \<times> nat) list) \<Rightarrow> hash \<Rightarrow> nat \<Rightarrow> tx_out list \<Rightarrow> u64 list \<Rightarrow> bool" where
  "gidx_ok f h i outs g \<longleftrightarrow> length g = length outs
     \<and> (\<forall>j < length outs. \<exists>p < length (f (amount (outs ! j))). g ! j = of_nat p \<and> f (amount (outs ! j)) ! p = (h, i + j))"

lemma gidx_ok_append: "gidx_ok f h i outs g \<Longrightarrow> (\<And>a. \<exists>ys. f' a = f a @ ys) \<Longrightarrow> gidx_ok f' h i outs g"
  unfolding gidx_ok_def by (metis length_append nth_append trans_less_add1)

lemma push_outs_gidx:
  "\<exists>gs. snd (push_outs h i outs m g) = g @ gs \<and> gidx_ok (idx (fst (push_outs h i outs m g))) h i outs gs"
proof (induction outs arbitrary: i m g)
  case (Cons ot outs)
  define m' g' where "m' = m(amount ot \<mapsto> idx m (amount ot) @ [(h, i)])" and "g' = g @ [of_nat (length (idx m (amount ot)))]"
  have push: "push_outs h i (ot # outs) m g = push_outs h (i + 1) outs m' g'" by (simp add: Let_def m'_def g'_def idx_def)
  obtain gs where gs: "snd (push_outs h (i + 1) outs m' g') = g' @ gs"
      "gidx_ok (idx (fst (push_outs h (i + 1) outs m' g'))) h (i + 1) outs gs"
    using Cons by blast
  define f where "f = idx (fst (push_outs h (i + 1) outs m' g'))"
  note gs = gs [folded f_def]
  have f: "f (amount ot) = (idx m (amount ot) @ [(h, i)]) @ refs (amount ot) h (i + 1) outs"
    by (simp add: f_def push_outs_idx m'_def)
  have "gidx_ok f h i (ot # outs) (of_nat (length (idx m (amount ot))) # gs)"
    unfolding gidx_ok_def
  proof (intro conjI allI impI)
    show "length (of_nat (length (idx m (amount ot))) # gs) = length (ot # outs)" using gs(2) by (simp add: gidx_ok_def)
    fix j
    assume j: "j < length (ot # outs)"
    show "\<exists>p < length (f (amount ((ot # outs) ! j))). (of_nat (length (idx m (amount ot))) # gs) ! j = of_nat p
        \<and> f (amount ((ot # outs) ! j)) ! p = (h, i + j)"
    proof (cases j)
      case 0
      then show ?thesis by (intro exI [of _ "length (idx m (amount ot))"]) (simp add: f nth_append)
    next
      case (Suc k)
      then show ?thesis using gs(2) j by (simp add: gidx_ok_def)
    qed
  qed
  then show ?case unfolding push f_def [symmetric] using gs(1) by (simp add: g'_def)
qed (simp add: gidx_ok_def)

lemma enumerate_snoc: "enumerate i (xs @ [x]) = enumerate i xs @ [(i + length xs, x)]"
  by (simp add: enumerate_append_eq)

lemma pop_outs_idx:
  "(\<And>a. idx m a = f a @ refs a h i outs) \<Longrightarrow> \<exists>m'. pop_outs h (rev (enumerate i outs)) m = (True, m') \<and> idx m' = f"
proof (induction outs arbitrary: m rule: rev_induct)
  case Nil
  then show ?case by (auto simp: fun_eq_iff)
next
  case (snoc ot outs)
  have v: "idx m (amount ot) = (f (amount ot) @ refs (amount ot) h i outs) @ [(h, i + length outs)]"
    using snoc.prems [of "amount ot"] by (simp add: refs_snoc)
  then have m: "m (amount ot) = Some (idx m (amount ot))" by (auto simp: idx_def split: option.splits)
  define m' where "m' = m(amount ot \<mapsto> butlast (idx m (amount ot)))"
  have "idx m' a = f a @ refs a h i outs" for a
    using snoc.prems [of a] v by (simp add: m'_def refs_snoc butlast_append)
  moreover have "pop_outs h (rev (enumerate i (outs @ [ot]))) m = pop_outs h (rev (enumerate i outs)) m'"
    using m v unfolding m'_def by (simp add: enumerate_snoc)
  ultimately show ?case using snoc.IH [of m'] by simp
qed

lemma no_script_cases: "is_coinbase tx \<or> pool_admissible tx \<Longrightarrow> list_all (\<lambda>i. is_txin_to_key i \<or> (\<exists>h. i = txin_gen h)) (vin tx)"
  by (auto simp: is_coinbase_def pool_admissible_def length_Suc_conv list_all_iff split: txin.splits)

lemma add_images_True: "fst (add_images ins ks) \<Longrightarrow>
    snd (add_images ins ks) = ks \<union> set (ins_images ins) \<and> distinct (ins_images ins) \<and> set (ins_images ins) \<inter> ks = {}"
  by (induction ins ks rule: add_images.induct) (auto split: if_splits)

lemma add_images_ok:
  "list_all (\<lambda>i. is_txin_to_key i \<or> (\<exists>h. i = txin_gen h)) ins \<Longrightarrow> distinct (ins_images ins) \<Longrightarrow> set (ins_images ins) \<inter> ks = {} \<Longrightarrow>
   add_images ins ks = (True, ks \<union> set (ins_images ins))"
  by (induction ins ks rule: add_images.induct) auto

lemma purge_images_ok:
  "list_all (\<lambda>i. is_txin_to_key i \<or> (\<exists>h. i = txin_gen h)) ins \<Longrightarrow> distinct (ins_images ins) \<Longrightarrow> set (ins_images ins) \<subseteq> ks \<Longrightarrow>
   purge_images strict_check ins ks = (True, ks - set (ins_images ins))"
proof (induction strict_check ins ks rule: purge_images.induct)
  case (2 strict_check amt offs k ins ks)
  then have "set (ins_images ins) \<subseteq> ks - {k}" by auto
  with 2 have "purge_images strict_check ins (ks - {k}) = (True, ks - {k} - set (ins_images ins))" by simp
  moreover have "ks - {k} - set (ins_images ins) = ks - set (ins_images (txin_to_key amt offs k # ins))" by auto
  ultimately show ?case using 2(5) by simp
qed auto

subsection \<open>The ledger\<close>

text \<open>
  \<open>ledger_ok s l\<close>: the transactions of the chain are the list \<open>l\<close>, in this order. Each is stored once
  under its hash; their key images are distinct, which means that no output is spent twice, and are the
  spent keys; and the index of outputs lists their outputs in order.
\<close>

abbreviation ledger_images :: "(hash \<times> transaction) list \<Rightarrow> key_image list" where
  "ledger_images l \<equiv> concat (map (\<lambda>e. tx_images (snd e)) l)"

definition ledger_tx_ok :: "hash \<times> transaction \<Rightarrow> bool" where
  "ledger_tx_ok e \<longleftrightarrow> get_transaction_hash (snd e) = fst e \<and> (is_coinbase (snd e) \<or> pool_admissible (snd e))"

definition ledger_ok :: "blockchain_storage \<Rightarrow> (hash \<times> transaction) list \<Rightarrow> bool" where
  "ledger_ok s l \<longleftrightarrow>
     distinct (map fst l) \<and> (\<forall>h. get_tx s h = map_of l h) \<and> (\<forall>e \<in> set l. ledger_tx_ok e)
     \<and> distinct (ledger_images l) \<and> m_spent_keys s = set (ledger_images l)
     \<and> (\<forall>a. idx (m_outputs s) a = out_refs a l)
     \<and> (\<forall>h e. m_transactions s h = Some e \<longrightarrow> gidx_ok (\<lambda>a. out_refs a l) h 0 (vout (ce_tx e)) (m_global_output_indexes e))"

text \<open>The parts of the state that the transaction operations leave alone.\<close>

definition block_part :: "blockchain_storage \<Rightarrow> _" where
  "block_part s = (m_blocks s, m_blocks_index s, m_current_block_cumul_sz_limit s, m_alternative_chains s, m_checkpoints s,
     m_is_in_checkpoint_zone s, m_enforce_dns_checkpoints s, m_testnet s)"

lemma coinbase_no_images: "is_coinbase tx \<Longrightarrow> tx_images tx = []"
  by (auto simp: is_coinbase_def length_Suc_conv split: txin.splits)

lemma admissible_not_coinbase: "pool_admissible tx \<Longrightarrow> \<not> is_coinbase tx"
  by (auto simp: is_coinbase_def pool_admissible_def length_Suc_conv split: txin.splits)

lemma add_transaction_True:
  assumes "ledger_ok s l" "get_transaction_hash tx = h" "is_coinbase tx \<or> pool_admissible tx"
    and "add_transaction_from_block tx h ht b s = (True, s')"
  shows "ledger_ok s' (l @ [(h, tx)])" "block_part s' = block_part s" "m_invalid_blocks s' = m_invalid_blocks s" "m_tx_pool s' = m_tx_pool s"
proof -
  obtain ks where ks: "add_images (vin tx) (m_spent_keys s) = (True, ks)"
    using assms(4) by (auto simp: add_transaction_from_block_def Let_def split: prod.splits if_splits)
  obtain outs g where push: "push_transaction_to_global_outs_index tx h (m_outputs s) = (outs, g)" by fastforce
  have new: "m_transactions s h = None" and s': "s' = s\<lparr>m_spent_keys := ks, m_transactions := (m_transactions s)(h \<mapsto>
      \<lparr>ce_tx = tx, m_keeper_block_height = ht, m_blob_size = b, m_global_output_indexes = g\<rparr>), m_outputs := outs\<rparr>"
    using assms(4) ks push by (auto simp: add_transaction_from_block_def Let_def split: if_splits)
  show "block_part s' = block_part s" "m_invalid_blocks s' = m_invalid_blocks s" "m_tx_pool s' = m_tx_pool s"
    by (simp_all add: s' block_part_def)
  note img = add_images_True [of "vin tx" "m_spent_keys s", unfolded ks, simplified]
  have outs: "idx outs a = out_refs a (l @ [(h, tx)])" for a
    using push_outs_idx [of h 0 "vout tx" "m_outputs s" "[]" a] push assms(1)
    by (simp add: push_transaction_to_global_outs_index_def ledger_ok_def)
  have look_s: "get_tx s k = map_of l k" for k using assms(1) by (simp add: ledger_ok_def)
  have "map_of l h = None" using new look_s [of h] by (simp add: get_tx_def)
  then have h: "h \<notin> fst ` set l" by (simp add: map_of_eq_None_iff)
  have look: "get_tx s' k = map_of (l @ [(h, tx)]) k" for k
    using look_s [of k] new by (cases "k = h") (auto simp: s' get_tx_def map_add_def split: option.splits)
  have g: "gidx_ok (\<lambda>a. out_refs a (l @ [(h, tx)])) h 0 (vout tx) g"
    using push_outs_gidx [of h 0 "vout tx" "m_outputs s" "[]"] push outs
    by (simp add: push_transaction_to_global_outs_index_def gidx_ok_def)
  have old: "gidx_ok (\<lambda>a. out_refs a (l @ [(h, tx)])) k 0 (vout (ce_tx e)) (m_global_output_indexes e)"
    if "m_transactions s k = Some e" for k e
  proof (rule gidx_ok_append)
    show "gidx_ok (\<lambda>a. out_refs a l) k 0 (vout (ce_tx e)) (m_global_output_indexes e)"
      using assms(1) that unfolding ledger_ok_def by blast
    show "\<exists>ys. out_refs a (l @ [(h, tx)]) = out_refs a l @ ys" for a by simp
  qed
  show "ledger_ok s' (l @ [(h, tx)])"
    unfolding ledger_ok_def
  proof (intro conjI allI impI look)
    show "distinct (map fst (l @ [(h, tx)]))" using assms(1) h by (simp add: ledger_ok_def)
    have "\<forall>e \<in> set l. ledger_tx_ok e" using assms(1) by (simp add: ledger_ok_def)
    then show "\<forall>e \<in> set (l @ [(h, tx)]). ledger_tx_ok e" using assms(2, 3) by (simp add: ledger_tx_ok_def)
    have l: "distinct (ledger_images l)" "m_spent_keys s = set (ledger_images l)" using assms(1) by (simp_all add: ledger_ok_def)
    show "distinct (ledger_images (l @ [(h, tx)]))" "m_spent_keys s' = set (ledger_images (l @ [(h, tx)]))"
      using l img by (auto simp: s')
    show "idx (m_outputs s') a = out_refs a (l @ [(h, tx)])" for a using outs by (simp add: s')
    show "gidx_ok (\<lambda>a. out_refs a (l @ [(h, tx)])) k 0 (vout (ce_tx e)) (m_global_output_indexes e)"
      if "m_transactions s' k = Some e" for k e
      using that g old by (auto simp: s' split: if_splits)
  qed
qed

abbreviation pool_of :: "blockchain_storage \<Rightarrow> hash \<Rightarrow> transaction option" where
  "pool_of s \<equiv> pool_get_transaction (m_tx_pool s)"

lemma map_of_snoc: "k \<notin> fst ` set xs \<Longrightarrow> map_of (xs @ [(k, v)]) = (map_of xs)(k \<mapsto> v)"
  by (induction xs) (auto simp: fun_eq_iff)

lemma add_transaction_succeeds:
  assumes "is_coinbase tx \<or> pool_admissible tx" "distinct (tx_images tx)" "set (tx_images tx) \<inter> m_spent_keys s = {}"
    and "m_transactions s h = None"
  shows "fst (add_transaction_from_block tx h ht b s)"
  using add_images_ok [OF no_script_cases [OF assms(1)] assms(2, 3)] assms(4)
  by (simp add: add_transaction_from_block_def Let_def split: prod.splits)

lemma add_coinbase_False:
  assumes "is_coinbase tx" "add_transaction_from_block tx h ht b s = (False, s')"
  shows "s' = s" "m_transactions s h \<noteq> None"
proof -
  have "add_images (vin tx) (m_spent_keys s) = (True, m_spent_keys s)"
    using add_images_ok [OF no_script_cases, of tx "m_spent_keys s"] assms(1) by (simp add: coinbase_no_images)
  then show "s' = s" "m_transactions s h \<noteq> None"
    using assms(2) by (auto simp: add_transaction_from_block_def Let_def split: prod.splits if_splits)
qed

lemma pool_add_ok:
  assumes "pool_clean (m_tx_pool s)" "pool_admissible tx" "distinct (tx_images tx)" "pool_of s (get_transaction_hash tx) = None"
  shows "\<exists>p'. pool_add_tx env tx s = (True, s\<lparr>m_tx_pool := p'\<rparr>) \<and> pool_clean p'
    \<and> pool_get_transaction p' = (pool_of s)(get_transaction_hash tx \<mapsto> tx)"
proof -
  let ?p = "m_tx_pool s" and ?h = "get_transaction_hash tx" and ?cv = "chain_view_of env s"
  obtain r tvc p' where add: "add_tx ?cv (env_now env) tx tvc_init True ?p = (r, tvc, p')"
    by (cases "add_tx ?cv (env_now env) tx tvc_init True ?p")
  have p: "pool_ok ?p" "no_stale ?p" using assms(1) by (auto simp: pool_clean_def)
  have new: "?h \<notin> fst ` set (pool_transactions ?p)" using assms(4) by (auto simp: pool_get_transaction_def map_of_eq_None_iff)
  then have fresh: "?h \<notin> ids_of (m_spent_key_images ?p) k" for k using p(2) by (force simp: no_stale_def)
  note keeps = add_tx_keeps [OF p(1) refl assms(3) fresh add [unfolded add_tx_def]]
  have r: r using keeps(2) new assms(2) by (simp add: admitted_def)
  then obtain d where "td_tx d = tx" "pool_transactions p' = pool_transactions ?p @ [(?h, d)]" using keeps(5) by blast
  then have "pool_get_transaction p' = (pool_of s)(?h \<mapsto> tx)"
    by (simp add: pool_get_transaction_def fun_eq_iff map_of_snoc [OF new] del: map_of_append)
  moreover have "pool_clean p'" using add_tx_clean [OF assms(1, 3) add [unfolded add_tx_def]] .
  ultimately show ?thesis using add r by (intro exI [of _ p']) (simp add: pool_add_tx_def)
qed

lemma ledger_okD:
  assumes "ledger_ok s l"
  shows "distinct (map fst l)" "get_tx s h = map_of l h" "e \<in> set l \<Longrightarrow> ledger_tx_ok e"
    "distinct (ledger_images l)" "m_spent_keys s = set (ledger_images l)" "idx (m_outputs s) a = out_refs a l"
    "m_transactions s h = Some ce \<Longrightarrow> gidx_ok (\<lambda>a. out_refs a l) h 0 (vout (ce_tx ce)) (m_global_output_indexes ce)"
  using assms by (auto simp: ledger_ok_def)

lemma gidx_ok_remove:
  assumes "gidx_ok (\<lambda>a. out_refs a (l @ [(h, tx)])) k i outs g" "k \<noteq> h"
  shows "gidx_ok (\<lambda>a. out_refs a l) k i outs g"
  unfolding gidx_ok_def
proof (intro conjI allI impI)
  show "length g = length outs" using assms(1) by (simp add: gidx_ok_def)
  fix j
  assume j: "j < length outs"
  let ?a = "amount (outs ! j)"
  obtain p where p: "p < length (out_refs ?a (l @ [(h, tx)]))" "g ! j = of_nat p" "out_refs ?a (l @ [(h, tx)]) ! p = (k, i + j)"
    using assms(1) j unfolding gidx_ok_def by blast
  have "p < length (out_refs ?a l)"
  proof (rule ccontr)
    assume "\<not> p < length (out_refs ?a l)"
    then have "(k, i + j) \<in> set (refs ?a h 0 (vout tx))"
      using p(1, 3) nth_mem [of "p - length (out_refs ?a l)" "refs ?a h 0 (vout tx)"] by (simp add: nth_append)
    then show False using assms(2) by (auto simp: set_refs)
  qed
  then show "\<exists>p < length (out_refs ?a l). g ! j = of_nat p \<and> out_refs ?a l ! p = (k, i + j)"
    using p(2, 3) by (auto simp: nth_append)
qed

lemma purge_transaction_ok:
  assumes led: "ledger_ok s (l @ [(h, tx)])" and pool: "pool_clean (m_tx_pool s)" "\<not> is_coinbase tx \<Longrightarrow> pool_of s h = None"
  shows "\<exists>s'. purge_transaction_from_blockchain env h s = (True, s') \<and> ledger_ok s' l
    \<and> block_part s' = block_part s \<and> m_invalid_blocks s' = m_invalid_blocks s \<and> pool_clean (m_tx_pool s')
    \<and> pool_of s' = (if is_coinbase tx then pool_of s else (pool_of s)(h \<mapsto> tx))"
proof -
  note L = ledger_okD [OF led]
  have h: "h \<notin> fst ` set l" using L(1) by simp
  then have "map_of (l @ [(h, tx)]) h = Some tx" by (simp add: map_of_snoc del: map_of_append)
  then obtain e where e: "m_transactions s h = Some e" "ce_tx e = tx" using L(2) [of h] by (auto simp: get_tx_def)
  have tx: "get_transaction_hash tx = h" "is_coinbase tx \<or> pool_admissible tx" using L(3) [of "(h, tx)"] by (auto simp: ledger_tx_ok_def)
  have img: "distinct (tx_images tx)" "set (tx_images tx) \<subseteq> m_spent_keys s" using L(4, 5) by auto
  define s1 where "s1 = s\<lparr>m_spent_keys := m_spent_keys s - set (tx_images tx)\<rparr>"
  have s1: "purge_transaction_keyimages_from_blockchain tx True s = (True, s1)"
    using purge_images_ok [OF no_script_cases [OF tx(2)] img, of True]
    by (simp add: purge_transaction_keyimages_from_blockchain_def s1_def)
  obtain p' where p': "(if \<not> is_coinbase tx then pool_add_tx env tx s1 else (True, s1)) = (True, s1\<lparr>m_tx_pool := p'\<rparr>)"
      "pool_clean p'" "pool_get_transaction p' = (if is_coinbase tx then pool_of s else (pool_of s)(h \<mapsto> tx))"
  proof (cases "is_coinbase tx")
    case True
    show thesis by (rule that [of "m_tx_pool s"]) (use True pool(1) in \<open>simp_all add: s1_def\<close>)
  next
    case False
    have "\<exists>p'. pool_add_tx env tx s1 = (True, s1\<lparr>m_tx_pool := p'\<rparr>) \<and> pool_clean p'
        \<and> pool_get_transaction p' = (pool_of s1)(get_transaction_hash tx \<mapsto> tx)"
      using pool False tx img(1) by (intro pool_add_ok) (simp_all add: s1_def)
    then show thesis using that False tx(1) by (auto simp: s1_def)
  qed
  obtain outs where outs: "pop_transaction_from_global_index tx h (m_outputs s) = (True, outs)" "idx outs = (\<lambda>a. out_refs a l)"
    using pop_outs_idx [of "m_outputs s" "\<lambda>a. out_refs a l" h 0 "vout tx"] L(6)
    by (auto simp: pop_transaction_from_global_index_def)
  define s' where "s' = s1\<lparr>m_tx_pool := p', m_outputs := outs, m_transactions := (m_transactions s)(h := None)\<rparr>"
  have "purge_transaction_from_blockchain env h s = (True, s')"
  proof -
    have "m_outputs (s1\<lparr>m_tx_pool := p'\<rparr>) = m_outputs s" by (simp add: s1_def)
    then show ?thesis
      unfolding purge_transaction_from_blockchain_def Let_def
      by (simp only: e option.case s1 p'(1) outs(1) prod.case not_True_eq_False if_False) (simp add: s'_def s1_def)
  qed
  moreover have "ledger_ok s' l"
    unfolding ledger_ok_def
  proof (intro conjI allI impI ballI)
    show "distinct (map fst l)" "distinct (ledger_images l)" using L(1, 4) by simp_all
    show "get_tx s' k = map_of l k" for k
    proof (cases "k = h")
      case True
      then show ?thesis using map_of_eq_None_iff [THEN iffD2, OF h] by (simp add: get_tx_def s'_def)
    next
      case False
      then show ?thesis using L(2) [of k] h by (simp add: get_tx_def s'_def s1_def map_of_snoc del: map_of_append)
    qed
    show "ledger_tx_ok e" if "e \<in> set l" for e using L(3) that by simp
    show "m_spent_keys s' = set (ledger_images l)" using L(4, 5) by (auto simp: s'_def s1_def)
    show "idx (m_outputs s') a = out_refs a l" for a using outs(2) by (simp add: s'_def)
    show "gidx_ok (\<lambda>a. out_refs a l) k 0 (vout (ce_tx ce)) (m_global_output_indexes ce)"
      if "m_transactions s' k = Some ce" for k ce
      using that gidx_ok_remove [OF L(7)] by (auto simp: s'_def s1_def split: if_splits)
  qed
  ultimately show ?thesis
    using p'(2, 3) by (intro exI [of _ s']) (simp add: s'_def s1_def block_part_def)
qed

lemma purge_loop_ok:
  assumes "ledger_ok s (l @ l')" "pool_clean (m_tx_pool s)" "\<And>h tx. (h, tx) \<in> set l' \<Longrightarrow> \<not> is_coinbase tx \<Longrightarrow> pool_of s h = None"
  shows "\<exists>s'. purge_loop env (rev (map fst l')) res s = (res, s') \<and> ledger_ok s' l
    \<and> block_part s' = block_part s \<and> m_invalid_blocks s' = m_invalid_blocks s \<and> pool_clean (m_tx_pool s')
    \<and> pool_of s' = pool_of s ++ map_of (filter (\<lambda>e. \<not> is_coinbase (snd e)) l')"
  using assms
proof (induction l' arbitrary: s rule: rev_induct)
  case Nil
  then show ?case by simp
next
  case (snoc e l')
  obtain h tx where e: "e = (h, tx)" by (cases e)
  have led: "ledger_ok s ((l @ l') @ [(h, tx)])" using snoc.prems(1) by (simp add: e)
  have "pool_of s h = None" if "\<not> is_coinbase tx" using snoc.prems(3) [of h tx] that by (simp add: e)
  from purge_transaction_ok [OF led snoc.prems(2) this, of env]
  obtain s1 where s1: "purge_transaction_from_blockchain env h s = (True, s1)" "ledger_ok s1 (l @ l')"
      "block_part s1 = block_part s" "m_invalid_blocks s1 = m_invalid_blocks s" "pool_clean (m_tx_pool s1)"
      "pool_of s1 = (if is_coinbase tx then pool_of s else (pool_of s)(h \<mapsto> tx))"
    by blast
  have h: "h \<notin> fst ` set l'" using ledger_okD(1) [OF led] by auto
  have free: "pool_of s1 k = None" if "(k, t) \<in> set l'" "\<not> is_coinbase t" for k t
  proof -
    have "k \<noteq> h" using h that(1) by force
    then show ?thesis using snoc.prems(3) [of k t] that s1(6) by simp
  qed
  from snoc.IH [OF s1(2) s1(5)] free obtain s2 where s2: "purge_loop env (rev (map fst l')) res s1 = (res, s2)" "ledger_ok s2 l"
      "block_part s2 = block_part s1" "m_invalid_blocks s2 = m_invalid_blocks s1" "pool_clean (m_tx_pool s2)"
      "pool_of s2 = pool_of s1 ++ map_of (filter (\<lambda>e. \<not> is_coinbase (snd e)) l')" by meson
  have "h \<notin> fst ` set (filter (\<lambda>e. \<not> is_coinbase (snd e)) l')" using h by auto
  then have "map_of (filter (\<lambda>e. \<not> is_coinbase (snd e)) l' @ [(h, tx)]) = (map_of (filter (\<lambda>e. \<not> is_coinbase (snd e)) l'))(h \<mapsto> tx)"
    and "map_of (filter (\<lambda>e. \<not> is_coinbase (snd e)) l') h = None"
    by (rule map_of_snoc, simp add: map_of_eq_None_iff)
  then have "pool_of s2 = pool_of s ++ map_of (filter (\<lambda>e. \<not> is_coinbase (snd e)) (l' @ [e]))"
    using s2(6) s1(6) by (simp add: e fun_eq_iff map_add_def del: map_of_append split: option.splits)
  then show ?case using s1 s2 by (intro exI [of _ s2]) (simp add: e)
qed

lemma purge_block_data_ok:
  assumes led: "ledger_ok s (l @ (get_transaction_hash (miner_tx b), miner_tx b) # l')" and "pool_clean (m_tx_pool s)"
    and "\<And>h tx. (h, tx) \<in> set l' \<Longrightarrow> \<not> is_coinbase tx \<and> pool_of s h = None"
    and "is_coinbase (miner_tx b)" "map fst l' = take n (tx_hashes b)" "n \<le> length (tx_hashes b)"
  shows "\<exists>s'. purge_block_data_from_blockchain env b n s = (True, s') \<and> ledger_ok s' l
    \<and> block_part s' = block_part s \<and> m_invalid_blocks s' = m_invalid_blocks s \<and> pool_clean (m_tx_pool s')
    \<and> pool_of s' = pool_of s ++ map_of l'"
proof -
  let ?m = "(get_transaction_hash (miner_tx b), miner_tx b)"
  have f: "filter (\<lambda>e. \<not> is_coinbase (snd e)) l' = l'" using assms(3) by (auto simp: filter_id_conv)
  have "ledger_ok s ((l @ [?m]) @ l')" using led by simp
  from purge_loop_ok [OF this assms(2), of env True] assms(3) f
  obtain s1 where s1: "purge_loop env (rev (map fst l')) True s = (True, s1)" "ledger_ok s1 (l @ [?m])"
      "block_part s1 = block_part s" "m_invalid_blocks s1 = m_invalid_blocks s" "pool_clean (m_tx_pool s1)" "pool_of s1 = pool_of s ++ map_of l'"
    by auto
  from purge_transaction_ok [OF s1(2) s1(5), of env] assms(4)
  obtain s2 where "purge_transaction_from_blockchain env (fst ?m) s1 = (True, s2)" "ledger_ok s2 l"
      "block_part s2 = block_part s1" "m_invalid_blocks s2 = m_invalid_blocks s1" "pool_clean (m_tx_pool s2)" "pool_of s2 = pool_of s1"
    by auto
  with s1 assms(5, 6) show ?thesis by (simp add: purge_block_data_from_blockchain_def)
qed

text \<open>The ledger does not depend on the other parts of the state.\<close>

lemma get_tx_frame [simp]:
  "get_tx (s\<lparr>m_tx_pool := x0\<rparr>) = get_tx s"
  "get_tx (s\<lparr>m_invalid_blocks := x1\<rparr>) = get_tx s"
  "get_tx (s\<lparr>m_blocks := x2\<rparr>) = get_tx s"
  "get_tx (s\<lparr>m_blocks_index := x3\<rparr>) = get_tx s"
  "get_tx (s\<lparr>m_alternative_chains := x4\<rparr>) = get_tx s"
  "get_tx (s\<lparr>m_current_block_cumul_sz_limit := x5\<rparr>) = get_tx s"
  "get_tx (s\<lparr>m_is_in_checkpoint_zone := x6\<rparr>) = get_tx s"
  "get_tx (s\<lparr>m_checkpoints := x7\<rparr>) = get_tx s"
  "get_tx (s\<lparr>m_enforce_dns_checkpoints := x8\<rparr>) = get_tx s"
  by (simp_all add: get_tx_def fun_eq_iff)

lemma ledger_ok_frame [simp]:
  "ledger_ok (s\<lparr>m_tx_pool := x0\<rparr>) l = ledger_ok s l"
  "ledger_ok (s\<lparr>m_invalid_blocks := x1\<rparr>) l = ledger_ok s l"
  "ledger_ok (s\<lparr>m_blocks := x2\<rparr>) l = ledger_ok s l"
  "ledger_ok (s\<lparr>m_blocks_index := x3\<rparr>) l = ledger_ok s l"
  "ledger_ok (s\<lparr>m_alternative_chains := x4\<rparr>) l = ledger_ok s l"
  "ledger_ok (s\<lparr>m_current_block_cumul_sz_limit := x5\<rparr>) l = ledger_ok s l"
  "ledger_ok (s\<lparr>m_is_in_checkpoint_zone := x6\<rparr>) l = ledger_ok s l"
  "ledger_ok (s\<lparr>m_checkpoints := x7\<rparr>) l = ledger_ok s l"
  "ledger_ok (s\<lparr>m_enforce_dns_checkpoints := x8\<rparr>) l = ledger_ok s l"
  by (simp_all add: ledger_ok_def)

end
