(* ===== verification/Main_Chain.thy ===== *)
theory Main_Chain
  imports Blockchain
begin

text \<open>
  \<open>src/cryptonote_core/blockchain_storage.cpp\<close>, the main chain: the checks of a block, adding it on top
  of the chain and popping it, and the invariant of the whole state.
\<close>

definition set_failed :: "block_verification_context \<Rightarrow> block_verification_context" where
  "set_failed bvc = bvc\<lparr>bvc_verifivation_failed := True\<rparr>"

definition prevalidate_miner_transaction :: "block \<Rightarrow> u64 \<Rightarrow> bool" where
  "prevalidate_miner_transaction b h \<longleftrightarrow>
     (if length (vin (miner_tx b)) \<noteq> 1 then False
      else case vin (miner_tx b) ! 0 of
        txin_gen gh \<Rightarrow>
          if gh \<noteq> h then False
          else if unlock_time (miner_tx b) \<noteq> h + CRYPTONOTE_MINED_MONEY_UNLOCK_WINDOW then False
          else check_outs_overflow (miner_tx b)
      | _ \<Rightarrow> False)"

text \<open>The result is the base reward.\<close>

definition validate_miner_transaction :: "blockchain_storage \<Rightarrow> block \<Rightarrow> u64 \<Rightarrow> u64 \<Rightarrow> u64 \<Rightarrow> u64 option" where
  "validate_miner_transaction s b cumulative_block_size fee coins =
     (let money_in_use = foldl (\<lambda>m ot. m + amount ot) 0 (vout (miner_tx b));
          last_blocks_sizes = (case get_last_n_blocks_sizes s CRYPTONOTE_REWARD_BLOCKS_WINDOW of None \<Rightarrow> [] | Some v \<Rightarrow> v)
      in case get_block_reward (median last_blocks_sizes) cumulative_block_size coins of
           None \<Rightarrow> None
         | Some base_reward \<Rightarrow>
             if base_reward + fee < money_in_use then None
             else if base_reward + fee \<noteq> money_in_use then None
             else Some base_reward)"

definition check_block_timestamp :: "u64 list \<Rightarrow> block \<Rightarrow> bool" where
  "check_block_timestamp timestamps b \<longleftrightarrow>
     (if length timestamps < BLOCKCHAIN_TIMESTAMP_CHECK_WINDOW then True else \<not> timestamp b < median timestamps)"

definition check_block_timestamp_main :: "'p chain_env \<Rightarrow> blockchain_storage \<Rightarrow> block \<Rightarrow> bool" where
  "check_block_timestamp_main env s b \<longleftrightarrow>
     (if timestamp b > env_now env + CRYPTONOTE_BLOCK_FUTURE_TIME_LIMIT then False
      else
        let n = length (m_blocks s);
            offset = (if n \<le> BLOCKCHAIN_TIMESTAMP_CHECK_WINDOW then 0 else n - BLOCKCHAIN_TIMESTAMP_CHECK_WINDOW)
        in check_block_timestamp (map (\<lambda>e. timestamp (bei_bl e)) (drop offset (m_blocks s))) b)"

definition add_bei_as_invalid :: "block_extended_info \<Rightarrow> hash \<Rightarrow> blockchain_storage \<Rightarrow> bool \<times> blockchain_storage" where
  "add_bei_as_invalid bei h s =
     (if m_invalid_blocks s h \<noteq> None then (False, s)
      else (True, s\<lparr>m_invalid_blocks := (m_invalid_blocks s)(h \<mapsto> bei)\<rparr>))"

definition add_block_as_invalid :: "block \<Rightarrow> hash \<Rightarrow> blockchain_storage \<Rightarrow> bool \<times> blockchain_storage" where
  "add_block_as_invalid b h s =
     add_bei_as_invalid \<lparr>bei_bl = b, bei_height = 0, block_cumulative_size = 0, cumulative_difficulty = 0,
       already_generated_coins = 0\<rparr> h s"

definition update_next_comulative_size_limit :: "blockchain_storage \<Rightarrow> blockchain_storage" where
  "update_next_comulative_size_limit s =
     (let sz = (case get_last_n_blocks_sizes s CRYPTONOTE_REWARD_BLOCKS_WINDOW of None \<Rightarrow> [] | Some v \<Rightarrow> v);
          med = median sz;
          med = (if med \<le> CRYPTONOTE_BLOCK_GRANTED_FULL_REWARD_ZONE then CRYPTONOTE_BLOCK_GRANTED_FULL_REWARD_ZONE else med)
      in s\<lparr>m_current_block_cumul_sz_limit := med * 2\<rparr>)"

text \<open>
  The loop over the transactions of a block, after \<open>cnt\<close> of them. \<open>Inl\<close> is the state after a failure,
  \<open>Inr\<close> the sum of the fees, the size and the state.
\<close>

fun process_txs :: "'p chain_env \<Rightarrow> block \<Rightarrow> hash \<Rightarrow> hash list \<Rightarrow> nat \<Rightarrow> u64 \<Rightarrow> u64 \<Rightarrow> blockchain_storage
    \<Rightarrow> blockchain_storage + u64 \<times> u64 \<times> blockchain_storage" where
  "process_txs env bl h [] cnt fees sz s = Inr (fees, sz, s)"
| "process_txs env bl h (tx_id # ids) cnt fees sz s =
     (case take_tx tx_id (m_tx_pool s) of
        None \<Rightarrow> Inl (snd (purge_block_data_from_blockchain env bl cnt s))
      | Some (tx, blob_size, fee, p) \<Rightarrow>
          let s = s\<lparr>m_tx_pool := p\<rparr>
          in if \<not> fst (check_tx_inputs env s tx) then
               let s = snd (pool_add_tx env tx s);
                   s = snd (purge_block_data_from_blockchain env bl cnt s)
               in Inl (snd (add_block_as_invalid bl h s))
             else
               let (r, s) = add_transaction_from_block tx tx_id (get_current_blockchain_height s) blob_size s
               in if \<not> r then
                    let s = snd (pool_add_tx env tx s)
                    in Inl (snd (purge_block_data_from_blockchain env bl cnt s))
                  else process_txs env bl h ids (cnt + 1) (fees + fee) (sz + blob_size) s)"

text \<open>The end of \<open>handle_block_to_main_chain\<close>: the reward is checked and the block becomes the top of the chain.\<close>

definition connect_block :: "'p chain_env \<Rightarrow> block \<Rightarrow> hash \<Rightarrow> u64 \<Rightarrow> u64 \<Rightarrow> u64 \<Rightarrow> block_verification_context \<Rightarrow> blockchain_storage
    \<Rightarrow> bool \<times> block_verification_context \<times> blockchain_storage" where
  "connect_block env bl h current_diffic fee_summary cumulative_block_size bvc s =
     (let coins = (if m_blocks s \<noteq> [] then already_generated_coins (last (m_blocks s)) else 0)
      in case validate_miner_transaction s bl cumulative_block_size fee_summary coins of
        None \<Rightarrow> (False, set_failed bvc, snd (purge_block_data_from_blockchain env bl (length (tx_hashes bl)) s))
      | Some base_reward \<Rightarrow>
          let bei = \<lparr>bei_bl = bl, bei_height = of_nat (length (m_blocks s)), block_cumulative_size = cumulative_block_size,
                cumulative_difficulty = (if m_blocks s \<noteq> []
                  then current_diffic + cumulative_difficulty (last (m_blocks s)) else current_diffic),
                already_generated_coins = (if base_reward < MONEY_SUPPLY - coins then coins + base_reward else MONEY_SUPPLY)\<rparr>
          in if m_blocks_index s h \<noteq> None
             then (False, set_failed bvc, snd (purge_block_data_from_blockchain env bl (length (tx_hashes bl)) s))
             else
               let s = s\<lparr>m_blocks_index := (m_blocks_index s)(h \<mapsto> length (m_blocks s)), m_blocks := m_blocks s @ [bei]\<rparr>
               in (True, bvc\<lparr>m_added_to_main_chain := True\<rparr>, update_next_comulative_size_limit s))"

definition handle_block_to_main_chain_id :: "'p chain_env \<Rightarrow> block \<Rightarrow> hash \<Rightarrow> block_verification_context \<Rightarrow> blockchain_storage
    \<Rightarrow> bool \<times> block_verification_context \<times> blockchain_storage" where
  "handle_block_to_main_chain_id env bl h bvc s =
     (if prev_id bl \<noteq> get_tail_id s then (False, bvc, s)
      else if \<not> check_block_timestamp_main env s bl then (False, set_failed bvc, s)
      else
        let current_diffic = get_difficulty_for_next_block s
        in if current_diffic = 0 then (False, bvc, s)
        else if \<not> check_hash (get_block_longhash (env_slow_hash env) bl (get_current_blockchain_height s)) current_diffic
          then (False, set_failed bvc, s)
        else if is_in_checkpoint_zone (m_checkpoints s) (get_current_blockchain_height s)
            \<and> \<not> check_block (m_checkpoints s) (get_current_blockchain_height s) h then (False, set_failed bvc, s)
        else if \<not> prevalidate_miner_transaction bl (get_current_blockchain_height s) then (False, set_failed bvc, s)
        else
          let coinbase_hash = get_transaction_hash (miner_tx bl);
              coinbase_blob_size = of_nat (get_object_blobsize (miner_tx bl));
              (r, s) = add_transaction_from_block (miner_tx bl) coinbase_hash (get_current_blockchain_height s) coinbase_blob_size s
          in if \<not> r then (False, set_failed bvc, s)
          else case process_txs env bl h (tx_hashes bl) 0 0 coinbase_blob_size s of
            Inl s \<Rightarrow> (False, set_failed bvc, s)
          | Inr (fee_summary, cumulative_block_size, s) \<Rightarrow>
              connect_block env bl h current_diffic fee_summary cumulative_block_size bvc s)"

definition handle_block_to_main_chain :: "'p chain_env \<Rightarrow> block \<Rightarrow> block_verification_context \<Rightarrow> blockchain_storage
    \<Rightarrow> bool \<times> block_verification_context \<times> blockchain_storage" where
  "handle_block_to_main_chain env bl bvc s = handle_block_to_main_chain_id env bl (get_block_hash bl) bvc s"

definition pop_block_from_blockchain :: "'p chain_env \<Rightarrow> blockchain_storage \<Rightarrow> bool \<times> blockchain_storage" where
  "pop_block_from_blockchain env s =
     (if \<not> length (m_blocks s) > 1 then (False, s)
      else
        let bl = bei_bl (last (m_blocks s));
            (r, s) = purge_block_data_from_blockchain env bl (length (tx_hashes bl)) s
        in if \<not> r then (False, s)
           else if m_blocks_index s (get_block_hash bl) = None then (False, s)
           else (True, s\<lparr>m_blocks_index := (m_blocks_index s)(get_block_hash bl := None), m_blocks := butlast (m_blocks s)\<rparr>))"

subsection \<open>The invariant of the state\<close>

definition chain_ids :: "blockchain_storage \<Rightarrow> hash list" where
  "chain_ids s = concat (map (\<lambda>e. block_tx_ids (bei_bl e)) (m_blocks s))"

text \<open>The transactions of the chain, in the order of the blocks.\<close>

definition ledger_of :: "blockchain_storage \<Rightarrow> (hash \<times> transaction) list" where
  "ledger_of s = map (\<lambda>h. (h, the (get_tx s h))) (chain_ids s)"

abbreviation bhash :: "block_extended_info \<Rightarrow> hash" where
  "bhash e \<equiv> get_block_hash (bei_bl e)"

text \<open>Blocks are linked by their ids, know their height, and are found under their id and no other.\<close>

definition chain_ok :: "blockchain_storage \<Rightarrow> bool" where
  "chain_ok s \<longleftrightarrow>
     (\<forall>i < length (m_blocks s). bei_height (m_blocks s ! i) = of_nat i
        \<and> prev_id (bei_bl (m_blocks s ! i)) = (if i = 0 then null_hash else bhash (m_blocks s ! (i - 1))))
     \<and> (\<forall>h i. m_blocks_index s h = Some i \<longleftrightarrow> i < length (m_blocks s) \<and> bhash (m_blocks s ! i) = h)
     \<and> \<not> m_is_in_checkpoint_zone s"

text \<open>The transactions of a block: a coinbase transaction and transactions that came from the pool.\<close>

definition block_ok :: "blockchain_storage \<Rightarrow> block \<Rightarrow> bool" where
  "block_ok s b \<longleftrightarrow> is_coinbase (miner_tx b) \<and> get_tx s (get_transaction_hash (miner_tx b)) = Some (miner_tx b)
     \<and> (\<forall>h \<in> set (tx_hashes b). \<exists>tx. get_tx s h = Some tx \<and> pool_admissible tx)"

text \<open>
  The invariant. \<open>U\<close> is the set of transactions that occur in a run; it stands for the assumption that
  the hashes of these do not collide.
\<close>

definition pool_part_ok :: "transaction set \<Rightarrow> blockchain_storage \<Rightarrow> bool" where
  "pool_part_ok U s \<longleftrightarrow> pool_clean (m_tx_pool s) \<and> (\<forall>h. pool_of s h \<noteq> None \<longrightarrow> get_tx s h = None)
     \<and> ran (get_tx s) \<subseteq> U \<and> ran (pool_of s) \<subseteq> U"

definition store_ok :: "transaction set \<Rightarrow> blockchain_storage \<Rightarrow> bool" where
  "store_ok U s \<longleftrightarrow> chain_ok s \<and> ledger_ok s (ledger_of s) \<and> (\<forall>e \<in> set (m_blocks s). block_ok s (bei_bl e)) \<and> pool_part_ok U s"

lemma map_fst_ledger_of [simp]: "map fst (ledger_of s) = chain_ids s"
  by (simp add: ledger_of_def comp_def)

lemma ledger_of_eq:
  assumes "ledger_ok s l" "map fst l = chain_ids s"
  shows "ledger_of s = l"
proof -
  have "(fst e, the (get_tx s (fst e))) = e" if "e \<in> set l" for e
  proof -
    have "map_of l (fst e) = Some (snd e)" using that ledger_okD(1) [OF assms(1)] by (simp add: map_of_eq_Some_iff)
    then show ?thesis using ledger_okD(2) [OF assms(1), of "fst e"] by simp
  qed
  then show ?thesis unfolding ledger_of_def assms(2) [symmetric] by (simp add: map_idI)
qed

lemma ledger_get_tx: "ledger_ok s l \<Longrightarrow> (h, tx) \<in> set l \<longleftrightarrow> get_tx s h = Some tx"
  using ledger_okD(1) [of s l] ledger_okD(2) [of s l h] by (simp add: map_of_eq_Some_iff)

lemma pool_entry:
  assumes "pool_clean (m_tx_pool s)" "take_tx h (m_tx_pool s) = Some (tx, b, f, p')"
  shows "pool_of s h = Some tx" "pool_get_transaction p' = (pool_of s)(h := None)" "pool_clean p'"
    "get_transaction_hash tx = h" "pool_admissible tx" "distinct (tx_images tx)"
    "f = the (get_inputs_money_amount tx) - get_outs_money_amount tx"
proof -
  have ok: "pool_ok (m_tx_pool s)" using assms(1) by (simp add: pool_clean_def)
  show "pool_of s h = Some tx" "pool_get_transaction p' = (pool_of s)(h := None)" using take_tx_look [OF ok assms(2)] .
  show "pool_clean p'" using take_tx_clean [OF assms] .
  obtain d where d: "map_of (pool_transactions (m_tx_pool s)) h = Some d" "tx = td_tx d" "f = td_fee d"
    using take_tx_keeps(1) [OF ok assms(2)] by blast
  have "entry_ok (m_spent_key_images (m_tx_pool s)) (h, d)" using take_tx_keeps(6) [OF ok assms(2)] d(1) by simp
  then show "get_transaction_hash tx = h" "pool_admissible tx" "distinct (tx_images tx)"
    "f = the (get_inputs_money_amount tx) - get_outs_money_amount tx"
    using d(2, 3) by (simp_all add: entry_ok_def)
qed

text \<open>Inputs that pass the check are not spent.\<close>

lemma check_inputs_unspent:
  "fst (check_inputs_loop env s ph sigs i ins h) \<Longrightarrow> set (ins_images ins) \<inter> m_spent_keys s = {}"
  by (induction ins arbitrary: i h rule: ins_images.induct)
    (auto simp: bc_have_tx_keyimg_as_spent_def case_prod_unfold Let_def split: if_splits)

text \<open>The fee of a transaction as the pool computes it.\<close>

definition pool_fee :: "transaction \<Rightarrow> u64" where
  "pool_fee tx = the (get_inputs_money_amount tx) - get_outs_money_amount tx"

text \<open>
  The transactions \<open>l'\<close> of a block on top of the ledger \<open>l\<close> were each checked against the ledger before it.
\<close>

definition checked_on :: "'p chain_env \<Rightarrow> blockchain_storage \<Rightarrow> (hash \<times> transaction) list \<Rightarrow> (hash \<times> transaction) list \<Rightarrow> bool" where
  "checked_on env s l l' \<longleftrightarrow> (\<forall>xs h tx ys. l' = xs @ (h, tx) # ys \<longrightarrow>
     (\<exists>s'. ledger_ok s' (l @ xs) \<and> block_part s' = block_part s \<and> fst (check_tx_inputs env s' tx)))"

lemma checked_on_Nil [simp]: "checked_on env s l []"
  by (simp add: checked_on_def)

lemma checked_on_Cons:
  assumes "ledger_ok s l" "fst (check_tx_inputs env s tx)" "checked_on env s' (l @ [(h, tx)]) l'" "block_part s' = block_part s"
  shows "checked_on env s l ((h, tx) # l')"
  unfolding checked_on_def
proof (intro allI impI)
  fix xs h' tx' ys
  assume *: "(h, tx) # l' = xs @ (h', tx') # ys"
  show "\<exists>s'. ledger_ok s' (l @ xs) \<and> block_part s' = block_part s \<and> fst (check_tx_inputs env s' tx')"
  proof (cases xs)
    case Nil
    then show ?thesis using assms(1, 2) * by auto
  next
    case (Cons x xs')
    then have "x = (h, tx)" "l' = xs' @ (h', tx') # ys" using * by auto
    then show ?thesis using assms(3, 4) Cons unfolding checked_on_def by fastforce
  qed
qed

lemma process_txs_ok:
  fixes bl :: block
  defines "m \<equiv> (get_transaction_hash (miner_tx bl), miner_tx bl)"
  assumes "ledger_ok s (l @ m # l')" "pool_clean (m_tx_pool s)" "\<And>h. pool_of s h \<noteq> None \<Longrightarrow> get_tx s h = None"
    and "is_coinbase (miner_tx bl)" "\<And>e. e \<in> set l' \<Longrightarrow> pool_admissible (snd e)"
    and "map fst l' = take cnt (tx_hashes bl)" "drop cnt (tx_hashes bl) = ids" "cnt \<le> length (tx_hashes bl)"
  shows "case process_txs env bl h ids cnt fees sz s of
      Inl s' \<Rightarrow> ledger_ok s' l \<and> block_part s' = block_part s \<and> pool_clean (m_tx_pool s') \<and> pool_of s' = pool_of s ++ map_of l'
    | Inr (fees', sz', s') \<Rightarrow> \<exists>l2. ledger_ok s' (l @ m # l' @ l2) \<and> map fst (l' @ l2) = tx_hashes bl
        \<and> (\<forall>e \<in> set l2. pool_admissible (snd e)) \<and> block_part s' = block_part s \<and> m_invalid_blocks s' = m_invalid_blocks s
        \<and> pool_clean (m_tx_pool s') \<and> (\<forall>h. pool_of s' h \<noteq> None \<longrightarrow> get_tx s' h = None)
        \<and> pool_of s' ++ map_of (l' @ l2) = pool_of s ++ map_of l'
        \<and> fees' = fees + sum_list (map (\<lambda>e. pool_fee (snd e)) l2) \<and> checked_on env s (l @ m # l') l2"
  using assms(2-)
proof (induction ids arbitrary: s l' cnt fees sz)
  case Nil
  then have "map fst l' = tx_hashes bl" by simp
  then show ?case using Nil by (auto intro!: exI [of _ "[]"])
next
  case (Cons tid ids)
  have cnt: "cnt < length (tx_hashes bl)" using Cons.prems(7) by (metis drop_all leI list.distinct(1))
  have tid: "tx_hashes bl ! cnt = tid" "cnt < length (tx_hashes bl)" "drop (cnt + 1) (tx_hashes bl) = ids"
    using Cons.prems(7) cnt Cons_nth_drop_Suc [OF cnt] by simp_all
  note led = Cons.prems(1)
  have in_led: "pool_of s k = None" if "(k, t) \<in> set (l @ m # l')" for k t
    using Cons.prems(3) [of k] that ledger_get_tx [OF led] by (metis option.distinct(1))
  have restore: "\<exists>s'. purge_block_data_from_blockchain env bl cnt s1 = (True, s') \<and> ledger_ok s' l \<and> block_part s' = block_part s1
      \<and> m_invalid_blocks s' = m_invalid_blocks s1 \<and> pool_clean (m_tx_pool s') \<and> pool_of s' = pool_of s1 ++ map_of l'"
    if "ledger_ok s1 (l @ m # l')" "pool_clean (m_tx_pool s1)" "pool_of s1 = pool_of s" for s1
    using that Cons.prems(4-8) in_led admissible_not_coinbase unfolding m_def
    by (intro purge_block_data_ok) (auto simp: less_imp_le)
  show ?case
  proof (cases "take_tx tid (m_tx_pool s)")
    case None
    then show ?thesis using restore [OF led Cons.prems(2) refl] by auto
  next
    case (Some t)
    then obtain tx b f p where t: "take_tx tid (m_tx_pool s) = Some (tx, b, f, p)" by (cases t) auto
    note pe = pool_entry [OF Cons.prems(2) t]
    define s1 where "s1 = s\<lparr>m_tx_pool := p\<rparr>"
    have led1: "ledger_ok s1 (l @ m # l')" and get1: "get_tx s1 = get_tx s" using led by (simp_all add: s1_def)
    have put_back: "\<exists>s2. pool_add_tx env tx s1 = (True, s2) \<and> ledger_ok s2 (l @ m # l') \<and> pool_clean (m_tx_pool s2)
        \<and> pool_of s2 = pool_of s \<and> block_part s2 = block_part s"
    proof -
      obtain p2 where p2: "pool_add_tx env tx s1 = (True, s1\<lparr>m_tx_pool := p2\<rparr>)" "pool_clean p2"
          "pool_get_transaction p2 = (pool_of s1)(get_transaction_hash tx \<mapsto> tx)"
        using pool_add_ok [of s1 tx env] pe by (auto simp: s1_def)
      moreover have "pool_get_transaction p2 = pool_of s" using p2(3) pe(1, 2, 4) by (auto simp: s1_def fun_eq_iff)
      ultimately show ?thesis using led1 by (auto simp: s1_def block_part_def)
    qed
    show ?thesis
    proof (cases "fst (check_tx_inputs env s1 tx)")
      case False
      obtain s2 where s2: "pool_add_tx env tx s1 = (True, s2)" "ledger_ok s2 (l @ m # l')" "pool_clean (m_tx_pool s2)"
          "pool_of s2 = pool_of s" "block_part s2 = block_part s" using put_back by blast
      obtain s3 where s3: "purge_block_data_from_blockchain env bl cnt s2 = (True, s3)" "ledger_ok s3 l" "block_part s3 = block_part s2"
          "pool_clean (m_tx_pool s3)" "pool_of s3 = pool_of s2 ++ map_of l'" using restore [OF s2(2-4)] by blast
      have "snd (add_block_as_invalid bl h s3) = s3\<lparr>m_invalid_blocks := m_invalid_blocks (snd (add_block_as_invalid bl h s3))\<rparr>"
        by (simp add: add_block_as_invalid_def add_bei_as_invalid_def)
      then obtain iv where "snd (add_block_as_invalid bl h s3) = s3\<lparr>m_invalid_blocks := iv\<rparr>" by blast
      then show ?thesis
        using t False s2 s3 unfolding s1_def
        by (simp add: Let_def) (simp add: block_part_def)
    next
      case True
      have new: "m_transactions s1 tid = None" using Cons.prems(3) [of tid] pe(1) get1 by (simp add: get_tx_def s1_def)
      have "set (tx_images tx) \<inter> m_spent_keys s1 = {}" using check_inputs_unspent True unfolding check_tx_inputs_def by fast
      then have "fst (add_transaction_from_block tx tid (get_current_blockchain_height s1) b s1)"
        using pe new by (intro add_transaction_succeeds) auto
      then obtain s2 where s2: "add_transaction_from_block tx tid (get_current_blockchain_height s1) b s1 = (True, s2)"
        by (cases "add_transaction_from_block tx tid (get_current_blockchain_height s1) b s1") auto
      note A = add_transaction_True [OF led1 pe(4) disjI2 [OF pe(5)] s2]
      have led2: "ledger_ok s2 (l @ m # (l' @ [(tid, tx)]))" using A(1) by simp
      have pool2: "pool_of s2 = (pool_of s)(tid := None)" "pool_clean (m_tx_pool s2)" using A(4) pe(2, 3) by (simp_all add: s1_def)
      have get2: "get_tx s2 k = (if k = tid then Some tx else get_tx s k)" for k
      proof -
        have "tid \<notin> fst ` set (l @ m # l')" using ledger_okD(1) [OF A(1)] by auto
        from map_of_snoc [OF this, of tx] show ?thesis
          using ledger_okD(2) [OF A(1), of k] ledger_okD(2) [OF led, of k] by (simp del: map_of_append append_assoc append_Cons)
      qed
      define res where "res = process_txs env bl h ids (cnt + 1) (fees + f) (sz + b) s2"
      have step: "process_txs env bl h (tid # ids) cnt fees sz s = res"
        using t True s2 unfolding s1_def res_def by (simp add: Let_def)
      have IH: "case res of
          Inl s' \<Rightarrow> ledger_ok s' l \<and> block_part s' = block_part s2 \<and> pool_clean (m_tx_pool s') \<and> pool_of s' = pool_of s2 ++ map_of (l' @ [(tid, tx)])
        | Inr (fees', sz', s') \<Rightarrow> \<exists>l2. ledger_ok s' (l @ m # (l' @ [(tid, tx)]) @ l2) \<and> map fst ((l' @ [(tid, tx)]) @ l2) = tx_hashes bl
            \<and> (\<forall>e \<in> set l2. pool_admissible (snd e)) \<and> block_part s' = block_part s2 \<and> m_invalid_blocks s' = m_invalid_blocks s2
            \<and> pool_clean (m_tx_pool s') \<and> (\<forall>h. pool_of s' h \<noteq> None \<longrightarrow> get_tx s' h = None)
            \<and> pool_of s' ++ map_of ((l' @ [(tid, tx)]) @ l2) = pool_of s2 ++ map_of (l' @ [(tid, tx)])
            \<and> fees' = fees + f + sum_list (map (\<lambda>e. pool_fee (snd e)) l2) \<and> checked_on env s2 (l @ m # (l' @ [(tid, tx)])) l2"
        unfolding res_def
      proof (rule Cons.IH [OF led2 pool2(2)])
        show "get_tx s2 k = None" if "pool_of s2 k \<noteq> None" for k using that Cons.prems(3) [of k] get2 pool2(1) by (auto split: if_splits)
        show "is_coinbase (miner_tx bl)" "drop (cnt + 1) (tx_hashes bl) = ids" "cnt + 1 \<le> length (tx_hashes bl)"
          using Cons.prems(4) tid by auto
        show "pool_admissible (snd e)" if "e \<in> set (l' @ [(tid, tx)])" for e using that Cons.prems(5) [of e] pe(5) by auto
        show "map fst (l' @ [(tid, tx)]) = take (cnt + 1) (tx_hashes bl)" using Cons.prems(6) tid by (simp add: take_Suc_conv_app_nth)
      qed
      have pools: "pool_of s2 ++ map_of (l' @ [(tid, tx)]) = pool_of s ++ map_of l'"
      proof -
        have "tid \<notin> fst ` set l'" using ledger_okD(1) [OF led2] by auto
        then have "map_of (l' @ [(tid, tx)]) = (map_of l')(tid \<mapsto> tx)" "map_of l' tid = None" by (rule map_of_snoc, simp add: map_of_eq_None_iff)
        then show ?thesis using pool2(1) pe(1) by (auto simp: fun_eq_iff map_add_def simp del: map_of_append split: option.splits)
      qed
      have bp: "block_part s2 = block_part s" "m_invalid_blocks s2 = m_invalid_blocks s" using A(2, 3) by (simp_all add: s1_def block_part_def)
      have bp1: "block_part s2 = block_part s1" using A(2) .
      have f: "f = pool_fee tx" using pe(7) by (simp add: pool_fee_def)
      show ?thesis
      proof (cases res)
        case (Inl s')
        then show ?thesis using IH step pools bp by simp
      next
        case (Inr r)
        then obtain fees' sz' s' where r: "res = Inr (fees', sz', s')" by (cases r) auto
        obtain l2 where l2: "ledger_ok s' (l @ m # (l' @ [(tid, tx)]) @ l2)" "map fst ((l' @ [(tid, tx)]) @ l2) = tx_hashes bl"
            "\<forall>e \<in> set l2. pool_admissible (snd e)" "block_part s' = block_part s2" "m_invalid_blocks s' = m_invalid_blocks s2"
            "pool_clean (m_tx_pool s')" "\<forall>h. pool_of s' h \<noteq> None \<longrightarrow> get_tx s' h = None"
            "pool_of s' ++ map_of ((l' @ [(tid, tx)]) @ l2) = pool_of s2 ++ map_of (l' @ [(tid, tx)])"
            "fees' = fees + f + sum_list (map (\<lambda>e. pool_fee (snd e)) l2)" "checked_on env s2 (l @ m # (l' @ [(tid, tx)])) l2"
          using IH unfolding r sum.case prod.case by blast
        have "checked_on env s1 (l @ m # l') ((tid, tx) # l2)"
          using checked_on_Cons [OF led1 True _ bp1] l2(10) by simp
        then have "checked_on env s (l @ m # l') ((tid, tx) # l2)" by (simp add: checked_on_def s1_def block_part_def)
        then show ?thesis
          unfolding step r sum.case prod.case using l2 pools bp pe(5) f
          by (intro exI [of _ "(tid, tx) # l2"]) (simp add: add.assoc)
      qed
    qed
  qed
qed

lemma pool_lookup:
  assumes "pool_clean (m_tx_pool s)" "pool_of s h = Some tx"
  shows "get_transaction_hash tx = h" "pool_admissible tx"
proof -
  obtain t b f p where t: "take_tx h (m_tx_pool s) = Some (t, b, f, p)"
    using take_tx_None [of h "m_tx_pool s"] assms(2) by (cases "take_tx h (m_tx_pool s)") auto
  with pool_entry(1, 4, 5) [OF assms(1) t] assms(2) show "get_transaction_hash tx = h" "pool_admissible tx" by auto
qed

lemma store_okD:
  assumes "store_ok U s"
  shows "chain_ok s" "ledger_ok s (ledger_of s)" "e \<in> set (m_blocks s) \<Longrightarrow> block_ok s (bei_bl e)"
    "pool_clean (m_tx_pool s)" "pool_of s h \<noteq> None \<Longrightarrow> get_tx s h = None" "ran (get_tx s) \<subseteq> U" "ran (pool_of s) \<subseteq> U"
  using assms unfolding store_ok_def pool_part_ok_def by blast+

lemma block_part_eqD:
  assumes "block_part s' = block_part s"
  shows "m_blocks s' = m_blocks s" "m_blocks_index s' = m_blocks_index s" "m_alternative_chains s' = m_alternative_chains s"
    "m_checkpoints s' = m_checkpoints s" "m_is_in_checkpoint_zone s' = m_is_in_checkpoint_zone s" "chain_ok s' = chain_ok s"
    "m_current_block_cumul_sz_limit s' = m_current_block_cumul_sz_limit s" "chain_ids s' = chain_ids s"
    "m_enforce_dns_checkpoints s' = m_enforce_dns_checkpoints s" "m_testnet s' = m_testnet s"
  using assms by (auto simp: block_part_def chain_ok_def chain_ids_def)

lemma map_of_ledger_eq: "ledger_ok s l \<Longrightarrow> ledger_ok s' l \<Longrightarrow> get_tx s' = get_tx s"
  using ledger_okD(2) [of s l] ledger_okD(2) [of s' l] by (simp add: fun_eq_iff)

text \<open>A state with the blocks, the ledger and the pool of a good state is good.\<close>

lemma store_ok_same:
  assumes "store_ok U s" "block_part s' = block_part s" "ledger_ok s' (ledger_of s)" "pool_clean (m_tx_pool s')" "pool_of s' = pool_of s"
  shows "store_ok U s'" "ledger_of s' = ledger_of s"
proof -
  note S = store_okD [OF assms(1)] and B = block_part_eqD [OF assms(2)]
  have get: "get_tx s' = get_tx s" using map_of_ledger_eq [OF S(2) assms(3)] .
  show led: "ledger_of s' = ledger_of s" by (rule ledger_of_eq [OF assms(3)]) (simp add: B(8))
  have "\<forall>e \<in> set (m_blocks s'). block_ok s' (bei_bl e)" using S(3) by (simp add: B(1) block_ok_def get)
  moreover have "pool_part_ok U s'" using S(5-7) assms(4) by (simp add: pool_part_ok_def get assms(5))
  ultimately show "store_ok U s'" using S(1) assms(3) by (simp add: store_ok_def B(6) led)
qed

text \<open>What it means that a block was added: how the state grew, and which checks the block passed.\<close>

definition miner_entry :: "block \<Rightarrow> hash \<times> transaction" where
  "miner_entry bl = (get_transaction_hash (miner_tx bl), miner_tx bl)"

definition reward_paid :: "blockchain_storage \<Rightarrow> block \<Rightarrow> (hash \<times> transaction) list \<Rightarrow> block_extended_info \<Rightarrow> bool" where
  "reward_paid s bl l' bei \<longleftrightarrow> (\<exists>base_reward coins.
     coins = (if m_blocks s \<noteq> [] then already_generated_coins (last (m_blocks s)) else 0)
     \<and> get_block_reward (median (the (get_last_n_blocks_sizes s CRYPTONOTE_REWARD_BLOCKS_WINDOW))) (block_cumulative_size bei) coins
         = Some base_reward
     \<and> get_outs_money_amount (miner_tx bl) = base_reward + sum_list (map (\<lambda>e. pool_fee (snd e)) l')
     \<and> check_outs_overflow (miner_tx bl)
     \<and> already_generated_coins bei = (if base_reward < MONEY_SUPPLY - coins then coins + base_reward else MONEY_SUPPLY))"

definition block_checks :: "'p chain_env \<Rightarrow> blockchain_storage \<Rightarrow> block \<Rightarrow> bool" where
  "block_checks env s bl \<longleftrightarrow> prev_id bl = get_tail_id s \<and> check_block_timestamp_main env s bl
     \<and> get_difficulty_for_next_block s \<noteq> 0
     \<and> check_hash (get_block_longhash (env_slow_hash env) bl (get_current_blockchain_height s)) (get_difficulty_for_next_block s)
     \<and> (is_in_checkpoint_zone (m_checkpoints s) (get_current_blockchain_height s)
          \<longrightarrow> check_block (m_checkpoints s) (get_current_blockchain_height s) (get_block_hash bl))
     \<and> prevalidate_miner_transaction bl (get_current_blockchain_height s)"

definition block_added :: "'p chain_env \<Rightarrow> blockchain_storage \<Rightarrow> block \<Rightarrow> (hash \<times> transaction) list \<Rightarrow> blockchain_storage \<Rightarrow> bool" where
  "block_added env s bl l' s' \<longleftrightarrow>
     block_checks env s bl \<and> ledger_of s' = ledger_of s @ miner_entry bl # l' \<and> map fst l' = tx_hashes bl
     \<and> (\<forall>e \<in> set l'. pool_admissible (snd e)) \<and> checked_on env s (ledger_of s @ [miner_entry bl]) l'
     \<and> pool_of s' ++ map_of l' = pool_of s
     \<and> (\<exists>bei. m_blocks s' = m_blocks s @ [bei] \<and> bei_bl bei = bl \<and> reward_paid s bl l' bei
          \<and> cumulative_difficulty bei = get_difficulty_for_next_block s
              + (if m_blocks s \<noteq> [] then cumulative_difficulty (last (m_blocks s)) else 0))
     \<and> m_alternative_chains s' = m_alternative_chains s \<and> m_checkpoints s' = m_checkpoints s
     \<and> m_invalid_blocks s' = m_invalid_blocks s"

lemma prevalidate_coinbase: "prevalidate_miner_transaction b h \<Longrightarrow> is_coinbase (miner_tx b) \<and> check_outs_overflow (miner_tx b)"
  by (auto simp: prevalidate_miner_transaction_def is_coinbase_def split: if_splits txin.splits)

lemma foldl_outs: "foldl (\<lambda>m ot. m + amount ot) a outs = a + foldl (\<lambda>m ot. m + amount ot) 0 outs"
proof (induction outs arbitrary: a)
  case (Cons ot outs)
  show ?case using Cons [of "a + amount ot"] Cons [of "amount ot"] by (simp add: add.assoc)
qed simp

lemma foldl_outs_money: "foldl (\<lambda>m ot. m + amount ot) 0 (vout tx) = get_outs_money_amount tx"
  unfolding get_outs_money_amount_def by (simp add: fold_map foldl_conv_fold comp_def add.commute)

lemma store_ok_extend:
  assumes S: "store_ok U s" and led: "ledger_ok s1 (ledger_of s @ miner_entry bl # l')" and fst: "map fst l' = tx_hashes bl"
    and bp: "block_part s1 = block_part s" and pool: "pool_clean (m_tx_pool s1)" "\<And>h. pool_of s1 h \<noteq> None \<Longrightarrow> get_tx s1 h = None"
      "pool_of s1 ++ map_of l' = pool_of s"
    and "\<forall>e \<in> set l'. pool_admissible (snd e)" "is_coinbase (miner_tx bl)" "miner_tx bl \<in> U"
    and prev: "prev_id bl = get_tail_id s" and new: "m_blocks_index s (get_block_hash bl) = None"
    and bei: "bei_bl bei = bl" "bei_height bei = of_nat (length (m_blocks s))"
    and s': "s' = s1\<lparr>m_blocks_index := (m_blocks_index s1)(get_block_hash bl \<mapsto> length (m_blocks s1)), m_blocks := m_blocks s1 @ [bei],
       m_current_block_cumul_sz_limit := lim\<rparr>"
  shows "store_ok U s'" "ledger_of s' = ledger_of s @ miner_entry bl # l'"
proof -
  note B = block_part_eqD [OF bp] and D = store_okD [OF S]
  have led': "ledger_ok s' (ledger_of s @ miner_entry bl # l')" and get': "get_tx s' = get_tx s1" using led by (simp_all add: s')
  have ids: "chain_ids s' = chain_ids s @ block_tx_ids bl" using B(1) bei(1) by (simp add: s' chain_ids_def)
  show L: "ledger_of s' = ledger_of s @ miner_entry bl # l'"
    by (rule ledger_of_eq [OF led']) (simp add: ids fst miner_entry_def block_tx_ids_def)
  have get_iff: "get_tx s' h = Some tx \<longleftrightarrow> get_tx s h = Some tx \<or> (h, tx) = miner_entry bl \<or> (h, tx) \<in> set l'" for h tx
    using ledger_get_tx [OF led', of h tx] ledger_get_tx [OF D(2), of h tx] by auto
  have "block_ok s' (bei_bl e)" if "e \<in> set (m_blocks s')" for e
  proof (cases "e = bei")
    case True
    have "\<exists>tx. get_tx s' h = Some tx \<and> pool_admissible tx" if "h \<in> set (tx_hashes bl)" for h
    proof -
      have "h \<in> set (map fst l')" using that fst by simp
      then obtain tx where "(h, tx) \<in> set l'" by auto
      moreover have "pool_admissible tx" using assms(8) calculation by auto
      ultimately show ?thesis using get_iff by blast
    qed
    then show ?thesis using True bei(1) assms(9) by (simp add: block_ok_def get_iff miner_entry_def)
  next
    case False
    then have "block_ok s (bei_bl e)" using that D(3) B(1) by (simp add: s')
    then show ?thesis unfolding block_ok_def get_iff by blast
  qed
  moreover have "chain_ok s'"
    unfolding chain_ok_def
  proof (intro conjI allI impI)
    fix i
    assume i: "i < length (m_blocks s')"
    show "bei_height (m_blocks s' ! i) = of_nat i"
      using i D(1) bei B(1) by (cases "i < length (m_blocks s)") (auto simp: s' chain_ok_def nth_append less_Suc_eq)
    show "prev_id (bei_bl (m_blocks s' ! i)) = (if i = 0 then null_hash else bhash (m_blocks s' ! (i - 1)))"
      using i D(1) bei B(1) prev
      by (cases "i < length (m_blocks s)") (auto simp: s' chain_ok_def nth_append less_Suc_eq get_tail_id_def last_conv_nth)
  next
    fix h i
    have idx: "m_blocks_index s h = Some i \<longleftrightarrow> i < length (m_blocks s) \<and> bhash (m_blocks s ! i) = h" for h i
      using D(1) by (simp add: chain_ok_def)
    show "m_blocks_index s' h = Some i \<longleftrightarrow> i < length (m_blocks s') \<and> bhash (m_blocks s' ! i) = h"
    proof (cases "i < length (m_blocks s)")
      case True
      then have "bhash (m_blocks s ! i) \<noteq> get_block_hash bl" using idx [of "get_block_hash bl" i] new by auto
      then show ?thesis using True idx B(1, 2) new by (auto simp: s' nth_append)
    next
      case False
      then show ?thesis using idx [of h i] B(1, 2) bei(1) by (auto simp: s' nth_append less_Suc_eq)
    qed
  qed (use D(1) B(5) in \<open>simp add: s' chain_ok_def\<close>)
  moreover have "pool_part_ok U s'"
    unfolding pool_part_ok_def
  proof (intro conjI)
    show "pool_clean (m_tx_pool s')" "\<forall>h. pool_of s' h \<noteq> None \<longrightarrow> get_tx s' h = None"
      using pool(1, 2) get' by (simp_all add: s')
    have l': "tx \<in> U" if "(h, tx) \<in> set l'" for h tx
    proof -
      have "distinct (map fst l')" using ledger_okD(1) [OF led] by simp
      then have "map_of l' h = Some tx" using that by simp
      then have "pool_of s h = Some tx" unfolding pool(3) [symmetric] by (simp add: map_add_def)
      then show ?thesis using D(7) by (auto simp: ran_def)
    qed
    then show "ran (get_tx s') \<subseteq> U" using D(6) assms(10) by (auto simp: ran_def get_iff miner_entry_def)
    show "ran (pool_of s') \<subseteq> U"
    proof
      fix tx
      assume "tx \<in> ran (pool_of s')"
      then obtain h where h: "pool_of s1 h = Some tx" by (auto simp: ran_def s')
      then have "map_of l' h = None"
      proof -
        have "get_tx s1 h = None" using pool(2) [of h] h by simp
        then have "(h, t) \<notin> set l'" for t using ledger_get_tx [OF led, of h t] by simp
        then show ?thesis by (auto simp: map_of_eq_None_iff)
      qed
      then have "pool_of s h = Some tx" unfolding pool(3) [symmetric] using h by (simp add: map_add_def)
      then show "tx \<in> U" using D(7) by (auto simp: ran_def)
    qed
  qed
  ultimately show "store_ok U s'" using led' by (simp add: store_ok_def L)
qed

lemma last_sizes_Some: "\<exists>v. get_last_n_blocks_sizes s n = Some v"
  by (simp add: get_last_n_blocks_sizes_def get_backward_blocks_sizes_def)

lemma last_sizes_cong: "m_blocks s' = m_blocks s \<Longrightarrow> get_last_n_blocks_sizes s' n = get_last_n_blocks_sizes s n"
  by (simp add: get_last_n_blocks_sizes_def get_backward_blocks_sizes_def)

lemma validate_miner_Some:
  assumes "validate_miner_transaction s bl sz fees coins = Some base_reward"
  shows "get_block_reward (median (the (get_last_n_blocks_sizes s CRYPTONOTE_REWARD_BLOCKS_WINDOW))) sz coins = Some base_reward"
    "get_outs_money_amount (miner_tx bl) = base_reward + fees"
  using assms last_sizes_Some [of s CRYPTONOTE_REWARD_BLOCKS_WINDOW]
  by (auto simp: validate_miner_transaction_def Let_def foldl_outs_money split: option.splits if_splits)

lemma connect_block_cases:
  fixes s :: blockchain_storage
  defines "coins \<equiv> (if m_blocks s \<noteq> [] then already_generated_coins (last (m_blocks s)) else 0)"
  shows "validate_miner_transaction s bl sz fees coins = None \<or> m_blocks_index s h \<noteq> None \<Longrightarrow>
      connect_block env bl h d fees sz bvc s = (False, set_failed bvc, snd (purge_block_data_from_blockchain env bl (length (tx_hashes bl)) s))"
    and "validate_miner_transaction s bl sz fees coins = Some base_reward \<Longrightarrow> m_blocks_index s h = None \<Longrightarrow>
      \<exists>lim. connect_block env bl h d fees sz bvc s = (True, bvc\<lparr>m_added_to_main_chain := True\<rparr>,
        s\<lparr>m_blocks_index := (m_blocks_index s)(h \<mapsto> length (m_blocks s)), m_blocks := m_blocks s @
            [\<lparr>bei_bl = bl, bei_height = of_nat (length (m_blocks s)), block_cumulative_size = sz,
              cumulative_difficulty = (if m_blocks s \<noteq> [] then d + cumulative_difficulty (last (m_blocks s)) else d),
              already_generated_coins = (if base_reward < MONEY_SUPPLY - coins then coins + base_reward else MONEY_SUPPLY)\<rparr>],
          m_current_block_cumul_sz_limit := lim\<rparr>)"
proof -
  show "connect_block env bl h d fees sz bvc s = (False, set_failed bvc, snd (purge_block_data_from_blockchain env bl (length (tx_hashes bl)) s))"
    if "validate_miner_transaction s bl sz fees coins = None \<or> m_blocks_index s h \<noteq> None"
    using that by (cases "validate_miner_transaction s bl sz fees coins") (simp_all only: connect_block_def Let_def option.case option.distinct if_True simp_thms flip: coins_def)
  show "\<exists>lim. connect_block env bl h d fees sz bvc s = (True, bvc\<lparr>m_added_to_main_chain := True\<rparr>,
        s\<lparr>m_blocks_index := (m_blocks_index s)(h \<mapsto> length (m_blocks s)), m_blocks := m_blocks s @
            [\<lparr>bei_bl = bl, bei_height = of_nat (length (m_blocks s)), block_cumulative_size = sz,
              cumulative_difficulty = (if m_blocks s \<noteq> [] then d + cumulative_difficulty (last (m_blocks s)) else d),
              already_generated_coins = (if base_reward < MONEY_SUPPLY - coins then coins + base_reward else MONEY_SUPPLY)\<rparr>],
          m_current_block_cumul_sz_limit := lim\<rparr>)"
    if "validate_miner_transaction s bl sz fees coins = Some base_reward" "m_blocks_index s h = None"
    using that by (simp only: connect_block_def Let_def option.case if_True if_False simp_thms update_next_comulative_size_limit_def flip: coins_def) blast
qed

lemma handle_block_ok:
  assumes inj: "inj_on get_transaction_hash U" and S: "store_ok U s" and U: "miner_tx bl \<in> U"
    and handle: "handle_block_to_main_chain env bl bvc s = (r, bvc', s')"
  shows "store_ok U s' \<and> (r \<longrightarrow> m_added_to_main_chain bvc' \<and> (\<exists>l'. block_added env s bl l' s'))
    \<and> (\<not> r \<longrightarrow> block_part s' = block_part s \<and> ledger_of s' = ledger_of s \<and> pool_of s' = pool_of s
        \<and> m_added_to_main_chain bvc' = m_added_to_main_chain bvc)"
proof (cases "block_checks env s bl")
  case False
  then have "s' = s" "\<not> r" "m_added_to_main_chain bvc' = m_added_to_main_chain bvc"
    using handle unfolding handle_block_to_main_chain_def handle_block_to_main_chain_id_def block_checks_def Let_def
    by (auto simp: set_failed_def split: if_splits)
  then show ?thesis using S by simp
next
  case True
  note D = store_okD [OF S]
  let ?m = "miner_entry bl" and ?h = "get_transaction_hash (miner_tx bl)" and ?sz = "of_nat (get_object_blobsize (miner_tx bl)) :: u64"
  have miner: "is_coinbase (miner_tx bl)" "check_outs_overflow (miner_tx bl)"
    using True prevalidate_coinbase [of bl] by (auto simp: block_checks_def)
  obtain r1 s1 where s1: "add_transaction_from_block (miner_tx bl) ?h (get_current_blockchain_height s) ?sz s = (r1, s1)" by fastforce
  define rest where "rest = process_txs env bl (get_block_hash bl) (tx_hashes bl) 0 0 ?sz s1"
  have handle': "(r, bvc', s') = (if \<not> r1 then (False, set_failed bvc, s1)
      else case rest of
        Inl s \<Rightarrow> (False, set_failed bvc, s)
      | Inr (fee_summary, cumulative_block_size, s2) \<Rightarrow>
          connect_block env bl (get_block_hash bl) (get_difficulty_for_next_block s) fee_summary cumulative_block_size bvc s2)"
  proof -
    have c: "prev_id bl = get_tail_id s" "check_block_timestamp_main env s bl" "get_difficulty_for_next_block s \<noteq> 0"
      "check_hash (get_block_longhash (env_slow_hash env) bl (get_current_blockchain_height s)) (get_difficulty_for_next_block s)"
      "\<not> (is_in_checkpoint_zone (m_checkpoints s) (get_current_blockchain_height s)
        \<and> \<not> check_block (m_checkpoints s) (get_current_blockchain_height s) (get_block_hash bl))"
      "prevalidate_miner_transaction bl (get_current_blockchain_height s)"
      using True unfolding block_checks_def by blast+
    show ?thesis
      unfolding handle [symmetric] handle_block_to_main_chain_def handle_block_to_main_chain_id_def rest_def Let_def s1 prod.case
      by (simp only: c not_True_eq_False not_False_eq_True if_True if_False simp_thms)
  qed
  show ?thesis
  proof (cases r1)
    case False
    then have "s1 = s" using add_coinbase_False(1) [OF miner(1), of ?h _ _ s s1] s1 by simp
    then show ?thesis using handle' False S by (auto simp: set_failed_def)
  next
    case True1: True
    then have s1': "add_transaction_from_block (miner_tx bl) ?h (get_current_blockchain_height s) ?sz s = (True, s1)" using s1 by simp
    note A = add_transaction_True [OF D(2) refl disjI1 [OF miner(1)] s1']
    have led1: "ledger_ok s1 (ledger_of s @ ?m # [])" using A(1) by (simp add: miner_entry_def)
    have pool1: "m_tx_pool s1 = m_tx_pool s" "block_part s1 = block_part s" "m_invalid_blocks s1 = m_invalid_blocks s" using A(2-4) by auto
    have disj: "get_tx s1 k = None" if "pool_of s1 k \<noteq> None" for k
    proof -
      obtain t where t: "pool_of s k = Some t" using \<open>pool_of s1 k \<noteq> None\<close> pool1(1) by auto
      have "t \<in> U" using D(7) t by (auto simp: ran_def)
      have "k \<noteq> ?h"
      proof
        assume "k = ?h"
        then have "t = miner_tx bl" using pool_lookup(1) [OF D(4) t] inj \<open>t \<in> U\<close> U by (auto dest: inj_onD)
        then show False using pool_lookup(2) [OF D(4) t] admissible_not_coinbase miner(1) by blast
      qed
      then have "(k, x) \<in> set (ledger_of s @ ?m # []) \<longleftrightarrow> (k, x) \<in> set (ledger_of s)" for x by (auto simp: miner_entry_def)
      then show ?thesis
        using ledger_get_tx [OF led1, of k] ledger_get_tx [OF D(2), of k] D(5) [of k] t by (cases "get_tx s1 k") auto
    qed
    note P = process_txs_ok [where s = s1 and l = "ledger_of s" and bl = bl and l' = "[]" and cnt = 0 and ids = "tx_hashes bl" and env = env
        and h = "get_block_hash bl" and fees = 0 and sz = ?sz, folded miner_entry_def rest_def,
        OF led1 _ disj miner(1)]
    have failed: ?thesis if "r = False" "bvc' = set_failed bvc" "ledger_ok s' (ledger_of s)" "block_part s' = block_part s"
        "pool_clean (m_tx_pool s')" "pool_of s' = pool_of s"
      using store_ok_same [OF S that(4, 3, 5, 6)] that by (simp add: set_failed_def)
    show ?thesis
    proof (cases rest)
      case (Inl s2)
      then have "s' = s2" "r = False" "bvc' = set_failed bvc" using handle' True1 by auto
      then show ?thesis using P Inl D(4) pool1 by (intro failed) auto
    next
      case (Inr t)
      then obtain fees sz s2 where rest: "rest = Inr (fees, sz, s2)" by (cases t) auto
      obtain l2 where l2: "ledger_ok s2 (ledger_of s @ ?m # l2)" "map fst l2 = tx_hashes bl" "\<forall>e \<in> set l2. pool_admissible (snd e)"
          "block_part s2 = block_part s" "m_invalid_blocks s2 = m_invalid_blocks s" "pool_clean (m_tx_pool s2)"
          "\<And>h. pool_of s2 h \<noteq> None \<Longrightarrow> get_tx s2 h = None" "pool_of s2 ++ map_of l2 = pool_of s"
          "fees = sum_list (map (\<lambda>e. pool_fee (snd e)) l2)" "checked_on env s1 (ledger_of s @ [?m]) l2"
        using P D(4) pool1 unfolding rest by auto
      have chk: "checked_on env s (ledger_of s @ [?m]) l2" using l2(10) pool1(2) by (simp add: checked_on_def)
      note B = block_part_eqD [OF l2(4)]
      define coins where "coins = (if m_blocks s \<noteq> [] then already_generated_coins (last (m_blocks s)) else 0)"
      note C = connect_block_cases [of s2, unfolded B(1, 2), folded coins_def]
      have purge: "\<exists>s3. purge_block_data_from_blockchain env bl (length (tx_hashes bl)) s2 = (True, s3) \<and> ledger_ok s3 (ledger_of s)
          \<and> block_part s3 = block_part s2 \<and> m_invalid_blocks s3 = m_invalid_blocks s2 \<and> pool_clean (m_tx_pool s3)
          \<and> pool_of s3 = pool_of s2 ++ map_of l2"
      proof (rule purge_block_data_ok [OF l2(1) [unfolded miner_entry_def] l2(6) _ miner(1)])
        show "\<not> is_coinbase tx \<and> pool_of s2 h = None" if "(h, tx) \<in> set l2" for h tx
          using that l2(3, 7) ledger_get_tx [OF l2(1), of h tx] admissible_not_coinbase by fastforce
      qed (use l2(2) in auto)
      show ?thesis
      proof (cases "\<exists>base. validate_miner_transaction s2 bl sz fees coins = Some base \<and> m_blocks_index s (get_block_hash bl) = None")
        case False
        then have "r = False" "bvc' = set_failed bvc" "s' = snd (purge_block_data_from_blockchain env bl (length (tx_hashes bl)) s2)"
          using handle' True1 rest C(1) [of bl sz fees "get_block_hash bl" env "get_difficulty_for_next_block s" bvc]
          by (cases "validate_miner_transaction s2 bl sz fees coins"; simp)+
        then show ?thesis using purge l2(4, 8) by (intro failed) auto
      next
        case valid: True
        then obtain base where base: "validate_miner_transaction s2 bl sz fees coins = Some base" and new: "m_blocks_index s (get_block_hash bl) = None"
          by blast
        define bei where "bei = \<lparr>bei_bl = bl, bei_height = of_nat (length (m_blocks s)), block_cumulative_size = sz,
          cumulative_difficulty = (if m_blocks s \<noteq> [] then get_difficulty_for_next_block s + cumulative_difficulty (last (m_blocks s)) else get_difficulty_for_next_block s),
          already_generated_coins = (if base < MONEY_SUPPLY - coins then coins + base else MONEY_SUPPLY)\<rparr>"
        obtain lim where s': "s' = s2\<lparr>m_blocks_index := (m_blocks_index s2)(get_block_hash bl \<mapsto> length (m_blocks s2)), m_blocks := m_blocks s2 @ [bei],
            m_current_block_cumul_sz_limit := lim\<rparr>" and r: "r" "bvc' = bvc\<lparr>m_added_to_main_chain := True\<rparr>"
          using handle' True1 rest C(2) [OF base new, of env "get_difficulty_for_next_block s" bvc, folded bei_def] B(1, 2) by auto
        have bei: "bei_bl bei = bl" "bei_height bei = of_nat (length (m_blocks s))" by (simp_all add: bei_def)
        have prev: "prev_id bl = get_tail_id s" using True by (simp add: block_checks_def)
        note X = store_ok_extend [OF S l2(1, 2, 4, 6) _ l2(8, 3) miner(1) U prev new bei s']
        have E: "store_ok U s'" "ledger_of s' = ledger_of s @ ?m # l2" by (rule X, erule l2(7))+
        have "reward_paid s bl l2 bei"
          using validate_miner_Some [OF base] miner(2) l2(9) unfolding reward_paid_def last_sizes_cong [OF B(1)]
          by (intro exI [of _ base] exI [of _ coins]) (simp add: bei_def coins_def)
        moreover have "m_blocks s' = m_blocks s @ [bei]" "m_alternative_chains s' = m_alternative_chains s" "m_checkpoints s' = m_checkpoints s"
          "m_invalid_blocks s' = m_invalid_blocks s" "pool_of s' = pool_of s2"
          using B l2(5) by (simp_all add: s')
        moreover have "cumulative_difficulty bei = get_difficulty_for_next_block s
            + (if m_blocks s \<noteq> [] then cumulative_difficulty (last (m_blocks s)) else 0)" by (simp add: bei_def)
        ultimately have "block_added env s bl l2 s'"
          using True E(2) l2(2, 3, 8) chk bei(1) unfolding block_added_def by (intro conjI exI [of _ bei]) simp_all
        then show ?thesis using E(1) r by auto
      qed
    qed
  qed
qed

lemma ledger_split:
  assumes S: "store_ok U s" and blocks: "m_blocks s = bs @ [e]"
  shows "\<exists>l l'. ledger_of s = l @ miner_entry (bei_bl e) # l' \<and> map fst l = concat (map (\<lambda>e. block_tx_ids (bei_bl e)) bs)
    \<and> map fst l' = tx_hashes (bei_bl e) \<and> is_coinbase (miner_tx (bei_bl e))
    \<and> (\<forall>h tx. (h, tx) \<in> set l' \<longrightarrow> \<not> is_coinbase tx \<and> pool_of s h = None)"
proof -
  note D = store_okD [OF S]
  let ?f = "\<lambda>h. (h, the (get_tx s h))"
  have ok: "block_ok s (bei_bl e)" using D(3) blocks by simp
  have "ledger_of s = map ?f (concat (map (\<lambda>e. block_tx_ids (bei_bl e)) bs)) @ miner_entry (bei_bl e) # map ?f (tx_hashes (bei_bl e))"
    using ok by (simp add: ledger_of_def chain_ids_def blocks block_tx_ids_def miner_entry_def block_ok_def)
  moreover have "\<not> is_coinbase tx \<and> pool_of s h = None" if "(h, tx) \<in> set (map ?f (tx_hashes (bei_bl e)))" for h tx
  proof -
    have h: "h \<in> set (tx_hashes (bei_bl e))" "tx = the (get_tx s h)" using that by auto
    then obtain t where t: "get_tx s h = Some t" "pool_admissible t" using ok unfolding block_ok_def by blast
    then have "pool_of s h = None" using D(5) [of h] by (cases "pool_of s h") auto
    then show ?thesis using h(2) t admissible_not_coinbase by simp
  qed
  ultimately show ?thesis using ok by (intro exI conjI) (auto simp: comp_def block_ok_def)
qed

text \<open>A state whose last block was taken away, with its transactions.\<close>

lemma store_ok_shrink:
  assumes S: "store_ok U s" and blocks: "m_blocks s = bs @ [e]"
    and L: "ledger_of s = l @ miner_entry (bei_bl e) # l'" "map fst l = concat (map (\<lambda>e. block_tx_ids (bei_bl e)) bs)"
    and s1: "ledger_ok s1 l" "block_part s1 = block_part s" "pool_clean (m_tx_pool s1)" "pool_of s1 = pool_of s ++ map_of l'"
    and s': "s' = s1\<lparr>m_blocks_index := (m_blocks_index s1)(bhash e := None), m_blocks := bs\<rparr>"
  shows "store_ok U s'" "ledger_of s' = l"
proof -
  note D = store_okD [OF S] and B = block_part_eqD [OF s1(2)]
  have led': "ledger_ok s' l" using s1(1) by (simp add: s')
  show L': "ledger_of s' = l" by (rule ledger_of_eq [OF led']) (simp add: L(2) s' chain_ids_def)
  have get_in: "get_tx s' h = get_tx s h" if "h \<in> fst ` set l" for h
  proof -
    obtain tx where "(h, tx) \<in> set l" using \<open>h \<in> fst ` set l\<close> by auto
    then show ?thesis using ledger_get_tx [OF led', of h tx] ledger_get_tx [OF D(2), of h tx] L(1) by simp
  qed
  have get_sub: "get_tx s h = Some tx" if "get_tx s' h = Some tx" for h tx
    using that ledger_get_tx [OF led', of h tx] ledger_get_tx [OF D(2), of h tx] L(1) by simp
  have "block_ok s' (bei_bl b)" if "b \<in> set (m_blocks s')" for b
  proof -
    have b: "b \<in> set bs" using that by (simp add: s')
    have "set (block_tx_ids (bei_bl b)) \<subseteq> fst ` set l"
      using arg_cong [OF L(2), of set] b by auto
    then have "get_tx s' h = get_tx s h" if "h \<in> set (block_tx_ids (bei_bl b))" for h using get_in that by blast
    then show ?thesis using D(3) [of b] b blocks unfolding block_ok_def block_tx_ids_def by simp
  qed
  moreover have "chain_ok s'"
    unfolding chain_ok_def
  proof (intro conjI allI impI)
    fix i
    assume i: "i < length (m_blocks s')"
    then have i': "i < length bs" by (simp add: s')
    have "bei_height (m_blocks s ! i) = of_nat i
        \<and> prev_id (bei_bl (m_blocks s ! i)) = (if i = 0 then null_hash else bhash (m_blocks s ! (i - 1)))"
      using D(1) i' blocks unfolding chain_ok_def by simp
    then show "bei_height (m_blocks s' ! i) = of_nat i"
      "prev_id (bei_bl (m_blocks s' ! i)) = (if i = 0 then null_hash else bhash (m_blocks s' ! (i - 1)))"
      using i' blocks by (auto simp: s' nth_append)
  next
    fix h i
    have idx: "m_blocks_index s h = Some i \<longleftrightarrow> i < length (m_blocks s) \<and> bhash (m_blocks s ! i) = h" for h i
      using D(1) by (simp add: chain_ok_def)
    have top: "m_blocks_index s (bhash e) = Some (length bs)" using blocks by (simp add: idx)
    show "m_blocks_index s' h = Some i \<longleftrightarrow> i < length (m_blocks s') \<and> bhash (m_blocks s' ! i) = h"
    proof (cases "h = bhash e")
      case True
      have "bhash (bs ! i) \<noteq> bhash e" if "i < length bs"
      proof
        assume "bhash (bs ! i) = bhash e"
        then have "m_blocks_index s (bhash e) = Some i" using that blocks by (simp add: idx nth_append)
        then show False using top that by simp
      qed
      then show ?thesis using True by (auto simp: s')
    next
      case False
      then show ?thesis using idx [of h i] blocks B(2) by (auto simp: s' nth_append less_Suc_eq)
    qed
  qed (use D(1) B(5) in \<open>simp add: s' chain_ok_def\<close>)
  moreover have "pool_part_ok U s'"
    unfolding pool_part_ok_def
  proof (intro conjI allI impI)
    show "pool_clean (m_tx_pool s')" using s1(3) by (simp add: s')
    have pool': "pool_of s' = pool_of s ++ map_of l'" using s1(4) by (simp add: s')
    show "ran (get_tx s') \<subseteq> U" using D(6) get_sub by (auto simp: ran_def)
    have in_s: "get_tx s h = Some tx" if "(h, tx) \<in> set l'" for h tx using that ledger_get_tx [OF D(2), of h tx] L(1) by simp
    show "ran (pool_of s') \<subseteq> U"
    proof
      fix tx
      assume "tx \<in> ran (pool_of s')"
      then obtain h where "map_of l' h = Some tx \<or> pool_of s h = Some tx"
        unfolding pool' by (auto simp: ran_def map_add_def split: option.splits)
      then have "get_tx s h = Some tx \<or> pool_of s h = Some tx" using in_s by (auto dest: map_of_SomeD)
      then show "tx \<in> U" using D(6, 7) by (auto simp: ran_def)
    qed
    fix h
    assume h: "pool_of s' h \<noteq> None"
    show "get_tx s' h = None"
    proof (cases "map_of l' h")
      case None
      then have "get_tx s h = None" using h D(5) unfolding pool' by (simp add: map_add_def)
      then show ?thesis using get_sub [of h] by (cases "get_tx s' h") auto
    next
      case (Some tx)
      then have "h \<in> fst ` set l'" by (auto dest: map_of_SomeD intro: rev_image_eqI)
      then have "h \<notin> fst ` set l" using ledger_okD(1) [OF D(2)] unfolding L(1) by auto
      then show ?thesis using ledger_okD(2) [OF led', of h] by (simp add: map_of_eq_None_iff)
    qed
  qed
  ultimately show "store_ok U s'" using led' by (simp add: store_ok_def L')
qed

lemma pop_block_ok:
  assumes S: "store_ok U s" and blocks: "m_blocks s = bs @ [e]" "bs \<noteq> []"
  shows "\<exists>s' l'. pop_block_from_blockchain env s = (True, s') \<and> store_ok U s' \<and> m_blocks s' = bs
    \<and> ledger_of s = ledger_of s' @ miner_entry (bei_bl e) # l' \<and> map fst l' = tx_hashes (bei_bl e)
    \<and> pool_of s' = pool_of s ++ map_of l' \<and> m_alternative_chains s' = m_alternative_chains s
    \<and> m_invalid_blocks s' = m_invalid_blocks s \<and> m_checkpoints s' = m_checkpoints s
    \<and> m_current_block_cumul_sz_limit s' = m_current_block_cumul_sz_limit s"
proof -
  note D = store_okD [OF S]
  obtain l l' where L: "ledger_of s = l @ miner_entry (bei_bl e) # l'" "map fst l = concat (map (\<lambda>e. block_tx_ids (bei_bl e)) bs)"
      "map fst l' = tx_hashes (bei_bl e)" "is_coinbase (miner_tx (bei_bl e))"
      "\<And>h tx. (h, tx) \<in> set l' \<Longrightarrow> \<not> is_coinbase tx \<and> pool_of s h = None"
    using ledger_split [OF S blocks(1)] by blast
  have led: "ledger_ok s (l @ (get_transaction_hash (miner_tx (bei_bl e)), miner_tx (bei_bl e)) # l')"
    using D(2) L(1) by (simp add: miner_entry_def)
  obtain s1 where s1: "purge_block_data_from_blockchain env (bei_bl e) (length (tx_hashes (bei_bl e))) s = (True, s1)" "ledger_ok s1 l"
      "block_part s1 = block_part s" "m_invalid_blocks s1 = m_invalid_blocks s" "pool_clean (m_tx_pool s1)" "pool_of s1 = pool_of s ++ map_of l'"
    using purge_block_data_ok [OF led D(4) L(5) L(4), of "length (tx_hashes (bei_bl e))" env] L(3) by auto
  define s' where "s' = s1\<lparr>m_blocks_index := (m_blocks_index s1)(bhash e := None), m_blocks := bs\<rparr>"
  note B = block_part_eqD [OF s1(3)]
  note X = store_ok_shrink [OF S blocks(1) L(1, 2) s1(2, 3, 5, 6) s'_def]
  have "m_blocks_index s (bhash e) = Some (length bs)" using D(1) blocks(1) by (simp add: chain_ok_def)
  then have "pop_block_from_blockchain env s = (True, s')"
    using s1(1) blocks B(1, 2) by (simp add: pop_block_from_blockchain_def s'_def)
  then show ?thesis using X L(1, 3) s1(4, 6) B by (intro exI [of _ s'] exI [of _ l']) (simp add: s'_def)
qed

subsection \<open>What checked inputs mean\<close>

lemma scan_loop_keys:
  "scan_loop s vis outs offs acc h = (True, ks, h') \<Longrightarrow>
   \<exists>ks'. ks = acc @ ks' \<and> length ks' = length offs
     \<and> (\<forall>k \<in> set ks'. \<exists>r \<in> set outs. \<exists>e. m_transactions s (fst r) = Some e \<and> snd r < length (vout (ce_tx e))
          \<and> vis (ce_tx e) (vout (ce_tx e) ! snd r) = Some k)"
proof (induction offs arbitrary: acc h)
  case (Cons i offs)
  let ?r = "outs ! unat i"
  from Cons.prems obtain e key where *: "unat i < length outs" "m_transactions s (fst ?r) = Some e" "snd ?r < length (vout (ce_tx e))"
      "vis (ce_tx e) (vout (ce_tx e) ! snd ?r) = Some key"
    and rest: "scan_loop s vis outs offs (acc @ [key])
      (if offs = [] \<and> h < m_keeper_block_height e then m_keeper_block_height e else h) = (True, ks, h')"
    by (simp only: scan_loop.simps split: if_splits option.splits) auto
  from Cons.IH [OF rest] obtain ks' where ks': "ks = (acc @ [key]) @ ks'" "length ks' = length offs"
      "\<forall>k \<in> set ks'. \<exists>r \<in> set outs. \<exists>e. m_transactions s (fst r) = Some e \<and> snd r < length (vout (ce_tx e))
          \<and> vis (ce_tx e) (vout (ce_tx e) ! snd r) = Some k"
    by blast
  have "?r \<in> set outs" using *(1) by simp
  then show ?case using * ks' by (intro exI [of _ "key # ks'"]) auto
qed simp

text \<open>
  An input of a transaction is backed by a ledger: its ring signature is accepted for keys that all
  belong to outputs of the ledger with the amount of the input.
\<close>

definition input_backed :: "'p ge_ops \<Rightarrow> (hash \<times> transaction) list \<Rightarrow> transaction \<Rightarrow> nat \<Rightarrow> bool" where
  "input_backed G l tx i \<longleftrightarrow>
     (case vin tx ! i of
        txin_to_key amt offs img \<Rightarrow>
          i < length (signatures tx)
          \<and> (\<exists>keys. length keys = length offs \<and> offs \<noteq> []
               \<and> check_ring_signature G (get_transaction_prefix_hash tx) img keys (signatures tx ! i) = Some True
               \<and> (\<forall>k \<in> set keys. \<exists>e \<in> set l. \<exists>ot \<in> set (vout (snd e)). amount ot = amt \<and> target ot = txout_to_key k))
      | _ \<Rightarrow> False)"

lemma out_refs_in_ledger: "(h, j) \<in> set (out_refs a l) \<Longrightarrow> \<exists>tx. (h, tx) \<in> set l \<and> j < length (vout tx) \<and> amount (vout tx ! j) = a"
  by (auto simp: out_refs_def set_refs)

lemma check_tx_input_backed:
  assumes led: "ledger_ok s l" and zone: "\<not> m_is_in_checkpoint_zone s"
    and chk: "check_tx_input env s amt offs img ph sig h = (True, h')"
  shows "\<exists>keys. length keys = length offs \<and> check_ring_signature (env_ge env) ph img keys sig = Some True
    \<and> (\<forall>k \<in> set keys. \<exists>e \<in> set l. \<exists>ot \<in> set (vout (snd e)). amount ot = amt \<and> target ot = txout_to_key k)"
proof -
  obtain keys where scan: "scan_outputkeys_for_indexes s (handle_output s (env_now env)) amt offs h = (True, keys, h')"
    and keys: "length keys = length offs" "check_ring_signature (env_ge env) ph img keys sig = Some True"
    using chk zone by (auto simp: check_tx_input_def Let_def split: prod.splits if_splits)
  then obtain outs where outs: "m_outputs s amt = Some outs" "offs \<noteq> []"
      "scan_loop s (handle_output s (env_now env)) outs (relative_output_offsets_to_absolute offs) [] h = (True, keys, h')"
    by (auto simp: scan_outputkeys_for_indexes_def split: option.splits if_splits)
  have refs: "outs = out_refs amt l" using ledger_okD(6) [OF led, of amt] outs(1) by (simp add: idx_def)
  have "\<exists>e \<in> set l. \<exists>ot \<in> set (vout (snd e)). amount ot = amt \<and> target ot = txout_to_key k" if "k \<in> set keys" for k
  proof -
    obtain r e where r: "r \<in> set outs" "m_transactions s (fst r) = Some e" "snd r < length (vout (ce_tx e))"
        "handle_output s (env_now env) (ce_tx e) (vout (ce_tx e) ! snd r) = Some k"
      using scan_loop_keys [OF outs(3)] \<open>k \<in> set keys\<close> by auto
    obtain tx where tx: "(fst r, tx) \<in> set l" "amount (vout tx ! snd r) = amt"
      using out_refs_in_ledger [of "fst r" "snd r" amt l] r(1) refs by auto
    have "ce_tx e = tx" using ledger_get_tx [OF led, of "fst r" tx] tx(1) r(2) by (simp add: get_tx_def)
    then show ?thesis using tx r(3, 4)
      by (intro bexI [of _ "(fst r, tx)"] bexI [of _ "vout tx ! snd r"]) (auto simp: handle_output_def split: if_splits txout_target.splits)
  qed
  then show ?thesis using keys by blast
qed

lemma check_inputs_loop_each:
  "fst (check_inputs_loop env s ph sigs k ins h) \<Longrightarrow> i < length ins \<Longrightarrow>
   \<exists>amt offs img h1 h2. ins ! i = txin_to_key amt offs img \<and> offs \<noteq> [] \<and> k + i < length sigs
     \<and> check_tx_input env s amt offs img ph (sigs ! (k + i)) h1 = (True, h2)"
proof (induction ins arbitrary: k i h)
  case (Cons a ins)
  then obtain amt offs img where a: "a = txin_to_key amt offs img" by (cases a) auto
  obtain r h2 where c: "check_tx_input env s amt offs img ph (sigs ! k) h = (r, h2)" by fastforce
  have *: "offs \<noteq> []" "k < length sigs" "r" "fst (check_inputs_loop env s ph sigs (k + 1) ins h2)"
    using Cons.prems(1) c by (auto simp: a Let_def split: if_splits)
  show ?case
  proof (cases i)
    case 0
    then show ?thesis using * a c by auto
  next
    case (Suc j)
    then show ?thesis using Cons.IH [OF *(4), of j] Cons.prems(2) by simp
  qed
qed simp

lemma check_tx_inputs_backed:
  assumes "ledger_ok s l" "\<not> m_is_in_checkpoint_zone s" "fst (check_tx_inputs env s tx)" "i < length (vin tx)" "set l \<subseteq> set l'"
  shows "input_backed (env_ge env) l' tx i"
proof -
  obtain amt offs img h1 h2 where i: "vin tx ! i = txin_to_key amt offs img" "offs \<noteq> []" "i < length (signatures tx)"
      "check_tx_input env s amt offs img (get_transaction_prefix_hash tx) (signatures tx ! i) h1 = (True, h2)"
    using check_inputs_loop_each [of env s "get_transaction_prefix_hash tx" "signatures tx" 0 "vin tx" 0 i] assms(3, 4)
    unfolding check_tx_inputs_def by auto
  from check_tx_input_backed [OF assms(1, 2) i(4)]
  obtain keys where keys: "length keys = length offs"
      "check_ring_signature (env_ge env) (get_transaction_prefix_hash tx) img keys (signatures tx ! i) = Some True"
      "\<forall>k \<in> set keys. \<exists>e \<in> set l. \<exists>ot \<in> set (vout (snd e)). amount ot = amt \<and> target ot = txout_to_key k" by blast
  have "\<forall>k \<in> set keys. \<exists>e \<in> set l'. \<exists>ot \<in> set (vout (snd e)). amount ot = amt \<and> target ot = txout_to_key k"
    using keys(3) assms(5) by blast
  then show ?thesis unfolding input_backed_def i(1) txin.case using i(2, 3) keys(1, 2) by (intro conjI exI [of _ keys])
qed

subsection \<open>Money\<close>

lemma pool_fee_value:
  assumes "check_money_overflow tx" "pool_admissible tx"
  shows "unat (pool_fee tx) = sum_inputs tx - sum_outputs tx" "sum_outputs tx < sum_inputs tx"
proof -
  have s: "list_all is_txin_to_key (vin tx)" "sum_inputs tx < 2 ^ 64" "sum_outputs tx < 2 ^ 64"
    using assms(1) by (auto simp: check_money_overflow_iff)
  obtain m where m: "get_inputs_money_amount tx = Some m" "unat m = sum_inputs tx"
    using get_inputs_money_loop_sum [of "vin tx" 0] s by (auto simp: sum_inputs_def get_inputs_money_amount_def)
  have o: "unat (get_outs_money_amount tx) = sum_outputs tx" using get_outs_money_amount_sum [OF s(3)] .
  have "get_outs_money_amount tx < m" using assms(2) m(1) by (auto simp: pool_admissible_def)
  then show "unat (pool_fee tx) = sum_inputs tx - sum_outputs tx" "sum_outputs tx < sum_inputs tx"
    using m o by (auto simp: pool_fee_def unat_sub word_less_nat_alt word_le_nat_alt)
qed

lemma unat_sum_list_64: "sum_list (map (\<lambda>e. unat (f e)) xs) < 2 ^ 64 \<Longrightarrow> unat (sum_list (map f xs) :: u64) = sum_list (map (\<lambda>e. unat (f e)) xs)"
proof (induction xs)
  case (Cons x xs)
  then show ?case by (simp add: unat_add_64)
qed simp

lemma fees_outputs:
  assumes "\<forall>e \<in> set l. check_money_overflow (snd e) \<and> pool_admissible (snd e)"
  shows "sum_list (map (\<lambda>e. unat (pool_fee (snd e))) l) + sum_list (map (\<lambda>e. sum_outputs (snd e)) l) = sum_list (map (\<lambda>e. sum_inputs (snd e)) l)"
  using assms
proof (induction l)
  case (Cons e l)
  have "unat (pool_fee (snd e)) + sum_outputs (snd e) = sum_inputs (snd e)"
    using pool_fee_value [of "snd e"] Cons.prems by simp
  then show ?case using Cons by simp
qed simp

subsection \<open>Correctness of the main chain\<close>

lemma checked_on_backed:
  assumes chk: "checked_on env s (ledger_of s @ [miner_entry bl]) l'" and zone: "\<not> m_is_in_checkpoint_zone s"
    and e: "e \<in> set l'" "i < length (vin (snd e))"
  shows "input_backed (env_ge env) (ledger_of s @ miner_entry bl # l') (snd e) i"
proof -
  obtain xs ys where l': "l' = xs @ e # ys" using e(1) by (auto simp: in_set_conv_decomp)
  then obtain s1 where s1: "ledger_ok s1 ((ledger_of s @ [miner_entry bl]) @ xs)" "block_part s1 = block_part s" "fst (check_tx_inputs env s1 (snd e))"
    using chk unfolding checked_on_def by (metis prod.collapse)
  have "\<not> m_is_in_checkpoint_zone s1" using zone s1(2) by (simp add: block_part_def)
  then show ?thesis using check_tx_inputs_backed [OF s1(1) _ s1(3) e(2), of "ledger_of s @ miner_entry bl # l'"] l' by auto
qed

lemma handle_block_True:
  assumes "inj_on get_transaction_hash U" "store_ok U s" "miner_tx bl \<in> U"
    and "handle_block_to_main_chain env bl bvc s = (True, bvc', s')"
  obtains l' where "store_ok U s'" "block_added env s bl l' s'"
  using handle_block_ok [OF assms] by blast

lemma reward_accounts:
  assumes l': "\<forall>e \<in> set l'. check_money_overflow (snd e) \<and> pool_admissible (snd e)"
    and out: "get_outs_money_amount (miner_tx bl) = base_reward + sum_list (map (\<lambda>e. pool_fee (snd e)) l')" "check_outs_overflow (miner_tx bl)"
    and small: "unat base_reward + sum_list (map (\<lambda>e. sum_inputs (snd e)) l') < 2 ^ 64"
  shows "sum_list (map (\<lambda>e. sum_outputs (snd e)) (miner_entry bl # l')) = unat base_reward + sum_list (map (\<lambda>e. sum_inputs (snd e)) l')"
proof -
  note fees = fees_outputs [OF l']
  have "sum_outputs (miner_tx bl) < 2 ^ 64"
    using out(2) by (simp add: check_outs_overflow_def check_outs_overflow_loop_iff sum_outputs_def)
  then have m: "unat (get_outs_money_amount (miner_tx bl)) = sum_outputs (miner_tx bl)" by (rule get_outs_money_amount_sum)
  have f: "unat (sum_list (map (\<lambda>e. pool_fee (snd e)) l')) = sum_list (map (\<lambda>e. unat (pool_fee (snd e))) l')"
    using fees small by (intro unat_sum_list_64) simp
  then have "sum_outputs (miner_tx bl) = unat base_reward + sum_list (map (\<lambda>e. unat (pool_fee (snd e))) l')"
    using m out(1) fees small by (simp add: unat_add_64)
  then show ?thesis using fees by (simp add: miner_entry_def)
qed

text \<open>The storage a new node starts with.\<close>

definition blockchain_storage_init :: "bool \<Rightarrow> blockchain_storage" where
  "blockchain_storage_init testnet =
     \<lparr>m_blocks = [], m_blocks_index = Map.empty, m_transactions = Map.empty, m_spent_keys = {},
      m_current_block_cumul_sz_limit = 0, m_alternative_chains = Map.empty, m_invalid_blocks = Map.empty, m_outputs = Map.empty,
      m_checkpoints = [], m_is_in_checkpoint_zone = False, m_enforce_dns_checkpoints = False, m_testnet = testnet,
      m_tx_pool = \<lparr>pool_transactions = [], m_spent_key_images = Map.empty, remove_stuck_last = 0\<rparr>\<rparr>"

lemma pool_clean_empty: "pool_clean \<lparr>pool_transactions = [], m_spent_key_images = Map.empty, remove_stuck_last = t\<rparr>"
  by (simp add: pool_clean_def pool_ok_def no_stale_def loose_disjoint_def ids_of_def)

lemma init_simps [simp]:
  "m_blocks (blockchain_storage_init t) = []" "m_transactions (blockchain_storage_init t) = Map.empty"
  "m_checkpoints (blockchain_storage_init t) = []" "m_alternative_chains (blockchain_storage_init t) = Map.empty"
  "pool_of (blockchain_storage_init t) h = None" "get_tx (blockchain_storage_init t) h = None"
  "ledger_of (blockchain_storage_init t) = []"
  by (simp_all add: blockchain_storage_init_def pool_get_transaction_def get_tx_def ledger_of_def chain_ids_def)

lemma store_ok_init: "store_ok U (blockchain_storage_init t)"
proof -
  have "ledger_ok (blockchain_storage_init t) []"
    by (simp add: ledger_ok_def blockchain_storage_init_def get_tx_def idx_def out_refs_def)
  moreover have "chain_ok (blockchain_storage_init t)" by (simp add: chain_ok_def blockchain_storage_init_def)
  moreover have "pool_clean (m_tx_pool (blockchain_storage_init t))"
    using pool_clean_empty [of 0] by (simp add: blockchain_storage_init_def)
  ultimately show ?thesis by (simp add: store_ok_def pool_part_ok_def ran_def)
qed

text \<open>A first block for the empty chain, used to instantiate the properties, and one that names a transaction no pool has.\<close>

definition first_miner_tx :: transaction where
  "first_miner_tx = \<lparr>version = 1, unlock_time = 60, vin = [txin_gen 0],
     vout = [\<lparr>amount = 17592186044415, target = txout_to_key 3\<rparr>], extra = [], signatures = []\<rparr>"

definition first_block :: "hash list \<Rightarrow> block" where
  "first_block hs = \<lparr>major_version = 1, minor_version = 0, timestamp = 0, prev_id = 0, nonce = 0, miner_tx = first_miner_tx, tx_hashes = hs\<rparr>"

definition first_env :: "zpoint chain_env" where
  "first_env = \<lparr>env_ge = z_ops, env_slow_hash = (\<lambda>_. 0), env_now = 100\<rparr>"

lemma first_block_checks: "block_checks first_env (blockchain_storage_init t) (first_block hs)"
proof -
  have d: "get_difficulty_for_next_block (blockchain_storage_init t) = 1" 
    unfolding get_difficulty_for_next_block_def by (simp add: Let_def, code_simp)
  have h: "check_hash 0 1" by code_simp
  have p: "prevalidate_miner_transaction (first_block hs) 0"
    by (simp add: prevalidate_miner_transaction_def first_block_def first_miner_tx_def, code_simp)
  show ?thesis unfolding block_checks_def d using h p
    by (simp add: get_tail_id_def get_current_blockchain_height_def check_block_timestamp_main_def check_block_timestamp_def
        first_block_def first_env_def get_block_longhash_def is_in_checkpoint_zone_def median_def)
qed

lemma varint_length_step: "length (write_varint i) = (if i < 128 then 1 else Suc (length (write_varint (i div 128))))"
  by (subst write_varint.simps) (simp add: drop_bit_eq_div)

lemma first_miner_size: "get_object_blobsize first_miner_tx = 47"
  by (simp add: get_object_blobsize_def tx_to_blob_def wr_transaction_def wr_transaction_prefix_def first_miner_tx_def
      write_fields_Cons fst_wr_varint wr_vector_def wr_tag_def wr_tx_out_def wr_uint_def varint_length_step
      CURRENT_TRANSACTION_VERSION_def wr_signatures_def)

lemma first_block_base:
  "get_block_reward (median (the (get_last_n_blocks_sizes (blockchain_storage_init t) CRYPTONOTE_REWARD_BLOCKS_WINDOW)))
     (of_nat (get_object_blobsize first_miner_tx)) 0 = Some 17592186044415"
  by (simp add: first_miner_size get_last_n_blocks_sizes_def median_def get_block_reward_def MONEY_SUPPLY_def
      EMISSION_SPEED_FACTOR_def FINAL_SUBSIDY_PER_MINUTE_def CRYPTONOTE_BLOCK_GRANTED_FULL_REWARD_ZONE_def Let_def mask_eq_exp_minus_1)

lemma first_block_outs: "get_outs_money_amount first_miner_tx = 17592186044415"
  by code_simp

lemma first_block_accepted:
  "\<exists>bvc' s'. handle_block_to_main_chain first_env (first_block []) bvc_init (blockchain_storage_init t) = (True, bvc', s')"
proof -
  let ?s = "blockchain_storage_init t" and ?b = "first_block []"
  define cs where "cs = (of_nat (get_object_blobsize first_miner_tx) :: u64)"
  have mt: "miner_tx ?b = first_miner_tx" "tx_hashes ?b = []" by (simp_all add: first_block_def)
  have cb: "is_coinbase first_miner_tx" by (simp add: is_coinbase_def first_miner_tx_def)
  obtain s1 where s1: "add_transaction_from_block first_miner_tx (get_transaction_hash first_miner_tx) (get_current_blockchain_height ?s) cs ?s = (True, s1)"
    using add_transaction_succeeds [of first_miner_tx ?s] cb coinbase_no_images [OF cb] by (metis (full_types) init_simps(2) Int_empty_left list.set(1) distinct.simps(1) prod.collapse)
  have "block_part s1 = block_part ?s"
    using add_transaction_True(2) [OF _ _ _ s1, of "[]"] store_okD(2) [OF store_ok_init] cb by simp
  then have b1: "m_blocks s1 = []" "m_blocks_index s1 = Map.empty" by (simp_all add: block_part_def blockchain_storage_init_def)
  have v: "validate_miner_transaction s1 ?b cs 0 0 = Some 17592186044415"
    using first_block_base [of t] b1 by (simp add: validate_miner_transaction_def Let_def cs_def mt foldl_outs_money first_block_outs get_last_n_blocks_sizes_def)
  have "connect_block first_env ?b (get_block_hash ?b) d 0 cs bvc s1 = (True, bvc\<lparr>m_added_to_main_chain := True\<rparr>,
      snd (snd (connect_block first_env ?b (get_block_hash ?b) d 0 cs bvc s1)))" for d bvc
    using v b1 by (simp add: connect_block_def Let_def)
  then show ?thesis
    using first_block_checks [of t "[]"] s1
    unfolding handle_block_to_main_chain_def handle_block_to_main_chain_id_def block_checks_def Let_def mt cs_def [symmetric] by auto
qed

text \<open>
  C2. A block that \<open>handle_block_to_main_chain\<close> accepts extends the ledger by its coinbase transaction and by
  the transactions it names, in this order. It carries the work, the predecessor, the timestamp and the
  coinbase form its place in the chain asks for, no key image of the resulting ledger occurs twice, and
  every input of every added transaction has a ring signature over keys that are all outputs of the
  ledger with exactly the amount of that input.
\<close>

theorem accepted_block_checked:
  assumes "inj_on get_transaction_hash U" "store_ok U s" "miner_tx bl \<in> U"
    and "handle_block_to_main_chain env bl bvc s = (True, bvc', s')"
  shows "\<exists>txs. ledger_of s' = ledger_of s @ miner_entry bl # txs \<and> map fst txs = tx_hashes bl \<and> block_checks env s bl
    \<and> distinct (ledger_images (ledger_of s'))
    \<and> (\<forall>e \<in> set txs. \<forall>i < length (vin (snd e)). input_backed (env_ge env) (ledger_of s') (snd e) i)"
proof -
  obtain l' where S': "store_ok U s'" and A: "block_added env s bl l' s'" using handle_block_True [OF assms] by blast
  have led: "ledger_of s' = ledger_of s @ miner_entry bl # l'" and chk: "checked_on env s (ledger_of s @ [miner_entry bl]) l'"
    using A by (auto simp: block_added_def)
  have zone: "\<not> m_is_in_checkpoint_zone s" using store_okD(1) [OF assms(2)] by (simp add: chain_ok_def)
  have "distinct (ledger_images (ledger_of s'))" using ledger_okD(4) [OF store_okD(2) [OF S']] .
  then show ?thesis
    using A checked_on_backed [OF chk zone] led unfolding block_added_def by (intro exI [of _ l']) auto
qed

theorem accepted_block_checked_witness:
  "\<exists>bvc' s' txs. handle_block_to_main_chain first_env (first_block []) bvc_init (blockchain_storage_init True) = (True, bvc', s')
     \<and> ledger_of s' = ledger_of (blockchain_storage_init True) @ miner_entry (first_block []) # txs \<and> map fst txs = tx_hashes (first_block [])
     \<and> block_checks first_env (blockchain_storage_init True) (first_block [])"
proof -
  obtain bvc' s' where h: "handle_block_to_main_chain first_env (first_block []) bvc_init (blockchain_storage_init True) = (True, bvc', s')"
    using first_block_accepted by blast
  show ?thesis
    using accepted_block_checked [OF _ store_ok_init [of "{first_miner_tx}"] _ h] h by (auto simp: first_block_def)
qed

text \<open>
  C6. A block creates no money beyond the emission: what the coinbase transaction and the transactions of an
  accepted block pay out is the base reward that \<open>get_block_reward\<close> gives for the block plus what
  the transactions spend, as long as this total fits into 64 bits and the amounts of the transactions
  in the pool do not overflow.
\<close>

theorem block_creates_no_money:
  assumes "inj_on get_transaction_hash U" "store_ok U s" "miner_tx bl \<in> U"
    and "handle_block_to_main_chain env bl bvc s = (True, bvc', s')"
    and "\<forall>tx \<in> ran (pool_of s). check_money_overflow tx"
  shows "\<exists>txs base_reward.
      ledger_of s' = ledger_of s @ miner_entry bl # txs
    \<and> get_block_reward (median (the (get_last_n_blocks_sizes s CRYPTONOTE_REWARD_BLOCKS_WINDOW))) (block_cumulative_size (last (m_blocks s')))
        (if m_blocks s \<noteq> [] then already_generated_coins (last (m_blocks s)) else 0) = Some base_reward
    \<and> (unat base_reward + (\<Sum>e\<leftarrow>txs. sum_inputs (snd e)) < 2 ^ 64 \<longrightarrow>
        (\<Sum>e\<leftarrow>miner_entry bl # txs. sum_outputs (snd e)) = unat base_reward + (\<Sum>e\<leftarrow>txs. sum_inputs (snd e)))"
proof -
  obtain l' where S': "store_ok U s'" and A: "block_added env s bl l' s'" using handle_block_True [OF assms(1-4)] by blast
  have led: "ledger_of s' = ledger_of s @ miner_entry bl # l'" and pool: "pool_of s' ++ map_of l' = pool_of s"
    and adm: "\<forall>e \<in> set l'. pool_admissible (snd e)"
    using A by (auto simp: block_added_def)
  obtain bei where bei: "m_blocks s' = m_blocks s @ [bei]" "reward_paid s bl l' bei" using A by (auto simp: block_added_def)
  have "distinct (map fst (ledger_of s'))" using ledger_okD(1) [OF store_okD(2) [OF S']] .
  then have "distinct (map fst l')" unfolding led by simp
  then have "pool_of s (fst e) = Some (snd e)" if "e \<in> set l'" for e
    using that pool by (metis map_add_find_right map_of_eq_Some_iff prod.collapse)
  then have mo: "\<forall>e \<in> set l'. check_money_overflow (snd e) \<and> pool_admissible (snd e)"
    using assms(5) adm by (auto intro: ranI)
  show ?thesis
    using bei reward_accounts [OF mo, of bl] led unfolding reward_paid_def by (intro exI [of _ l']) auto
qed

theorem block_creates_no_money_witness:
  "\<exists>bvc' s' base_reward. handle_block_to_main_chain first_env (first_block []) bvc_init (blockchain_storage_init True) = (True, bvc', s')
     \<and> get_block_reward 0 (block_cumulative_size (last (m_blocks s'))) 0 = Some base_reward
     \<and> sum_outputs first_miner_tx = unat base_reward"
proof -
  let ?s = "blockchain_storage_init True"
  obtain bvc' s' where h: "handle_block_to_main_chain first_env (first_block []) bvc_init ?s = (True, bvc', s')"
    using first_block_accepted by blast
  have U: "inj_on get_transaction_hash {first_miner_tx}" "miner_tx (first_block []) \<in> {first_miner_tx}" by (simp_all add: first_block_def)
  have p: "\<forall>tx \<in> ran (pool_of ?s). check_money_overflow tx" by (simp add: ran_def)
  have m: "median (the (get_last_n_blocks_sizes ?s CRYPTONOTE_REWARD_BLOCKS_WINDOW)) = 0" by (simp add: get_last_n_blocks_sizes_def median_def)
  have e: "txs = []" if "map fst txs = tx_hashes (first_block [])" for txs :: "(hash \<times> transaction) list"
    using that by (simp add: first_block_def)
  have "ledger_of s' = [miner_entry (first_block [])]"
    using handle_block_True [OF U(1) store_ok_init U(2) h] e by (auto simp: block_added_def)
  then show ?thesis
    using block_creates_no_money [OF U(1) store_ok_init U(2) h p] h m by (auto simp: miner_entry_def first_block_def)
qed

text \<open>
  C5. A block that \<open>handle_block_to_main_chain\<close> rejects leaves no trace, however far it got: the blocks and
  their index, the size limit, the ledger, the spent key images, the output index and the set of pool
  transactions are those from before.
\<close>

theorem rejected_block_leaves_no_trace:
  assumes "inj_on get_transaction_hash U" "store_ok U s" "miner_tx bl \<in> U"
    and "handle_block_to_main_chain env bl bvc s = (False, bvc', s')"
  shows "block_part s' = block_part s \<and> (\<forall>h. get_tx s' h = get_tx s h) \<and> m_spent_keys s' = m_spent_keys s
    \<and> (\<forall>a. idx (m_outputs s') a = idx (m_outputs s) a) \<and> pool_of s' = pool_of s"
proof -
  have S': "store_ok U s'" and *: "block_part s' = block_part s" "ledger_of s' = ledger_of s" "pool_of s' = pool_of s"
    using handle_block_ok [OF assms] by blast+
  note L = ledger_okD [OF store_okD(2) [OF assms(2)]] and L' = ledger_okD [OF store_okD(2) [OF S']]
  show ?thesis using * L(2, 5, 6) L'(2, 5, 6) by simp
qed

theorem rejected_block_leaves_no_trace_witness:
  "\<exists>bvc' s'. handle_block_to_main_chain first_env (first_block [5]) bvc_init (blockchain_storage_init True) = (False, bvc', s')
     \<and> m_spent_keys s' = m_spent_keys (blockchain_storage_init True) \<and> block_part s' = block_part (blockchain_storage_init True)"
proof -
  let ?s = "blockchain_storage_init True"
  obtain r bvc' s' where h: "handle_block_to_main_chain first_env (first_block [5]) bvc_init ?s = (r, bvc', s')" by (metis prod_cases3)
  have U: "inj_on get_transaction_hash {first_miner_tx}" "miner_tx (first_block [5]) \<in> {first_miner_tx}" by (simp_all add: first_block_def)
  have nr: "\<not> r"
  proof
    assume r
    then have "handle_block_to_main_chain first_env (first_block [5]) bvc_init ?s = (True, bvc', s')" using h by simp
    from handle_block_True [OF U(1) store_ok_init U(2) this]
    obtain l' where A: "block_added first_env ?s (first_block [5]) l' s'" .
    then have "map fst l' = [5]" and p: "pool_of s' ++ map_of l' = pool_of ?s" by (auto simp: block_added_def first_block_def)
    then obtain tx where "l' = [(5, tx)]" by auto
    then have "(pool_of s' ++ map_of l') 5 = Some tx" by simp
    then show False unfolding p by simp
  qed
  then have f: "handle_block_to_main_chain first_env (first_block [5]) bvc_init ?s = (False, bvc', s')" using h by simp
  show ?thesis using rejected_block_leaves_no_trace [OF U(1) store_ok_init U(2) f] f by blast
qed

end
