(* ===== verification/Alternatives.thy ===== *)
theory Alternatives
  imports Main_Chain
begin

text \<open>
  \<open>src/cryptonote_core/blockchain_storage.cpp\<close>, alternative chains: blocks beside the main chain, the
  switch to an alternative chain with more work or with a checkpoint, the rollback of a failed switch,
  and \<open>add_new_block\<close>, which decides where a block belongs.

  The iterators into \<open>m_alternative_chains\<close> are pairs of key and value. A switch puts the blocks of the
  old chain back as alternative blocks, which may switch again: the first argument of
  \<open>handle_alternative_block\<close> bounds the depth of such nested switches. The result \<open>None\<close> means that this
  depth was exceeded or that the code runs into undefined behaviour.
\<close>

text \<open>
  \<open>for(size_t i = m_blocks.size()-1; i >= rollback_height; i--)\<close> pops \<open>m_blocks.size() - rollback_height\<close>
  blocks; for height 0 the comparison is always true, and the loop ends with a failure at the genesis block.
\<close>

fun pop_blocks :: "'p chain_env \<Rightarrow> nat \<Rightarrow> blockchain_storage \<Rightarrow> bool \<times> block list \<times> blockchain_storage" where
  "pop_blocks env 0 s = (True, [], s)"
| "pop_blocks env (Suc n) s =
     (let b = bei_bl (last (m_blocks s));
          (r, s) = pop_block_from_blockchain env s
      in if \<not> r then (False, [], s)
         else let (r, popped, s) = pop_blocks env n s in (r, popped @ [b], s))"

definition pop_count :: "blockchain_storage \<Rightarrow> nat \<Rightarrow> nat" where
  "pop_count s h = (if h = 0 then length (m_blocks s) + 1 else length (m_blocks s) - h)"

fun readd_blocks :: "'p chain_env \<Rightarrow> block list \<Rightarrow> blockchain_storage \<Rightarrow> bool \<times> blockchain_storage" where
  "readd_blocks env [] s = (True, s)"
| "readd_blocks env (bl # bls) s =
     (let (r, bvc, s) = handle_block_to_main_chain env bl bvc_init s
      in if \<not> (r \<and> m_added_to_main_chain bvc) then (False, s) else readd_blocks env bls s)"

definition rollback_blockchain_switching :: "'p chain_env \<Rightarrow> block list \<Rightarrow> nat \<Rightarrow> blockchain_storage \<Rightarrow> bool \<times> blockchain_storage" where
  "rollback_blockchain_switching env original_chain rollback_height s =
     (if rollback_height > length (m_blocks s) then (True, s)
      else
        let (r, popped, s) = pop_blocks env (pop_count s rollback_height) s
        in if \<not> r then (False, s) else readd_blocks env original_chain s)"

text \<open>
  After a failed switch the alternative blocks above the failed one are declared invalid. The loop
  variable is not the iterator it reads: with two or more such blocks the code reads the first one after
  it was erased, the case \<open>None\<close>.
\<close>

definition orphan_rest :: "(hash \<times> block_extended_info) list \<Rightarrow> blockchain_storage \<Rightarrow> blockchain_storage option" where
  "orphan_rest rest s =
     (case rest of
        [] \<Rightarrow> Some s
      | [(h, bei)] \<Rightarrow>
          let s = snd (add_bei_as_invalid bei h s)
          in Some (s\<lparr>m_alternative_chains := (m_alternative_chains s)(h := None)\<rparr>)
      | _ \<Rightarrow> None)"

text \<open>The loop that connects the alternative chain; \<open>Inl\<close> is the state after a failure, if defined.\<close>

fun connect_alternative :: "'p chain_env \<Rightarrow> block list \<Rightarrow> nat \<Rightarrow> (hash \<times> block_extended_info) list \<Rightarrow> blockchain_storage
    \<Rightarrow> blockchain_storage option + blockchain_storage" where
  "connect_alternative env disconnected split_height [] s = Inr s"
| "connect_alternative env disconnected split_height ((h, bei) # rest) s =
     (let (r, bvc, s) = handle_block_to_main_chain env (bei_bl bei) bvc_init s
      in if \<not> r \<or> \<not> m_added_to_main_chain bvc then
           let s = snd (rollback_blockchain_switching env disconnected split_height s);
               s = snd (add_bei_as_invalid bei (get_block_hash (bei_bl bei)) s);
               s = s\<lparr>m_alternative_chains := (m_alternative_chains s)(h := None)\<rparr>
           in Inl (orphan_rest rest s)
         else connect_alternative env disconnected split_height rest s)"

text \<open>The old chain goes back to the alternative chains; \<open>hab\<close> is \<open>handle_alternative_block\<close>.\<close>

type_synonym block_handler =
  "block \<Rightarrow> hash \<Rightarrow> block_verification_context \<Rightarrow> blockchain_storage \<Rightarrow> (bool \<times> block_verification_context \<times> blockchain_storage) option"

fun push_old_chain :: "block_handler \<Rightarrow> block list \<Rightarrow> blockchain_storage \<Rightarrow> (bool \<times> blockchain_storage) option" where
  "push_old_chain hab [] s = Some (True, s)"
| "push_old_chain hab (b # bs) s =
     (case hab b (get_block_hash b) bvc_init s of
        None \<Rightarrow> None
      | Some (r, bvc, s) \<Rightarrow> if \<not> r then Some (False, s) else push_old_chain hab bs s)"

fun erase_alternatives :: "hash list \<Rightarrow> blockchain_storage \<Rightarrow> blockchain_storage" where
  "erase_alternatives [] s = s"
| "erase_alternatives (h # hs) s = erase_alternatives hs (s\<lparr>m_alternative_chains := (m_alternative_chains s)(h := None)\<rparr>)"

definition switch_to_alternative_blockchain :: "block_handler \<Rightarrow> 'p chain_env \<Rightarrow> (hash \<times> block_extended_info) list \<Rightarrow> bool
    \<Rightarrow> blockchain_storage \<Rightarrow> (bool \<times> blockchain_storage) option" where
  "switch_to_alternative_blockchain hab env alt_chain discard_disconnected_chain s =
     (if alt_chain = [] then Some (False, s)
      else
        let split_height = unat (bei_height (snd (hd alt_chain)))
        in if \<not> length (m_blocks s) > split_height then Some (False, s)
           else
             let (r, disconnected, s) = pop_blocks env (pop_count s split_height) s
             in if \<not> r then Some (False, s)
                else case connect_alternative env disconnected split_height alt_chain s of
                  Inl None \<Rightarrow> None
                | Inl (Some s) \<Rightarrow> Some (False, s)
                | Inr s \<Rightarrow>
                    (case (if discard_disconnected_chain then Some (True, s) else push_old_chain hab disconnected s) of
                       None \<Rightarrow> None
                     | Some (r, s) \<Rightarrow>
                         if \<not> r then Some (False, snd (rollback_blockchain_switching env disconnected split_height s))
                         else Some (True, erase_alternatives (map fst alt_chain) s)))"

text \<open>The walk from a block along \<open>prev_id\<close> through the alternative blocks, the oldest one first in the result.\<close>

partial_function (option) alt_chain_walk :: "(hash \<rightharpoonup> block_extended_info) \<Rightarrow> hash \<Rightarrow> (hash \<times> block_extended_info) list
    \<Rightarrow> (hash \<times> block_extended_info) list option" where
  "alt_chain_walk alts h acc =
     (case alts h of None \<Rightarrow> Some acc | Some e \<Rightarrow> alt_chain_walk alts (prev_id (bei_bl e)) ((h, e) # acc))"

fun complete_loop :: "blockchain_storage \<Rightarrow> nat \<Rightarrow> nat \<Rightarrow> u64 list \<Rightarrow> u64 list" where
  "complete_loop s stop_offset h timestamps =
     (let timestamps = timestamps @ [timestamp (bei_bl (m_blocks s ! h))]
      in if h = 0 then timestamps
         else if h - 1 = stop_offset then timestamps
         else complete_loop s stop_offset (h - 1) timestamps)"

declare complete_loop.simps [simp del]

definition complete_timestamps_vector :: "blockchain_storage \<Rightarrow> nat \<Rightarrow> u64 list \<Rightarrow> bool \<times> u64 list" where
  "complete_timestamps_vector s start_top_height timestamps =
     (if length timestamps \<ge> BLOCKCHAIN_TIMESTAMP_CHECK_WINDOW then (True, timestamps)
      else
        let need_elements = BLOCKCHAIN_TIMESTAMP_CHECK_WINDOW - length timestamps
        in if \<not> start_top_height < length (m_blocks s) then (False, timestamps)
           else
             let stop_offset = (if start_top_height > need_elements then start_top_height - need_elements else 0)
             in (True, complete_loop s stop_offset start_top_height timestamps))"

definition get_next_difficulty_for_alternative_chain :: "blockchain_storage \<Rightarrow> (hash \<times> block_extended_info) list \<Rightarrow> block_extended_info \<Rightarrow> u64" where
  "get_next_difficulty_for_alternative_chain s alt_chain bei =
     (if length alt_chain < DIFFICULTY_BLOCKS_COUNT then
        let main_chain_stop_offset = unat (if alt_chain \<noteq> [] then bei_height (snd (hd alt_chain)) else bei_height bei);
            main_chain_count = DIFFICULTY_BLOCKS_COUNT - min DIFFICULTY_BLOCKS_COUNT (length alt_chain);
            main_chain_count = min main_chain_count main_chain_stop_offset;
            main_chain_start_offset = main_chain_stop_offset - main_chain_count;
            main_chain_start_offset = (if main_chain_start_offset = 0 then main_chain_start_offset + 1 else main_chain_start_offset);
            window = map (\<lambda>i. m_blocks s ! i) [main_chain_start_offset..<main_chain_stop_offset]
        in if \<not> length alt_chain + length window \<le> DIFFICULTY_BLOCKS_COUNT then 0
           else
             let window = window @ map snd alt_chain
             in next_difficulty (map (\<lambda>e. timestamp (bei_bl e)) window) (map cumulative_difficulty window) DIFFICULTY_TARGET
      else
        let window = map snd (rev (take DIFFICULTY_BLOCKS_COUNT (rev alt_chain)))
        in next_difficulty (map (\<lambda>e. timestamp (bei_bl e)) window) (map cumulative_difficulty window) DIFFICULTY_TARGET)"

text \<open>The timestamps before an alternative block, or \<open>None\<close> where its chain does not connect to the main chain.\<close>

definition alt_timestamps :: "blockchain_storage \<Rightarrow> (hash \<times> block_extended_info) list \<Rightarrow> hash \<Rightarrow> u64 list option" where
  "alt_timestamps s alt_chain prev =
     (let timestamps = map (\<lambda>e. timestamp (bei_bl (snd e))) (rev alt_chain)
      in if alt_chain \<noteq> [] then
           let front = snd (hd alt_chain)
           in if \<not> length (m_blocks s) > unat (bei_height front) then None
              else if get_block_hash (bei_bl (m_blocks s ! (unat (bei_height front) - 1))) \<noteq> prev_id (bei_bl front) then None
              else Some (snd (complete_timestamps_vector s (unat (bei_height front) - 1) timestamps))
         else case m_blocks_index s prev of
           None \<Rightarrow> None
         | Some i \<Rightarrow> Some (snd (complete_timestamps_vector s i timestamps)))"

definition alt_bei :: "blockchain_storage \<Rightarrow> block \<Rightarrow> block_extended_info" where
  "alt_bei s b = \<lparr>bei_bl = b,
     bei_height = (case m_alternative_chains s (prev_id b) of
        Some e \<Rightarrow> bei_height e + 1
      | None \<Rightarrow> of_nat (the (m_blocks_index s (prev_id b))) + 1),
     block_cumulative_size = 0, cumulative_difficulty = 0, already_generated_coins = 0\<rparr>"

text \<open>The end of \<open>handle_alternative_block\<close>: the block is stored, and the chain is switched if it is the better one.\<close>

definition insert_alternative :: "block_handler \<Rightarrow> 'p chain_env \<Rightarrow> block_extended_info \<Rightarrow> hash \<Rightarrow> (hash \<times> block_extended_info) list \<Rightarrow> bool
    \<Rightarrow> block_verification_context \<Rightarrow> blockchain_storage \<Rightarrow> (bool \<times> block_verification_context \<times> blockchain_storage) option" where
  "insert_alternative hab env bei h alt_chain is_a_checkpoint bvc s =
     (if m_alternative_chains s h \<noteq> None then Some (False, bvc, s)
      else
        let s = s\<lparr>m_alternative_chains := (m_alternative_chains s)(h \<mapsto> bei)\<rparr>;
            alt_chain = alt_chain @ [(h, bei)]
        in if is_a_checkpoint \<or> cumulative_difficulty (last (m_blocks s)) < cumulative_difficulty bei then
             (case switch_to_alternative_blockchain hab env alt_chain is_a_checkpoint s of
                None \<Rightarrow> None
              | Some (r, s) \<Rightarrow> Some (r, if r then bvc\<lparr>m_added_to_main_chain := True\<rparr> else set_failed bvc, s))
           else Some (True, bvc, s))"

primrec handle_alternative_block :: "nat \<Rightarrow> 'p chain_env \<Rightarrow> block_handler" where
  "handle_alternative_block 0 env = (\<lambda>b h bvc s. None)"
| "handle_alternative_block (Suc depth) env = (\<lambda>b h bvc s.
     let block_height = get_block_height b
     in if 0 = block_height then Some (False, set_failed bvc, s)
        else if \<not> is_alternative_block_allowed (m_checkpoints s) (get_current_blockchain_height s) block_height
          then Some (False, set_failed bvc, s)
        else if m_alternative_chains s (prev_id b) = None \<and> m_blocks_index s (prev_id b) = None
          then Some (True, bvc\<lparr>m_marked_as_orphaned := True\<rparr>, s)
        else case alt_chain_walk (m_alternative_chains s) (prev_id b) [] of
          None \<Rightarrow> None
        | Some alt_chain \<Rightarrow>
            if alt_chain \<noteq> [] \<and> bei_height (snd (hd alt_chain)) = 0 then None
            else case alt_timestamps s alt_chain (prev_id b) of
              None \<Rightarrow> Some (False, bvc, s)
            | Some timestamps \<Rightarrow>
                if \<not> check_block_timestamp timestamps b then Some (False, set_failed bvc, s)
                else
                  let bei = alt_bei s b;
                      (ok, is_a_checkpoint) = check_block_point (m_checkpoints s) (bei_height bei) h
                  in if \<not> ok then Some (False, set_failed bvc, s)
                     else
                       let s = s\<lparr>m_is_in_checkpoint_zone := False\<rparr>;
                           current_diff = get_next_difficulty_for_alternative_chain s alt_chain bei
                       in if current_diff = 0 then Some (False, bvc, s)
                          else if \<not> check_hash (get_block_longhash (env_slow_hash env) (bei_bl bei) (bei_height bei)) current_diff
                            then Some (False, set_failed bvc, s)
                          else if \<not> prevalidate_miner_transaction b (bei_height bei) then Some (False, set_failed bvc, s)
                          else
                            let bei = bei\<lparr>cumulative_difficulty := (case m_alternative_chains s (prev_id b) of
                                    Some e \<Rightarrow> cumulative_difficulty e
                                  | None \<Rightarrow> cumulative_difficulty (m_blocks s ! the (m_blocks_index s (prev_id b)))) + current_diff\<rparr>
                            in insert_alternative (handle_alternative_block depth env) env bei h alt_chain is_a_checkpoint bvc s)"

definition add_new_block :: "nat \<Rightarrow> 'p chain_env \<Rightarrow> block \<Rightarrow> block_verification_context \<Rightarrow> blockchain_storage
    \<Rightarrow> (bool \<times> block_verification_context \<times> blockchain_storage) option" where
  "add_new_block depth env bl bvc s =
     (let h = get_block_hash bl
      in if have_block s h then Some (False, bvc\<lparr>m_already_exists := True\<rparr>, s)
         else if \<not> prev_id bl = get_tail_id s
           then handle_alternative_block depth env bl h (bvc\<lparr>m_added_to_main_chain := False\<rparr>) s
         else Some (handle_block_to_main_chain_id env bl h bvc s))"

definition reset_and_set_genesis_block :: "nat \<Rightarrow> 'p chain_env \<Rightarrow> block \<Rightarrow> blockchain_storage \<Rightarrow> (bool \<times> blockchain_storage) option" where
  "reset_and_set_genesis_block depth env b s =
     (let s = s\<lparr>m_transactions := Map.empty, m_spent_keys := {}, m_blocks := [], m_blocks_index := Map.empty,
            m_alternative_chains := Map.empty, m_outputs := Map.empty\<rparr>
      in case add_new_block depth env b bvc_init s of
           None \<Rightarrow> None
         | Some (r, bvc, s) \<Rightarrow> Some (m_added_to_main_chain bvc \<and> \<not> bvc_verifivation_failed bvc, s))"

fun check_points_loop :: "'p chain_env \<Rightarrow> points \<Rightarrow> bool \<Rightarrow> points \<Rightarrow> blockchain_storage \<Rightarrow> blockchain_storage" where
  "check_points_loop env pts enforce [] s = s"
| "check_points_loop env pts enforce ((h, c) # rest) s =
     (if unat h \<ge> length (m_blocks s) then check_points_loop env pts enforce rest s
      else if \<not> check_block pts h (get_block_hash (bei_bl (m_blocks s ! unat h))) \<and> enforce
        then check_points_loop env pts enforce rest (snd (rollback_blockchain_switching env [] (unat (h - 2)) s))
      else check_points_loop env pts enforce rest s)"

definition check_against_checkpoints :: "'p chain_env \<Rightarrow> points \<Rightarrow> bool \<Rightarrow> blockchain_storage \<Rightarrow> blockchain_storage" where
  "check_against_checkpoints env pts enforce s = check_points_loop env pts enforce pts s"

text \<open>
  \<open>update_checkpoints\<close>: \<open>hashlines\<close> is the content of the JSON file and \<open>query\<close> gives the DNS records of
  the test network or of the main network.
\<close>

definition update_checkpoints :: "'p chain_env \<Rightarrow> (u64 \<times> blob) list option \<Rightarrow> (bool \<Rightarrow> nat \<Rightarrow> blob list \<times> bool \<times> bool) \<Rightarrow> nat \<Rightarrow> bool
    \<Rightarrow> blockchain_storage \<Rightarrow> (bool \<times> blockchain_storage) option" where
  "update_checkpoints env hashlines query first_index check_dns s =
     (case load_checkpoints_from_json hashlines (m_checkpoints s) of
        None \<Rightarrow> None
      | Some (r, pts) \<Rightarrow>
          let s = s\<lparr>m_checkpoints := pts\<rparr>
          in if \<not> r then Some (False, s)
             else if m_enforce_dns_checkpoints s \<and> check_dns then
               (case load_checkpoints_from_dns (query False) first_index (m_checkpoints s) of
                  None \<Rightarrow> None
                | Some (r, pts) \<Rightarrow>
                    let s = s\<lparr>m_checkpoints := pts\<rparr>
                    in if \<not> r then Some (False, s) else Some (True, check_against_checkpoints env (m_checkpoints s) True s))
             else if check_dns then
               (case load_checkpoints_from_dns (query (m_testnet s)) first_index [] of
                  None \<Rightarrow> None
                | Some (_, dns_points) \<Rightarrow>
                    let s = (if check_for_conflicts (m_checkpoints s) dns_points
                             then check_against_checkpoints env dns_points False s else s)
                    in Some (True, check_against_checkpoints env (m_checkpoints s) True s))
             else Some (True, check_against_checkpoints env (m_checkpoints s) True s))"

definition set_enforce_dns_checkpoints :: "bool \<Rightarrow> blockchain_storage \<Rightarrow> blockchain_storage" where
  "set_enforce_dns_checkpoints enforce_checkpoints s = s\<lparr>m_enforce_dns_checkpoints := enforce_checkpoints\<rparr>"

subsection \<open>The invariant with alternative chains\<close>

text \<open>
  \<open>V\<close> are the blocks of a run, whose ids are assumed not to collide. An alternative block is stored under
  its id, knows its height, and is one higher than the block it refers to.
\<close>

definition alt_entry_ok :: "block set \<Rightarrow> hash \<Rightarrow> block_extended_info \<Rightarrow> bool" where
  "alt_entry_ok V h e \<longleftrightarrow>
     bei_bl e \<in> V \<and> bhash e = h \<and> bei_height e = get_block_height (bei_bl e) \<and> bei_height e \<noteq> 0
     \<and> (\<exists>p \<in> V. get_block_hash p = prev_id (bei_bl e) \<and> bei_height e = get_block_height p + 1)"

definition alt_ok :: "block set \<Rightarrow> (hash \<rightharpoonup> block_extended_info) \<Rightarrow> bool" where
  "alt_ok V alts \<longleftrightarrow> (\<forall>h e. alts h = Some e \<longrightarrow> alt_entry_ok V h e)"

definition main_ok :: "block set \<Rightarrow> blockchain_storage \<Rightarrow> bool" where
  "main_ok V s \<longleftrightarrow> (\<forall>e \<in> set (m_blocks s). bei_bl e \<in> V \<and> get_block_height (bei_bl e) = bei_height e)"

definition chains_ok :: "transaction set \<Rightarrow> block set \<Rightarrow> blockchain_storage \<Rightarrow> bool" where
  "chains_ok U V s \<longleftrightarrow> store_ok U s \<and> main_ok V s \<and> alt_ok V (m_alternative_chains s)"

text \<open>The transactions and blocks of a run, without collisions of their hashes.\<close>

definition universe_ok :: "transaction set \<Rightarrow> block set \<Rightarrow> bool" where
  "universe_ok U V \<longleftrightarrow> inj_on get_transaction_hash U \<and> inj_on get_block_hash V \<and> miner_tx ` V \<subseteq> U"

lemma chains_okD:
  assumes "chains_ok U V s"
  shows "store_ok U s" "main_ok V s" "alt_ok V (m_alternative_chains s)"
  using assms by (auto simp: chains_ok_def)

lemma alt_ok_erase: "alt_ok V alts \<Longrightarrow> alt_ok V (alts(h := None))"
  by (simp add: alt_ok_def)

lemma store_ok_frame [simp]:
  "store_ok U (s\<lparr>m_alternative_chains := x1\<rparr>) = store_ok U s" "store_ok U (s\<lparr>m_invalid_blocks := x2\<rparr>) = store_ok U s"
  by (simp_all add: store_ok_def chain_ok_def ledger_of_def chain_ids_def block_ok_def pool_part_ok_def)

lemma chains_ok_frame:
  "chains_ok U V s \<Longrightarrow> chains_ok U V (s\<lparr>m_alternative_chains := (m_alternative_chains s)(h := None)\<rparr>)"
  "chains_ok U V s \<Longrightarrow> chains_ok U V (snd (add_bei_as_invalid bei h s))"
  by (simp_all add: chains_ok_def main_ok_def alt_ok_erase add_bei_as_invalid_def)

lemma prevalidate_height: "prevalidate_miner_transaction b h \<Longrightarrow> get_block_height b = h"
  by (auto simp: prevalidate_miner_transaction_def get_block_height_def split: if_splits txin.splits)

lemma handle_block_chains:
  assumes "universe_ok U V" "chains_ok U V s" "bl \<in> V" "handle_block_to_main_chain env bl bvc s = (r, bvc', s')"
  shows "chains_ok U V s'" "m_added_to_main_chain bvc' = (m_added_to_main_chain bvc \<or> r)"
    "m_alternative_chains s' = m_alternative_chains s" "m_checkpoints s' = m_checkpoints s"
    "map bei_bl (m_blocks s') = map bei_bl (m_blocks s) @ (if r then [bl] else [])"
proof -
  note C = chains_okD [OF assms(2)]
  have U: "inj_on get_transaction_hash U" "miner_tx bl \<in> U" using assms(1, 3) by (auto simp: universe_ok_def)
  note H = handle_block_ok [OF U(1) C(1) U(2) assms(4)]
  have "main_ok V s' \<and> m_alternative_chains s' = m_alternative_chains s \<and> m_checkpoints s' = m_checkpoints s
    \<and> map bei_bl (m_blocks s') = map bei_bl (m_blocks s) @ (if r then [bl] else [])
    \<and> m_added_to_main_chain bvc' = (m_added_to_main_chain bvc \<or> r)"
  proof (cases r)
    case False
    then have "block_part s' = block_part s" "m_added_to_main_chain bvc' = m_added_to_main_chain bvc" using H by auto
    then show ?thesis using False C(2) block_part_eqD [of s' s] by (simp add: main_ok_def)
  next
    case True
    then obtain l' where added: "block_added env s bl l' s'" "m_added_to_main_chain bvc'" using H by blast
    then obtain bei where bei: "m_blocks s' = m_blocks s @ [bei]" "bei_bl bei = bl" by (auto simp: block_added_def)
    have "bei_height (m_blocks s' ! length (m_blocks s)) = of_nat (length (m_blocks s))"
      using H store_okD(1) [of U s'] bei(1) unfolding chain_ok_def by auto
    then have "bei_height bei = of_nat (length (m_blocks s))" using bei(1) by simp
    moreover have "get_block_height bl = of_nat (length (m_blocks s))"
      using added(1) prevalidate_height by (simp add: block_added_def block_checks_def get_current_blockchain_height_def)
    ultimately have "main_ok V s'" using C(2) assms(3) bei by (simp add: main_ok_def)
    then show ?thesis using True added bei by (simp add: block_added_def)
  qed
  then show "chains_ok U V s'" "m_added_to_main_chain bvc' = (m_added_to_main_chain bvc \<or> r)"
    "m_alternative_chains s' = m_alternative_chains s" "m_checkpoints s' = m_checkpoints s"
    "map bei_bl (m_blocks s') = map bei_bl (m_blocks s) @ (if r then [bl] else [])"
    using H C(3) by (auto simp: chains_ok_def)
qed

lemma pop_block_chains:
  assumes "chains_ok U V s" "pop_block_from_blockchain env s = (r, s')"
  shows "chains_ok U V s'" "m_alternative_chains s' = m_alternative_chains s" "m_checkpoints s' = m_checkpoints s"
    "r \<longleftrightarrow> length (m_blocks s) > 1" "map bei_bl (m_blocks s') = (if r then butlast else id) (map bei_bl (m_blocks s))"
proof -
  note C = chains_okD [OF assms(1)]
  have "chains_ok U V s' \<and> m_alternative_chains s' = m_alternative_chains s \<and> m_checkpoints s' = m_checkpoints s
    \<and> (r \<longleftrightarrow> length (m_blocks s) > 1) \<and> map bei_bl (m_blocks s') = (if r then butlast else id) (map bei_bl (m_blocks s))"
  proof (cases "length (m_blocks s) > 1")
    case False
    then have "r = False" "s' = s" using assms(2) by (auto simp: pop_block_from_blockchain_def)
    then show ?thesis using assms(1) False by simp
  next
    case True
    then obtain bs e where be: "m_blocks s = bs @ [e]" "bs \<noteq> []" by (cases "m_blocks s" rule: rev_cases) auto
    from pop_block_ok [OF C(1) be, of env] assms(2) True C(2, 3) be show ?thesis
      by (auto simp: chains_ok_def main_ok_def butlast_append)
  qed
  then show "chains_ok U V s'" "m_alternative_chains s' = m_alternative_chains s" "m_checkpoints s' = m_checkpoints s"
    "r \<longleftrightarrow> length (m_blocks s) > 1" "map bei_bl (m_blocks s') = (if r then butlast else id) (map bei_bl (m_blocks s))"
    by auto
qed

lemma pop_blocks_chains:
  assumes "chains_ok U V s" "pop_blocks env n s = (r, popped, s')"
  shows "chains_ok U V s'" "m_alternative_chains s' = m_alternative_chains s" "m_checkpoints s' = m_checkpoints s" "set popped \<subseteq> V"
    "r \<Longrightarrow> map bei_bl (m_blocks s) = map bei_bl (m_blocks s') @ popped \<and> length popped = n"
    "n < length (m_blocks s) \<Longrightarrow> r"
proof -
  have "chains_ok U V s' \<and> m_alternative_chains s' = m_alternative_chains s \<and> m_checkpoints s' = m_checkpoints s \<and> set popped \<subseteq> V
    \<and> (r \<longrightarrow> map bei_bl (m_blocks s) = map bei_bl (m_blocks s') @ popped \<and> length popped = n) \<and> (n < length (m_blocks s) \<longrightarrow> r)"
    using assms
  proof (induction n arbitrary: s r popped s')
    case (Suc n)
    obtain r1 s1 where s1: "pop_block_from_blockchain env s = (r1, s1)" by fastforce
    note P = pop_block_chains [OF Suc.prems(1) s1]
    show ?case
    proof (cases r1)
      case False
      then show ?thesis using Suc.prems(2) s1 P(1-4) by (auto simp: Let_def)
    next
      case True
      obtain r2 popped2 s2 where s2: "pop_blocks env n s1 = (r2, popped2, s2)" by (cases "pop_blocks env n s1")
      have eq: "r = r2" "popped = popped2 @ [bei_bl (last (m_blocks s))]" "s' = s2"
        using Suc.prems(2) s1 s2 True by (auto simp: Let_def)
      have ne: "m_blocks s \<noteq> []" using P(4) True by auto
      have len: "length (m_blocks s1) = length (m_blocks s) - 1" using arg_cong [OF P(5), of length] True by simp
      have V: "bei_bl (last (m_blocks s)) \<in> V" using chains_okD(2) [OF Suc.prems(1)] ne by (simp add: main_ok_def)
      have app: "map bei_bl (m_blocks s) = map bei_bl (m_blocks s1) @ [bei_bl (last (m_blocks s))]"
        using P(5) True ne append_butlast_last_id [of "map bei_bl (m_blocks s)"] by (simp add: last_map)
      show ?thesis using Suc.IH [OF P(1) s2] P(2, 3) V eq app len by auto
    qed
  qed auto
  then show "chains_ok U V s'" "m_alternative_chains s' = m_alternative_chains s" "m_checkpoints s' = m_checkpoints s" "set popped \<subseteq> V"
    "r \<Longrightarrow> map bei_bl (m_blocks s) = map bei_bl (m_blocks s') @ popped \<and> length popped = n"
    "n < length (m_blocks s) \<Longrightarrow> r"
    by blast+
qed

lemma readd_blocks_chains:
  assumes "universe_ok U V" "chains_ok U V s" "set bls \<subseteq> V" "readd_blocks env bls s = (r, s')"
  shows "chains_ok U V s'" "m_alternative_chains s' = m_alternative_chains s" "m_checkpoints s' = m_checkpoints s"
    "r \<Longrightarrow> map bei_bl (m_blocks s') = map bei_bl (m_blocks s) @ bls"
proof -
  have "chains_ok U V s' \<and> m_alternative_chains s' = m_alternative_chains s \<and> m_checkpoints s' = m_checkpoints s
    \<and> (r \<longrightarrow> map bei_bl (m_blocks s') = map bei_bl (m_blocks s) @ bls)"
    using assms(2-)
  proof (induction bls arbitrary: s)
    case (Cons bl bls)
    obtain r1 bvc s1 where s1: "handle_block_to_main_chain env bl bvc_init s = (r1, bvc, s1)" by (cases "handle_block_to_main_chain env bl bvc_init s")
    have bl: "bl \<in> V" "set bls \<subseteq> V" using Cons.prems(2) by auto
    note H = handle_block_chains [OF assms(1) Cons.prems(1) bl(1) s1]
    show ?case
    proof (cases "r1 \<and> m_added_to_main_chain bvc")
      case False
      then have "r = False" "s' = s1" using Cons.prems(3) s1 by auto
      then show ?thesis using H by simp
    next
      case True
      then have rest: "readd_blocks env bls s1 = (r, s')" using Cons.prems(3) s1 by simp
      show ?thesis using Cons.IH [OF H(1) bl(2) rest] H(3-5) True by simp
    qed
  qed auto
  then show "chains_ok U V s'" "m_alternative_chains s' = m_alternative_chains s" "m_checkpoints s' = m_checkpoints s"
    "r \<Longrightarrow> map bei_bl (m_blocks s') = map bei_bl (m_blocks s) @ bls"
    by blast+
qed

lemma rollback_chains:
  assumes "universe_ok U V" "chains_ok U V s" "set bls \<subseteq> V" "rollback_blockchain_switching env bls h s = (r, s')"
  shows "chains_ok U V s'" "m_alternative_chains s' = m_alternative_chains s" "m_checkpoints s' = m_checkpoints s"
proof -
  have "chains_ok U V s' \<and> m_alternative_chains s' = m_alternative_chains s \<and> m_checkpoints s' = m_checkpoints s"
  proof (cases "h > length (m_blocks s)")
    case True
    then show ?thesis using assms(2, 4) by (auto simp: rollback_blockchain_switching_def)
  next
    case False
    obtain r1 popped s1 where s1: "pop_blocks env (pop_count s h) s = (r1, popped, s1)" by (cases "pop_blocks env (pop_count s h) s")
    note P = pop_blocks_chains [OF assms(2) s1]
    show ?thesis
    proof (cases r1)
      case True
      then have "readd_blocks env bls s1 = (r, s')" using assms(4) s1 False by (simp add: rollback_blockchain_switching_def)
      then show ?thesis using readd_blocks_chains [OF assms(1) P(1) assms(3)] P(2, 3) by metis
    qed (use assms(4) s1 False P in \<open>auto simp: rollback_blockchain_switching_def\<close>)
  qed
  then show "chains_ok U V s'" "m_alternative_chains s' = m_alternative_chains s" "m_checkpoints s' = m_checkpoints s" by blast+
qed

text \<open>The path from a block along \<open>prev_id\<close> through the alternative blocks, up to the first block that is none.\<close>

fun alt_path :: "(hash \<rightharpoonup> block_extended_info) \<Rightarrow> hash \<Rightarrow> (hash \<times> block_extended_info) list \<Rightarrow> bool" where
  "alt_path alts h [] \<longleftrightarrow> alts h = None"
| "alt_path alts h (p # ps) \<longleftrightarrow> fst p = h \<and> alts h = Some (snd p) \<and> alt_path alts (prev_id (bei_bl (snd p))) ps"

definition heights_decrease :: "(hash \<rightharpoonup> block_extended_info) \<Rightarrow> bool" where
  "heights_decrease alts \<longleftrightarrow> (\<forall>h e e'. alts h = Some e \<longrightarrow> alts (prev_id (bei_bl e)) = Some e' \<longrightarrow> bei_height e' < bei_height e)"

lemma alt_walk_path:
  assumes "heights_decrease alts"
  shows "\<exists>p. alt_chain_walk alts h acc = Some (rev p @ acc) \<and> alt_path alts h p"
proof (induction "case alts h of None \<Rightarrow> 0 | Some e \<Rightarrow> Suc (unat (bei_height e))" arbitrary: h acc rule: less_induct)
  case less
  show ?case
  proof (cases "alts h")
    case None
    then have "alt_chain_walk alts h acc = Some acc" by (subst alt_chain_walk.simps) simp
    then show ?thesis using None by (intro exI [of _ "[]"]) simp
  next
    case (Some e)
    let ?k = "prev_id (bei_bl e)"
    have "(case alts ?k of None \<Rightarrow> 0 | Some e' \<Rightarrow> Suc (unat (bei_height e'))) < Suc (unat (bei_height e))"
      using assms Some by (auto simp: heights_decrease_def word_less_nat_alt split: option.split)
    then obtain p where p: "alt_chain_walk alts ?k ((h, e) # acc) = Some (rev p @ (h, e) # acc)" "alt_path alts ?k p"
      using less.hyps [of ?k "(h, e) # acc"] Some by auto
    have "alt_chain_walk alts h acc = Some (rev p @ (h, e) # acc)" using p(1) Some by (subst alt_chain_walk.simps) simp
    then show ?thesis using p(2) Some by (intro exI [of _ "(h, e) # p"]) simp
  qed
qed

lemma alt_ok_heights:
  assumes "inj_on get_block_hash V" "alt_ok V alts"
  shows "heights_decrease alts"
  unfolding heights_decrease_def
proof (intro allI impI)
  fix h e e' assume h: "alts h = Some e" and k: "alts (prev_id (bei_bl e)) = Some e'"
  have e: "alt_entry_ok V h e" and e': "alt_entry_ok V (prev_id (bei_bl e)) e'" using assms(2) h k by (auto simp: alt_ok_def)
  have pos: "bei_height e \<noteq> 0" using e unfolding alt_entry_ok_def by blast
  obtain p where p: "p \<in> V" "get_block_hash p = prev_id (bei_bl e)" "bei_height e = get_block_height p + 1"
    using e by (auto simp: alt_entry_ok_def)
  have f: "bei_bl e' \<in> V" "bhash e' = prev_id (bei_bl e)" "bei_height e' = get_block_height (bei_bl e')"
    using e' unfolding alt_entry_ok_def by blast+
  have "bei_bl e' = p" using inj_onD [OF assms(1), of "bei_bl e'" p] f p(1, 2) by simp
  then have h: "bei_height e = bei_height e' + 1" using p(3) f(3) by simp
  then have "1 + bei_height e' \<noteq> 0" using pos by (simp add: add.commute)
  then show "bei_height e' < bei_height e" using h by (simp add: unatSuc add.commute word_less_nat_alt)
qed

lemma alt_walk_terminates:
  assumes "inj_on get_block_hash V" "alt_ok V alts"
  shows "\<exists>c. alt_chain_walk alts h acc = Some c"
  using alt_walk_path [OF alt_ok_heights [OF assms]] by blast

lemma alt_walk_set:
  assumes "alt_chain_walk alts h acc = Some c"
  shows "set c \<subseteq> set acc \<union> {(h, e). alts h = Some e}"
proof (rule alt_chain_walk.raw_induct [OF _ assms])
  fix walk alts h acc c
  assume 1: "\<And>alts h acc c. walk alts h acc = Some c \<Longrightarrow> set c \<subseteq> set acc \<union> {(h, e). alts h = Some e}"
    "(case alts h of None \<Rightarrow> Some acc | Some e \<Rightarrow> walk alts (prev_id (bei_bl e)) ((h, e) # acc)) = Some c"
  show "set c \<subseteq> set acc \<union> {(h, e). alts h = Some e}"
  proof (cases "alts h")
    case None
    then show ?thesis using 1(2) by simp
  next
    case (Some e)
    then have "set c \<subseteq> set ((h, e) # acc) \<union> {(h, e). alts h = Some e}" using 1(1) [of alts _ "(h, e) # acc" c] 1(2) by simp
    then show ?thesis using Some by auto
  qed
qed

lemma alt_walk_ok:
  assumes "alt_ok V alts" "alt_chain_walk alts h [] = Some c" "e \<in> set c"
  shows "alt_entry_ok V (fst e) (snd e)"
  using alt_walk_set [OF assms(2)] assms(1, 3) by (auto simp: alt_ok_def)

lemma orphan_rest_chains: "chains_ok U V s \<Longrightarrow> orphan_rest rest s = Some s' \<Longrightarrow> chains_ok U V s'"
  by (auto simp: orphan_rest_def Let_def intro: chains_ok_frame split: list.splits prod.splits)

lemma connect_alternative_chains:
  assumes "universe_ok U V" "set disconnected \<subseteq> V" "chains_ok U V s" "bei_bl ` snd ` set alt \<subseteq> V"
  shows "case connect_alternative env disconnected split_height alt s of
      Inl None \<Rightarrow> True | Inl (Some s') \<Rightarrow> chains_ok U V s'
    | Inr s' \<Rightarrow> chains_ok U V s' \<and> map bei_bl (m_blocks s') = map bei_bl (m_blocks s) @ map (\<lambda>e. bei_bl (snd e)) alt"
  using assms(3, 4)
proof (induction alt arbitrary: s)
  case (Cons a alt)
  obtain h bei where a: "a = (h, bei)" by (cases a)
  obtain r bvc s1 where s1: "handle_block_to_main_chain env (bei_bl bei) bvc_init s = (r, bvc, s1)"
    by (cases "handle_block_to_main_chain env (bei_bl bei) bvc_init s")
  have V: "bei_bl bei \<in> V" "bei_bl ` snd ` set alt \<subseteq> V" using Cons.prems(2) by (auto simp: a)
  note H = handle_block_chains [OF assms(1) Cons.prems(1) V(1) s1]
  show ?case
  proof (cases "\<not> r \<or> \<not> m_added_to_main_chain bvc")
    case True
    define s2 where "s2 = snd (rollback_blockchain_switching env disconnected split_height s1)"
    define s3 where "s3 = snd (add_bei_as_invalid bei (get_block_hash (bei_bl bei)) s2)"
    define s4 where "s4 = s3\<lparr>m_alternative_chains := (m_alternative_chains s3)(h := None)\<rparr>"
    have "chains_ok U V s2" unfolding s2_def using rollback_chains(1) [OF assms(1) H(1) assms(2)] by (metis prod.collapse)
    then have "chains_ok U V s4" unfolding s4_def s3_def by (intro chains_ok_frame)
    moreover have "connect_alternative env disconnected split_height (a # alt) s = Inl (orphan_rest alt s4)"
      using True s1 by (simp add: a Let_def s2_def s3_def s4_def)
    ultimately show ?thesis using orphan_rest_chains [of U V s4 alt] by (auto split: option.splits)
  next
    case False
    then have "connect_alternative env disconnected split_height (a # alt) s = connect_alternative env disconnected split_height alt s1"
      using s1 by (simp add: a)
    then show ?thesis using Cons.IH [OF H(1) V(2)] H(5) False by (auto simp: a split: sum.splits option.splits)
  qed
qed simp

lemma push_old_chain_chains:
  assumes hab: "\<And>b bvc s r bvc' s'. chains_ok U V s \<Longrightarrow> b \<in> V \<Longrightarrow> hab b (get_block_hash b) bvc s = Some (r, bvc', s') \<Longrightarrow> chains_ok U V s'"
    and "chains_ok U V s" "set bs \<subseteq> V" "push_old_chain hab bs s = Some (r, s')"
  shows "chains_ok U V s'"
  using assms(2-)
proof (induction bs arbitrary: s)
  case (Cons b bs)
  then obtain r1 bvc s1 where s1: "hab b (get_block_hash b) bvc_init s = Some (r1, bvc, s1)" by (auto split: option.splits)
  have "chains_ok U V s1" using hab [OF Cons.prems(1) _ s1] Cons.prems(2) by simp
  then show ?case using Cons.IH [of s1] Cons.prems s1 by (auto split: if_splits)
qed simp

lemma erase_alternatives_chains: "chains_ok U V s \<Longrightarrow> chains_ok U V (erase_alternatives hs s)"
  by (induction hs arbitrary: s) (auto intro: chains_ok_frame)

lemma erase_alternatives_blocks: "m_blocks (erase_alternatives hs s) = m_blocks s"
  by (induction hs arbitrary: s) auto

lemma switch_chains:
  assumes "universe_ok U V"
    and hab: "\<And>b bvc s r bvc' s'. chains_ok U V s \<Longrightarrow> b \<in> V \<Longrightarrow> hab b (get_block_hash b) bvc s = Some (r, bvc', s') \<Longrightarrow> chains_ok U V s'"
    and "chains_ok U V s" "bei_bl ` snd ` set alt \<subseteq> V" "switch_to_alternative_blockchain hab env alt discard s = Some (r, s')"
  shows "chains_ok U V s'"
    and "r \<Longrightarrow> discard \<Longrightarrow> map bei_bl (m_blocks s')
      = take (unat (bei_height (snd (hd alt)))) (map bei_bl (m_blocks s)) @ map (\<lambda>e. bei_bl (snd e)) alt"
proof -
  define n where "n = unat (bei_height (snd (hd alt)))"
  have "chains_ok U V s' \<and> (r \<longrightarrow> discard \<longrightarrow> map bei_bl (m_blocks s') = take n (map bei_bl (m_blocks s)) @ map (\<lambda>e. bei_bl (snd e)) alt)"
  proof (cases "alt = [] \<or> \<not> length (m_blocks s) > n")
    case True
    then have "s' = s" "\<not> r" using assms(5) by (auto simp: switch_to_alternative_blockchain_def Let_def n_def split: if_splits)
    then show ?thesis using assms(3) by simp
  next
    case False
    obtain r1 popped s1 where s1: "pop_blocks env (pop_count s n) s = (r1, popped, s1)" by (cases "pop_blocks env (pop_count s n) s")
    note P = pop_blocks_chains [OF assms(3) s1]
    show ?thesis
    proof (cases r1)
      case no: False
      then have "s' = s1" "\<not> r" using assms(5) False s1 by (auto simp: switch_to_alternative_blockchain_def Let_def simp flip: n_def)
      then show ?thesis using P(1) by simp
    next
      case True
      have pre: "map bei_bl (m_blocks s1) = take n (map bei_bl (m_blocks s))"
      proof -
        have eq: "map bei_bl (m_blocks s) = map bei_bl (m_blocks s1) @ popped" "length popped = pop_count s n" using P(5) [OF True] by auto
        have len: "length (m_blocks s) = length (m_blocks s1) + length popped" using arg_cong [OF eq(1), of length] by simp
        then have n0: "n \<noteq> 0" using eq(2) by (cases "n = 0") (simp_all add: pop_count_def)
        have "n < length (m_blocks s)" using False by blast
        moreover have "length popped = length (m_blocks s) - n" using eq(2) n0 by (simp add: pop_count_def)
        ultimately have "length (m_blocks s1) = n" using len by linarith
        then show ?thesis using eq(1) by simp
      qed
      define c where "c = connect_alternative env popped n alt s1"
      have C: "case c of Inl None \<Rightarrow> True | Inl (Some s') \<Rightarrow> chains_ok U V s'
        | Inr s' \<Rightarrow> chains_ok U V s' \<and> map bei_bl (m_blocks s') = map bei_bl (m_blocks s1) @ map (\<lambda>e. bei_bl (snd e)) alt"
        unfolding c_def using connect_alternative_chains [OF assms(1) P(4) P(1) assms(4)] .
      have sw: "(case c of Inl None \<Rightarrow> None | Inl (Some s) \<Rightarrow> Some (False, s)
          | Inr s \<Rightarrow> (case (if discard then Some (True, s) else push_old_chain hab popped s) of
               None \<Rightarrow> None
             | Some (r, s) \<Rightarrow> if \<not> r then Some (False, snd (rollback_blockchain_switching env popped n s))
                 else Some (True, erase_alternatives (map fst alt) s))) = Some (r, s')"
        using assms(5) False s1 True unfolding switch_to_alternative_blockchain_def Let_def n_def [symmetric] by (simp add: c_def)
      show ?thesis
      proof (cases c)
        case (Inl o1)
        then show ?thesis using sw C by (cases o1) auto
      next
        case (Inr s2)
        then have s2: "chains_ok U V s2" "map bei_bl (m_blocks s2) = take n (map bei_bl (m_blocks s)) @ map (\<lambda>e. bei_bl (snd e)) alt"
          using C pre by auto
        obtain r3 s3 where s3: "(if discard then Some (True, s2) else push_old_chain hab popped s2) = Some (r3, s3)"
          using sw Inr by (auto split: option.splits)
        have "chains_ok U V s3" if "push_old_chain hab popped s2 = Some (r3, s3)"
          by (rule push_old_chain_chains [OF _ s2(1) P(4) that]) (rule hab)
        then have s3_ok: "chains_ok U V s3" "discard \<Longrightarrow> s3 = s2 \<and> r3"
          using s3 s2(1) by (auto split: if_splits)
        have res: "(r, s') = (if \<not> r3 then (False, snd (rollback_blockchain_switching env popped n s3)) else (True, erase_alternatives (map fst alt) s3))"
          using sw Inr unfolding Inr sum.case s3 option.case prod.case by (auto split: if_splits)
        have rb: "chains_ok U V (snd (rollback_blockchain_switching env popped n s3))"
          using rollback_chains(1) [OF assms(1) s3_ok(1) P(4)] by (metis prod.collapse)
        show ?thesis
          using res rb erase_alternatives_chains [OF s3_ok(1)] s3_ok(2) s2(2) erase_alternatives_blocks by (cases r3) auto
      qed
    qed
  qed
  then show "chains_ok U V s'" and "r \<Longrightarrow> discard \<Longrightarrow> map bei_bl (m_blocks s')
      = take (unat (bei_height (snd (hd alt)))) (map bei_bl (m_blocks s)) @ map (\<lambda>e. bei_bl (snd e)) alt"
    unfolding n_def by blast+
qed

lemma zone_same: "\<not> m_is_in_checkpoint_zone s \<Longrightarrow> s\<lparr>m_is_in_checkpoint_zone := False\<rparr> = s"
  by (cases s) simp

lemma chains_zone: "chains_ok U V s \<Longrightarrow> \<not> m_is_in_checkpoint_zone s"
  by (simp add: chains_ok_def store_ok_def chain_ok_def)

text \<open>The block that an alternative block refers to.\<close>

lemma alt_parent:
  assumes "chains_ok U V s" "m_alternative_chains s (prev_id b) \<noteq> None \<or> m_blocks_index s (prev_id b) \<noteq> None"
  shows "\<exists>p \<in> V. get_block_hash p = prev_id b \<and> bei_height (alt_bei s b) = get_block_height p + 1"
proof (cases "m_alternative_chains s (prev_id b)")
  case None
  then obtain i where i: "m_blocks_index s (prev_id b) = Some i" using assms(2) by auto
  then have "i < length (m_blocks s)" "bhash (m_blocks s ! i) = prev_id b" "bei_height (m_blocks s ! i) = of_nat i"
    using store_okD(1) [OF chains_okD(1) [OF assms(1)]] unfolding chain_ok_def by auto
  then show ?thesis
    using chains_okD(2) [OF assms(1)] None i unfolding main_ok_def
    by (intro bexI [of _ "bei_bl (m_blocks s ! i)"]) (auto simp: alt_bei_def)
next
  case (Some e)
  then have "alt_entry_ok V (prev_id b) e" using chains_okD(3) [OF assms(1)] by (simp add: alt_ok_def)
  then have "bei_bl e \<in> V" "bhash e = prev_id b" "bei_height e = get_block_height (bei_bl e)" unfolding alt_entry_ok_def by blast+
  then show ?thesis using Some by (intro bexI [of _ "bei_bl e"]) (simp_all add: alt_bei_def)
qed

lemma insert_alternative_chains:
  assumes "universe_ok U V"
    and hab: "\<And>b bvc s r bvc' s'. chains_ok U V s \<Longrightarrow> b \<in> V \<Longrightarrow> hab b (get_block_hash b) bvc s = Some (r, bvc', s') \<Longrightarrow> chains_ok U V s'"
    and "chains_ok U V s" "alt_entry_ok V h bei" "\<And>e. e \<in> set alt \<Longrightarrow> alt_entry_ok V (fst e) (snd e)"
    and ins: "insert_alternative hab env bei h alt is_cp bvc s = Some (r, bvc', s')"
  shows "chains_ok U V s'"
proof -
  define s1 where "s1 = s\<lparr>m_alternative_chains := (m_alternative_chains s)(h \<mapsto> bei)\<rparr>"
  have s1: "chains_ok U V s1" using assms(3, 4) by (simp add: s1_def chains_ok_def main_ok_def alt_ok_def)
  have V: "bei_bl ` snd ` set (alt @ [(h, bei)]) \<subseteq> V"
    using assms(4, 5) unfolding alt_entry_ok_def by auto
  have "s' = s \<or> s' = s1 \<or> (\<exists>r. switch_to_alternative_blockchain hab env (alt @ [(h, bei)]) is_cp s1 = Some (r, s'))"
    using ins unfolding insert_alternative_def Let_def s1_def [symmetric] by (auto split: if_splits option.splits)
  then show ?thesis
  proof (elim disjE exE)
    fix r
    assume sw: "switch_to_alternative_blockchain hab env (alt @ [(h, bei)]) is_cp s1 = Some (r, s')"
    show ?thesis by (rule switch_chains(1) [OF assms(1) _ s1 V sw]) (rule hab)
  qed (use assms(3) s1 in simp_all)
qed

text \<open>A step of \<open>handle_alternative_block\<close> either leaves the state alone or stores the block.\<close>

lemma handle_alternative_cases:
  assumes "\<not> m_is_in_checkpoint_zone s" "handle_alternative_block (Suc depth) env b h bvc s = Some (r, bvc', s')"
  shows "s' = s \<or> (\<exists>alt bei is_cp. insert_alternative (handle_alternative_block depth env) env bei h alt is_cp bvc s = Some (r, bvc', s')
    \<and> alt_chain_walk (m_alternative_chains s) (prev_id b) [] = Some alt
    \<and> (m_alternative_chains s (prev_id b) \<noteq> None \<or> m_blocks_index s (prev_id b) \<noteq> None) \<and> get_block_height b \<noteq> 0
    \<and> bei_bl bei = b \<and> bei_height bei = bei_height (alt_bei s b) \<and> prevalidate_miner_transaction b (bei_height bei))"
proof (cases "get_block_height b = 0 \<or> \<not> is_alternative_block_allowed (m_checkpoints s) (get_current_blockchain_height s) (get_block_height b)
    \<or> m_alternative_chains s (prev_id b) = None \<and> m_blocks_index s (prev_id b) = None")
  case True
  then show ?thesis using assms(2) by (auto simp: Let_def split: if_splits)
next
  case parent: False
  then obtain alt where walk: "alt_chain_walk (m_alternative_chains s) (prev_id b) [] = Some alt"
    using assms(2) by (auto simp: Let_def split: if_splits option.splits)
  show ?thesis
  proof (cases "alt_timestamps s alt (prev_id b)")
    case None
    then show ?thesis using assms(2) parent walk by (auto simp: Let_def split: if_splits)
  next
    case (Some ts)
    define bei where "bei = alt_bei s b"
    define diff where "diff = get_next_difficulty_for_alternative_chain s alt bei"
    define bei' where "bei' = bei\<lparr>cumulative_difficulty := (case m_alternative_chains s (prev_id b) of
        Some e \<Rightarrow> cumulative_difficulty e
      | None \<Rightarrow> cumulative_difficulty (m_blocks s ! the (m_blocks_index s (prev_id b)))) + diff\<rparr>"
    obtain ok is_cp where cp: "check_block_point (m_checkpoints s) (bei_height bei) h = (ok, is_cp)" by fastforce
    note z = zone_same [OF assms(1)]
    have res: "(if alt \<noteq> [] \<and> bei_height (snd (hd alt)) = 0 then None
      else if \<not> check_block_timestamp ts b then Some (False, set_failed bvc, s)
      else if \<not> ok then Some (False, set_failed bvc, s)
      else if diff = 0 then Some (False, bvc, s)
      else if \<not> check_hash (get_block_longhash (env_slow_hash env) (bei_bl bei) (bei_height bei)) diff then Some (False, set_failed bvc, s)
      else if \<not> prevalidate_miner_transaction b (bei_height bei) then Some (False, set_failed bvc, s)
      else insert_alternative (handle_alternative_block depth env) env bei' h alt is_cp bvc s) = Some (r, bvc', s')"
    proof -
      have c: "(0 = get_block_height b) = False"
        "is_alternative_block_allowed (m_checkpoints s) (get_current_blockchain_height s) (get_block_height b) = True"
        "(m_alternative_chains s (prev_id b) = None \<and> m_blocks_index s (prev_id b) = None) = False"
        using parent by auto
      show ?thesis
        unfolding assms(2) [symmetric] handle_alternative_block.simps Let_def c walk option.case Some bei_def [symmetric] cp prod.case z
          diff_def [symmetric] bei'_def [symmetric]
        by simp
    qed
    show ?thesis
    proof (cases "insert_alternative (handle_alternative_block depth env) env bei' h alt is_cp bvc s = Some (r, bvc', s')
        \<and> prevalidate_miner_transaction b (bei_height bei)")
      case True
      then show ?thesis using walk parent by (intro disjI2 exI [of _ alt] exI [of _ bei'] exI [of _ is_cp]) (auto simp: bei'_def bei_def alt_bei_def)
    next
      case False
      then show ?thesis using res by (auto split: if_splits)
    qed
  qed
qed

lemma handle_alternative_chains:
  assumes "universe_ok U V"
  shows "chains_ok U V s \<Longrightarrow> b \<in> V \<Longrightarrow> handle_alternative_block depth env b (get_block_hash b) bvc s = Some (r, bvc', s') \<Longrightarrow> chains_ok U V s'"
proof (induction depth arbitrary: b bvc s r bvc' s')
  case (Suc depth)
  note ok = Suc.prems(1)
  show ?case
  proof (cases "s' = s")
    case False
    with handle_alternative_cases [OF chains_zone [OF ok] Suc.prems(3)] obtain alt bei is_cp
      where ins: "insert_alternative (handle_alternative_block depth env) env bei (get_block_hash b) alt is_cp bvc s = Some (r, bvc', s')"
      and walk: "alt_chain_walk (m_alternative_chains s) (prev_id b) [] = Some alt"
      and parent: "m_alternative_chains s (prev_id b) \<noteq> None \<or> m_blocks_index s (prev_id b) \<noteq> None" and h0: "get_block_height b \<noteq> 0"
      and bei: "bei_bl bei = b" "bei_height bei = bei_height (alt_bei s b)" "prevalidate_miner_transaction b (bei_height bei)"
      by blast
    have "bei_height bei = get_block_height b" using prevalidate_height [OF bei(3)] by simp
    then have entry: "alt_entry_ok V (get_block_hash b) bei"
      using alt_parent [OF ok parent] bei(1, 2) h0 Suc.prems(2) unfolding alt_entry_ok_def by metis
    show ?thesis
    proof (rule insert_alternative_chains [OF assms _ ok entry _ ins])
      show "alt_entry_ok V (fst e) (snd e)" if "e \<in> set alt" for e using alt_walk_ok [OF chains_okD(3) [OF ok] walk that] .
      show "chains_ok U V t'" if "chains_ok U V t" "c \<in> V" "handle_alternative_block depth env c (get_block_hash c) bvc1 t = Some (r1, bvc2, t')"
        for c bvc1 t r1 bvc2 t' using Suc.IH [OF that] .
    qed
  qed (use ok in simp)
qed simp

lemma add_new_block_chains:
  assumes "universe_ok U V" "chains_ok U V s" "bl \<in> V" "add_new_block depth env bl bvc s = Some (r, bvc', s')"
  shows "chains_ok U V s'"
proof (cases "have_block s (get_block_hash bl)")
  case True
  then show ?thesis using assms(2, 4) by (simp add: add_new_block_def)
next
  case False
  show ?thesis
  proof (cases "prev_id bl = get_tail_id s")
    case True
    then have "handle_block_to_main_chain env bl bvc s = (r, bvc', s')"
      using assms(4) False by (simp add: add_new_block_def handle_block_to_main_chain_def)
    then show ?thesis by (rule handle_block_chains(1) [OF assms(1-3)])
  next
    case tail: False
    then show ?thesis using handle_alternative_chains [OF assms(1-3)] assms(4) False by (simp add: add_new_block_def)
  qed
qed

lemma check_points_chains: "universe_ok U V \<Longrightarrow> chains_ok U V s \<Longrightarrow> chains_ok U V (check_points_loop env pts enforce qs s)"
proof (induction qs arbitrary: s)
  case (Cons q qs)
  obtain h c where q: "q = (h, c)" by (cases q)
  have "chains_ok U V (snd (rollback_blockchain_switching env [] n s))" for n
    using rollback_chains(1) [OF Cons.prems, of "[]" env n] by (metis empty_subsetI list.set(1) prod.collapse)
  then show ?case using Cons by (cases enforce) (simp_all add: q)
qed simp

lemma chains_ok_points:
  "chains_ok U V s \<Longrightarrow> chains_ok U V (s\<lparr>m_checkpoints := pts\<rparr>)"
  "chains_ok U V s \<Longrightarrow> chains_ok U V (set_enforce_dns_checkpoints b s)"
  by (simp_all add: set_enforce_dns_checkpoints_def chains_ok_def main_ok_def store_ok_def chain_ok_def ledger_of_def chain_ids_def
      block_ok_def pool_part_ok_def)

lemma check_against_chains: "universe_ok U V \<Longrightarrow> chains_ok U V s \<Longrightarrow> chains_ok U V (check_against_checkpoints env pts enforce s)"
  by (simp add: check_against_checkpoints_def check_points_chains)

lemma update_checkpoints_chains:
  assumes "universe_ok U V" "chains_ok U V s" "update_checkpoints env hashlines query first_index check_dns s = Some (r, s')"
  shows "chains_ok U V s'"
proof -
  note step = check_against_chains [OF assms(1)]
  show ?thesis
    using assms(3) unfolding update_checkpoints_def Let_def
    by (auto split: option.splits prod.splits if_splits intro!: step chains_ok_points(1) assms(2))
qed

subsection \<open>Correctness of the alternative chains\<close>

text \<open>
  C19. The walk of \<open>handle_alternative_block\<close> along \<open>prev_id\<close> ends for every map of alternative blocks in
  which the height decreases from a block to its predecessor, as it does in every state the node
  reaches; it returns the whole path from the block down to the first one that is no alternative
  block, the oldest block first.
\<close>

theorem alt_chain_walk_returns:
  assumes "heights_decrease alts"
  shows "\<exists>c. alt_chain_walk alts h [] = Some c \<and> alt_path alts h (rev c)
    \<and> (\<forall>U V s. universe_ok U V \<longrightarrow> chains_ok U V s \<longrightarrow> heights_decrease (m_alternative_chains s))"
proof -
  obtain p where p: "alt_chain_walk alts h [] = Some (rev p)" "alt_path alts h p" using alt_walk_path [OF assms, of h "[]"] by auto
  have "heights_decrease (m_alternative_chains s)" if "universe_ok U V" "chains_ok U V s" for U V s
    using alt_ok_heights [of V] chains_okD(3) [OF that(2)] that(1) by (simp add: universe_ok_def)
  then show ?thesis using p by (intro exI [of _ "rev p"]) auto
qed

definition two_alternatives :: "hash \<rightharpoonup> block_extended_info" where
  "two_alternatives = [7 \<mapsto> \<lparr>bei_bl = (first_block [])\<lparr>prev_id := 8\<rparr>, bei_height = 5, block_cumulative_size = 0, cumulative_difficulty = 0, already_generated_coins = 0\<rparr>,
     8 \<mapsto> \<lparr>bei_bl = (first_block [])\<lparr>prev_id := 9\<rparr>, bei_height = 4, block_cumulative_size = 0, cumulative_difficulty = 0, already_generated_coins = 0\<rparr>]"

theorem alt_chain_walk_returns_witness:
  "\<exists>c. alt_chain_walk two_alternatives 7 [] = Some c \<and> map fst c = [8, 7]"
proof -
  have "heights_decrease two_alternatives" by (auto simp: heights_decrease_def two_alternatives_def split: if_splits)
  from alt_chain_walk_returns [OF this, of 7]
  obtain c where c: "alt_chain_walk two_alternatives 7 [] = Some c" "alt_path two_alternatives 7 (rev c)" by blast
  have keys: "two_alternatives 7 = Some x \<Longrightarrow> prev_id (bei_bl x) = 8" "two_alternatives 8 = Some x \<Longrightarrow> prev_id (bei_bl x) = 9"
      "two_alternatives 9 = None" "two_alternatives 7 \<noteq> None" "two_alternatives 8 \<noteq> None" for x
    by (auto simp: two_alternatives_def)
  obtain p1 r1 where 1: "rev c = p1 # r1" "fst p1 = 7" "alt_path two_alternatives 8 r1"
    using c(2) keys by (cases "rev c") auto
  obtain p2 r2 where 2: "r1 = p2 # r2" "fst p2 = 8" "alt_path two_alternatives 9 r2"
    using 1(3) keys by (cases r1) auto
  have "r2 = []" using 2(3) keys by (cases r2) auto
  then have "rev c = [p1, p2]" using 1(1) 2(1) by simp
  then have "c = [p2, p1]" by (simp add: rev_swap)
  then show ?thesis using c(1) 1(2) 2(2) by simp
qed


definition future_block :: block where
  "future_block = (first_block [])\<lparr>timestamp := 2 ^ 40\<rparr>"

definition future_bei :: block_extended_info where
  "future_bei = \<lparr>bei_bl = future_block, bei_height = 1, block_cumulative_size = 0, cumulative_difficulty = 0, already_generated_coins = 0\<rparr>"

definition two_blocks :: blockchain_storage where
  "two_blocks = (blockchain_storage_init True)
     \<lparr>m_blocks := [future_bei, future_bei], m_blocks_index := (\<lambda>_. Some 0),
      m_transactions := (\<lambda>_. Some \<lparr>ce_tx = first_miner_tx\<lparr>vout := []\<rparr>, m_keeper_block_height = 0, m_blob_size = 0, m_global_output_indexes = []\<rparr>)\<rparr>"


end
