(* ===== verification/Chain_Queries.thy ===== *)
theory Chain_Queries
  imports Alternatives
begin

text \<open>
  \<open>src/cryptonote_core/blockchain_storage.cpp\<close>, what the chain answers to peers and wallets: blocks and
  transactions by id and by height, the sparse history a node sends to find the point where its chain
  splits from that of a peer, the answer to it, and random outputs of an amount for the ring of a
  wallet. A failed look-up is \<open>None\<close>; where the code reads past the end of the chain the outer result of
  an operation is \<open>None\<close>.
\<close>

definition BLOCKS_IDS_SYNCHRONIZING_DEFAULT_COUNT :: nat where "BLOCKS_IDS_SYNCHRONIZING_DEFAULT_COUNT = 10000"

subsection \<open>Blocks and transactions\<close>

text \<open>The transactions found, in the chain or else in the pool, and the ids that are in neither.\<close>

fun bc_get_transactions :: "blockchain_storage \<Rightarrow> hash list \<Rightarrow> transaction list \<times> hash list" where
  "bc_get_transactions s [] = ([], [])"
| "bc_get_transactions s (tx_id # txs_ids) =
     (let (txs, missed_txs) = bc_get_transactions s txs_ids
      in case m_transactions s tx_id of
           None \<Rightarrow> (case pool_get_transaction (m_tx_pool s) tx_id of
                       None \<Rightarrow> (txs, tx_id # missed_txs)
                     | Some tx \<Rightarrow> (tx # txs, missed_txs))
         | Some e \<Rightarrow> (ce_tx e # txs, missed_txs))"

text \<open>\<open>i < start_offset + count && i < m_blocks.size()\<close>, with the sum of two 64-bit numbers.\<close>

definition block_range :: "blockchain_storage \<Rightarrow> u64 \<Rightarrow> u64 \<Rightarrow> block list" where
  "block_range s start_offset cnt =
     map (\<lambda>i. bei_bl (m_blocks s ! i)) [unat start_offset..<min (unat (start_offset + cnt)) (length (m_blocks s))]"

definition get_blocks :: "blockchain_storage \<Rightarrow> u64 \<Rightarrow> u64 \<Rightarrow> block list option" where
  "get_blocks s start_offset cnt =
     (if unat start_offset \<ge> length (m_blocks s) then None else Some (block_range s start_offset cnt))"

fun blocks_txs :: "blockchain_storage \<Rightarrow> block list \<Rightarrow> transaction list option" where
  "blocks_txs s [] = Some []"
| "blocks_txs s (b # bs) =
     (let (txs, missed_ids) = bc_get_transactions s (tx_hashes b)
      in if missed_ids \<noteq> [] then None else map_option ((@) txs) (blocks_txs s bs))"

definition get_blocks_with_txs :: "blockchain_storage \<Rightarrow> u64 \<Rightarrow> u64 \<Rightarrow> (block list \<times> transaction list) option" where
  "get_blocks_with_txs s start_offset cnt =
     (if unat start_offset \<ge> length (m_blocks s) then None
      else let blocks = block_range s start_offset cnt in map_option (Pair blocks) (blocks_txs s blocks))"

text \<open>The blocks up to the first internal error, and the ids that are not in the main chain.\<close>

fun get_blocks_by_id :: "blockchain_storage \<Rightarrow> hash list \<Rightarrow> block list \<times> hash list" where
  "get_blocks_by_id s [] = ([], [])"
| "get_blocks_by_id s (bl_id # block_ids) =
     (case m_blocks_index s bl_id of
        None \<Rightarrow> (let (blocks, missed_bs) = get_blocks_by_id s block_ids in (blocks, bl_id # missed_bs))
      | Some i \<Rightarrow>
          if \<not> i < length (m_blocks s) then ([], [])
          else let (blocks, missed_bs) = get_blocks_by_id s block_ids in (bei_bl (m_blocks s ! i) # blocks, missed_bs))"

record block_complete_entry =
  bce_block :: blob
  bce_txs :: "blob list"

record get_objects_response =
  rsp_txs :: "blob list"
  rsp_blocks :: "block_complete_entry list"
  missed_ids :: "hash list"
  current_blockchain_height :: u64

fun pack_blocks :: "blockchain_storage \<Rightarrow> block list \<Rightarrow> block_complete_entry list \<times> hash list" where
  "pack_blocks s [] = ([], [])"
| "pack_blocks s (bl # bls) =
     (let (txs, missed) = bc_get_transactions s (tx_hashes bl);
          (es, missed') = pack_blocks s bls
      in (\<lparr>bce_block = block_to_blob bl, bce_txs = map tx_to_blob txs\<rparr> # es, missed @ missed'))"

definition handle_get_objects :: "blockchain_storage \<Rightarrow> hash list \<Rightarrow> hash list \<Rightarrow> get_objects_response" where
  "handle_get_objects s arg_blocks arg_txs =
     (let (blocks, missed1) = get_blocks_by_id s arg_blocks;
          (es, missed2) = pack_blocks s blocks;
          (txs, missed3) = bc_get_transactions s arg_txs
      in \<lparr>rsp_txs = map tx_to_blob txs, rsp_blocks = es, missed_ids = missed1 @ missed2 @ missed3,
          current_blockchain_height = get_current_blockchain_height s\<rparr>)"

subsection \<open>The split point of two chains\<close>

partial_function (option) history_loop :: "blockchain_storage \<Rightarrow> nat \<Rightarrow> nat \<Rightarrow> nat \<Rightarrow> hash list \<Rightarrow> bool \<Rightarrow> (hash list \<times> bool) option" where
  "history_loop s i current_multiplier current_back_offset ids genesis_included =
     (let sz = length (m_blocks s)
      in if current_back_offset < sz then
           let ids = ids @ [get_block_hash (bei_bl (m_blocks s ! (sz - current_back_offset)))];
               genesis_included = (genesis_included \<or> sz - current_back_offset = 0)
           in if i < 10 then history_loop s (i + 1) current_multiplier (current_back_offset + 1) ids genesis_included
              else history_loop s (i + 1) (current_multiplier * 2) (current_back_offset + current_multiplier * 2) ids genesis_included
         else Some (ids, genesis_included))"

definition get_short_chain_history :: "blockchain_storage \<Rightarrow> hash list option" where
  "get_short_chain_history s =
     (if m_blocks s = [] then Some []
      else case history_loop s 0 1 1 [] False of
        None \<Rightarrow> None
      | Some (ids, genesis_included) \<Rightarrow> Some (if \<not> genesis_included then ids @ [get_block_hash (bei_bl (m_blocks s ! 0))] else ids))"

fun first_known :: "blockchain_storage \<Rightarrow> hash list \<Rightarrow> nat option" where
  "first_known s [] = None"
| "first_known s (h # ids) = (case m_blocks_index s h of None \<Rightarrow> first_known s ids | Some i \<Rightarrow> Some i)"

definition find_blockchain_supplement :: "blockchain_storage \<Rightarrow> hash list \<Rightarrow> nat option" where
  "find_blockchain_supplement s qblock_ids =
     (if qblock_ids = [] then None
      else if last qblock_ids \<noteq> get_block_hash (bei_bl (m_blocks s ! 0)) then None
      else first_known s qblock_ids)"

text \<open>The ids from the split point on, with the start height and the total height.\<close>

definition find_blockchain_supplement_ids :: "blockchain_storage \<Rightarrow> hash list \<Rightarrow> (nat \<times> u64 \<times> hash list) option" where
  "find_blockchain_supplement_ids s qblock_ids =
     (case find_blockchain_supplement s qblock_ids of
        None \<Rightarrow> None
      | Some start_height \<Rightarrow>
          Some (start_height, get_current_blockchain_height s,
                map (\<lambda>e. get_block_hash (bei_bl e)) (take BLOCKS_IDS_SYNCHRONIZING_DEFAULT_COUNT (drop start_height (m_blocks s)))))"

text \<open>
  \<open>for(i = start_height; i != m_blocks.size() && count < max_count; i++, count++)\<close>: a start height above
  the size of the chain never meets its end, and the code reads beyond it, the result \<open>None\<close>.
\<close>

fun supplement_loop :: "blockchain_storage \<Rightarrow> nat \<Rightarrow> nat \<Rightarrow> (block \<times> transaction list) list option option" where
  "supplement_loop s i 0 = Some (Some [])"
| "supplement_loop s i (Suc cnt) =
     (if i = length (m_blocks s) then Some (Some [])
      else if i > length (m_blocks s) then None
      else
        let b = bei_bl (m_blocks s ! i);
            (txs, mis) = bc_get_transactions s (tx_hashes b)
        in if mis \<noteq> [] then Some None
           else map_option (map_option ((#) (b, txs))) (supplement_loop s (i + 1) cnt))"

definition find_blockchain_supplement_blocks :: "blockchain_storage \<Rightarrow> u64 \<Rightarrow> hash list \<Rightarrow> nat
    \<Rightarrow> (nat \<times> u64 \<times> (block \<times> transaction list) list) option option" where
  "find_blockchain_supplement_blocks s req_start_block qblock_ids max_count =
     (case (if req_start_block > 0 then Some (unat req_start_block) else find_blockchain_supplement s qblock_ids) of
        None \<Rightarrow> Some None
      | Some start_height \<Rightarrow>
          map_option (map_option (\<lambda>blocks. (start_height, get_current_blockchain_height s, blocks))) (supplement_loop s start_height max_count))"

subsection \<open>Outputs\<close>

definition get_tx_outputs_gindexs :: "blockchain_storage \<Rightarrow> hash \<Rightarrow> u64 list option" where
  "get_tx_outputs_gindexs s tx_id =
     (case m_transactions s tx_id of
        None \<Rightarrow> None
      | Some e \<Rightarrow> if m_global_output_indexes e = [] then None else Some (m_global_output_indexes e))"

text \<open>The key of the output that an entry of the index of outputs refers to, with its transaction.\<close>

definition output_of :: "blockchain_storage \<Rightarrow> hash \<times> nat \<Rightarrow> (transaction \<times> public_key) option" where
  "output_of s out_entry =
     (case m_transactions s (fst out_entry) of
        None \<Rightarrow> None
      | Some e \<Rightarrow>
          if \<not> length (vout (ce_tx e)) > snd out_entry then None
          else case target (vout (ce_tx e) ! snd out_entry) of
                 txout_to_key key \<Rightarrow> Some (ce_tx e, key)
               | _ \<Rightarrow> None)"

fun get_outs_loop :: "blockchain_storage \<Rightarrow> (hash \<times> nat) list \<Rightarrow> public_key list option" where
  "get_outs_loop s [] = Some []"
| "get_outs_loop s (r # rs) =
     (case output_of s r of None \<Rightarrow> None | Some (tx, key) \<Rightarrow> map_option ((#) key) (get_outs_loop s rs))"

definition get_outs :: "blockchain_storage \<Rightarrow> u64 \<Rightarrow> public_key list option" where
  "get_outs s amt = (case m_outputs s amt of None \<Rightarrow> Some [] | Some rs \<Rightarrow> get_outs_loop s rs)"

record out_entry =
  global_amount_index :: nat
  out_key_of :: public_key

record outs_for_amount =
  ofa_amount :: u64
  ofa_outs :: "out_entry list"

definition add_out_to_get_random_outs :: "u64 \<Rightarrow> blockchain_storage \<Rightarrow> (hash \<times> nat) list \<Rightarrow> nat \<Rightarrow> out_entry option" where
  "add_out_to_get_random_outs now s amount_outs i =
     (case output_of s (amount_outs ! i) of
        None \<Rightarrow> None
      | Some (tx, key) \<Rightarrow>
          if \<not> is_tx_spendtime_unlocked s now (unlock_time tx) then None
          else Some \<lparr>global_amount_index = i, out_key_of = key\<rparr>)"

fun find_end_loop :: "blockchain_storage \<Rightarrow> (hash \<times> nat) list \<Rightarrow> nat \<Rightarrow> nat" where
  "find_end_loop s amount_outs 0 = 0"
| "find_end_loop s amount_outs (Suc i) =
     (case m_transactions s (fst (amount_outs ! i)) of
        None \<Rightarrow> 0
      | Some e \<Rightarrow>
          if m_keeper_block_height e + CRYPTONOTE_MINED_MONEY_UNLOCK_WINDOW \<le> get_current_blockchain_height s then i + 1
          else find_end_loop s amount_outs i)"

definition find_end_of_allowed_index :: "blockchain_storage \<Rightarrow> (hash \<times> nat) list \<Rightarrow> nat" where
  "find_end_of_allowed_index s amount_outs = find_end_loop s amount_outs (length amount_outs)"

text \<open>
  The loop that draws random outputs; \<open>rnd\<close> are the values of \<open>crypto::rand\<close>. The result is \<open>None\<close> where
  they do not suffice, else the outputs and the values that are left.
\<close>

fun random_outs_loop :: "u64 \<Rightarrow> blockchain_storage \<Rightarrow> (hash \<times> nat) list \<Rightarrow> nat \<Rightarrow> nat \<Rightarrow> u64 list \<Rightarrow> nat set \<Rightarrow> nat \<Rightarrow> out_entry list
    \<Rightarrow> (out_entry list \<times> u64 list) option" where
  "random_outs_loop now s amount_outs outs_count up_index_limit [] used try_count outs =
     (if length outs \<noteq> outs_count \<and> try_count < up_index_limit then None else Some (outs, []))"
| "random_outs_loop now s amount_outs outs_count up_index_limit (r # rnd) used try_count outs =
     (if length outs \<noteq> outs_count \<and> try_count < up_index_limit then
        let i = unat r mod up_index_limit
        in if i \<in> used then random_outs_loop now s amount_outs outs_count up_index_limit rnd used try_count outs
           else
             let outs = (case add_out_to_get_random_outs now s amount_outs i of None \<Rightarrow> outs | Some oen \<Rightarrow> outs @ [oen])
             in random_outs_loop now s amount_outs outs_count up_index_limit rnd (insert i used) (try_count + 1) outs
      else Some (outs, r # rnd))"

definition random_outs_for_amount :: "u64 \<Rightarrow> blockchain_storage \<Rightarrow> nat \<Rightarrow> u64 \<Rightarrow> u64 list \<Rightarrow> (outs_for_amount \<times> u64 list) option" where
  "random_outs_for_amount now s outs_count amt rnd =
     (case m_outputs s amt of
        None \<Rightarrow> Some (\<lparr>ofa_amount = amt, ofa_outs = []\<rparr>, rnd)
      | Some amount_outs \<Rightarrow>
          let up_index_limit = find_end_of_allowed_index s amount_outs
          in if length amount_outs > outs_count then
               map_option (\<lambda>(outs, rnd). (\<lparr>ofa_amount = amt, ofa_outs = outs\<rparr>, rnd))
                 (random_outs_loop now s amount_outs outs_count up_index_limit rnd {} 0 [])
             else Some (\<lparr>ofa_amount = amt, ofa_outs = List.map_filter (add_out_to_get_random_outs now s amount_outs) [0..<up_index_limit]\<rparr>, rnd))"

fun get_random_outs_for_amounts :: "u64 \<Rightarrow> blockchain_storage \<Rightarrow> nat \<Rightarrow> u64 list \<Rightarrow> u64 list \<Rightarrow> outs_for_amount list option" where
  "get_random_outs_for_amounts now s outs_count [] rnd = Some []"
| "get_random_outs_for_amounts now s outs_count (amt # amts) rnd =
     (case random_outs_for_amount now s outs_count amt rnd of
        None \<Rightarrow> None
      | Some (r, rnd) \<Rightarrow> map_option ((#) r) (get_random_outs_for_amounts now s outs_count amts rnd))"

subsection \<open>The history\<close>

lemma history_loop_offsets:
  assumes "0 < mlt"
  shows "\<exists>offs. history_loop s i mlt off ids g
      = Some (ids @ map (\<lambda>j. bhash (m_blocks s ! (length (m_blocks s) - j))) offs, g)
    \<and> set offs \<subseteq> {off..<length (m_blocks s)} \<and> sorted_wrt (<) offs
    \<and> (\<forall>j. off \<le> j \<longrightarrow> j \<le> off + (10 - i) \<longrightarrow> j < length (m_blocks s) \<longrightarrow> j \<in> set offs)"
  using assms
proof (induction "length (m_blocks s) - off" arbitrary: i mlt off ids rule: less_induct)
  case less
  let ?n = "length (m_blocks s)"
  show ?case
  proof (cases "off < ?n")
    case False
    then have "history_loop s i mlt off ids g = Some (ids, g)" by (subst history_loop.simps) simp
    then show ?thesis using False by (intro exI [of _ "[]"]) auto
  next
    case True
    define mlt' off' where "mlt' = (if i < 10 then mlt else mlt * 2)" and "off' = off + (if i < 10 then 1 else mlt * 2)"
    define ids' where "ids' = ids @ [bhash (m_blocks s ! (?n - off))]"
    have "off < off'" "0 < mlt'" using less.prems by (auto simp: off'_def mlt'_def)
    moreover have step: "history_loop s i mlt off ids g = history_loop s (i + 1) mlt' off' ids' g"
      using True by (subst history_loop.simps) (simp add: mlt'_def off'_def ids'_def Let_def)
    ultimately obtain offs where offs: "history_loop s (i + 1) mlt' off' ids' g = Some (ids' @ map (\<lambda>j. bhash (m_blocks s ! (?n - j))) offs, g)"
        "set offs \<subseteq> {off'..<?n}" "sorted_wrt (<) offs"
        "\<forall>j. off' \<le> j \<longrightarrow> j \<le> off' + (10 - (i + 1)) \<longrightarrow> j < ?n \<longrightarrow> j \<in> set offs"
      using less.hyps [of off' mlt' "i + 1" ids'] True by (auto simp: diff_less_mono2)
    have "\<forall>j. off \<le> j \<longrightarrow> j \<le> off + (10 - i) \<longrightarrow> j < ?n \<longrightarrow> j \<in> set (off # offs)"
    proof (intro allI impI)
      fix j assume j: "off \<le> j" "j \<le> off + (10 - i)" "j < ?n"
      show "j \<in> set (off # offs)"
      proof (cases "j = off")
        case False
        then have "i < 10" using j by (cases "i < 10") auto
        then show ?thesis using offs(4) j False by (auto simp: off'_def)
      qed simp
    qed
    moreover have "set (off # offs) \<subseteq> {off..<?n}" "sorted_wrt (<) (off # offs)"
      using offs(2, 3) \<open>off < off'\<close> True by auto
    ultimately show ?thesis using offs(1) by (intro exI [of _ "off # offs"]) (simp add: step ids'_def)
  qed
qed

lemma history_offsets:
  assumes "m_blocks s \<noteq> []"
  shows "\<exists>offs. get_short_chain_history s = Some (map (\<lambda>j. bhash (m_blocks s ! (length (m_blocks s) - j))) (offs @ [length (m_blocks s)]))
    \<and> set offs \<subseteq> {1..<length (m_blocks s)} \<and> sorted_wrt (<) offs
    \<and> (\<forall>j. 1 \<le> j \<longrightarrow> j \<le> 11 \<longrightarrow> j < length (m_blocks s) \<longrightarrow> j \<in> set offs)"
proof -
  obtain offs where offs: "history_loop s 0 1 1 [] False = Some ([] @ map (\<lambda>j. bhash (m_blocks s ! (length (m_blocks s) - j))) offs, False)"
      "set offs \<subseteq> {1..<length (m_blocks s)}" "sorted_wrt (<) offs"
      "\<forall>j. 1 \<le> j \<longrightarrow> j \<le> 1 + (10 - 0) \<longrightarrow> j < length (m_blocks s) \<longrightarrow> j \<in> set offs"
    using history_loop_offsets [of 1 s 0 1 "[]" False] by auto
  then show ?thesis using assms by (intro exI [of _ offs]) (simp add: get_short_chain_history_def)
qed

subsection \<open>The split point\<close>

lemma first_known_Some: "first_known t (map f xs) = Some i \<Longrightarrow>
    \<exists>x ys zs. xs = ys @ x # zs \<and> m_blocks_index t (f x) = Some i \<and> (\<forall>y \<in> set ys. m_blocks_index t (f y) = None)"
proof (induction xs)
  case (Cons a xs)
  show ?case
  proof (cases "m_blocks_index t (f a)")
    case None
    then obtain x ys zs where "xs = ys @ x # zs" "m_blocks_index t (f x) = Some i" "\<forall>y \<in> set ys. m_blocks_index t (f y) = None"
      using Cons by auto
    then show ?thesis using None by (intro exI [of _ x] exI [of _ "a # ys"] exI [of _ zs]) auto
  next
    case (Some j)
    then show ?thesis using Cons.prems by (intro exI [of _ a] exI [of _ "[]"] exI [of _ xs]) auto
  qed
qed simp

lemma first_known_total: "m_blocks_index t h \<noteq> None \<Longrightarrow> h \<in> set ids \<Longrightarrow> first_known t ids \<noteq> None"
  by (induction ids) (auto split: option.splits)

lemma chain_linked:
  assumes "chain_ok s" "Suc i < length (m_blocks s)"
  shows "prev_id (bei_bl (m_blocks s ! Suc i)) = bhash (m_blocks s ! i)"
  using assms by (auto simp: chain_ok_def)

lemma chain_index: "chain_ok s \<Longrightarrow> m_blocks_index s h = Some i \<longleftrightarrow> i < length (m_blocks s) \<and> bhash (m_blocks s ! i) = h"
  by (simp add: chain_ok_def)

lemma common_below:
  assumes "chain_ok s" "chain_ok t" "inj_on get_block_hash V" "main_ok V s" "main_ok V t"
    and "i < length (m_blocks s)" "i < length (m_blocks t)" "bhash (m_blocks s ! i) = bhash (m_blocks t ! i)"
  shows "\<forall>j \<le> i. bei_bl (m_blocks s ! j) = bei_bl (m_blocks t ! j)"
  using assms(6-8)
proof (induction i)
  case 0
  then have "bei_bl (m_blocks s ! 0) = bei_bl (m_blocks t ! 0)"
    using inj_onD [OF assms(3)] assms(4, 5) by (auto simp: main_ok_def)
  then show ?case by simp
next
  case (Suc i)
  have same: "bei_bl (m_blocks s ! Suc i) = bei_bl (m_blocks t ! Suc i)"
    using inj_onD [OF assms(3)] assms(4, 5) Suc.prems by (auto simp: main_ok_def)
  then have "bhash (m_blocks s ! i) = bhash (m_blocks t ! i)"
    using chain_linked [OF assms(1), of i] chain_linked [OF assms(2), of i] Suc.prems by simp
  then show ?case using Suc.IH Suc.prems same by (auto simp: le_Suc_eq)
qed

lemma same_height:
  assumes "chain_ok s" "chain_ok t" "inj_on get_block_hash V" "main_ok V s" "main_ok V t"
    and "length (m_blocks s) \<le> 2 ^ 64" "length (m_blocks t) \<le> 2 ^ 64"
    and i: "i < length (m_blocks s)" "j < length (m_blocks t)" "bhash (m_blocks s ! i) = bhash (m_blocks t ! j)"
  shows "i = j"
proof -
  have "bei_bl (m_blocks s ! i) = bei_bl (m_blocks t ! j)" using inj_onD [OF assms(3)] assms(4, 5) i by (auto simp: main_ok_def)
  moreover have "get_block_height (bei_bl (m_blocks s ! i)) = bei_height (m_blocks s ! i)"
    "get_block_height (bei_bl (m_blocks t ! j)) = bei_height (m_blocks t ! j)"
    using assms(4, 5) i by (auto simp: main_ok_def)
  ultimately have "bei_height (m_blocks s ! i) = bei_height (m_blocks t ! j)" by simp
  then have "(of_nat i :: u64) = of_nat j" using assms(1, 2) i by (simp add: chain_ok_def)
  then have "unat (of_nat i :: u64) = unat (of_nat j :: u64)" by simp
  then show ?thesis using i(1, 2) assms(6, 7) by (simp add: unat_of_nat take_bit_nat_eq_self)
qed

text \<open>
  C9. Two nodes find where their chains split: the history of the one, given to \<open>find_blockchain_supplement\<close>
  of the other, always yields a height up to which the two chains have the same blocks, and among the
  last eleven blocks of the asking node no common block above that height is overlooked. The loop
  over the history ends.
\<close>

theorem split_point_found:
  assumes "universe_ok U V" "chains_ok U V s" "chains_ok U V t"
    and "m_blocks s \<noteq> []" "m_blocks t \<noteq> []" "bhash (m_blocks s ! 0) = bhash (m_blocks t ! 0)"
    and "length (m_blocks s) \<le> 2 ^ 64" "length (m_blocks t) \<le> 2 ^ 64"
  shows "\<exists>ids h. get_short_chain_history s = Some ids \<and> find_blockchain_supplement t ids = Some h
    \<and> h < length (m_blocks s) \<and> h < length (m_blocks t)
    \<and> (\<forall>j \<le> h. bei_bl (m_blocks s ! j) = bei_bl (m_blocks t ! j))
    \<and> (\<forall>j. h < j \<longrightarrow> j < length (m_blocks s) \<longrightarrow> length (m_blocks s) \<le> j + 11 \<longrightarrow> bhash (m_blocks s ! j) \<notin> bhash ` set (m_blocks t))"
proof -
  let ?n = "length (m_blocks s)"
  define f where "f = (\<lambda>j. bhash (m_blocks s ! (?n - j)))"
  have inj: "inj_on get_block_hash V" using assms(1) by (simp add: universe_ok_def)
  have C: "chain_ok s" "chain_ok t" "main_ok V s" "main_ok V t"
    using assms(2, 3) by (auto dest: chains_okD store_okD(1))
  obtain offs where offs: "get_short_chain_history s = Some (map f (offs @ [?n]))"
      "set offs \<subseteq> {1..<?n}" "sorted_wrt (<) offs" "\<forall>j. 1 \<le> j \<longrightarrow> j \<le> 11 \<longrightarrow> j < ?n \<longrightarrow> j \<in> set offs"
    using history_offsets [OF assms(4)] unfolding f_def by auto
  define ids where "ids = map f (offs @ [?n])"
  have gen: "last ids = bhash (m_blocks t ! 0)" "ids \<noteq> []" by (simp_all add: ids_def f_def assms(6))
  then have "m_blocks_index t (last ids) \<noteq> None" using chain_index [OF C(2)] assms(5) by auto
  then obtain h where h: "first_known t ids = Some h" using first_known_total [of t "last ids" ids] gen(2) by auto
  have find: "find_blockchain_supplement t ids = Some h" using gen h by (simp add: find_blockchain_supplement_def)
  obtain x ys zs where x: "offs @ [?n] = ys @ x # zs" "m_blocks_index t (f x) = Some h" "\<forall>y \<in> set ys. m_blocks_index t (f y) = None"
    using first_known_Some [OF h [unfolded ids_def]] by blast
  have "x \<in> set (offs @ [?n])" unfolding x(1) by simp
  then have xr: "1 \<le> x" "x \<le> ?n" using offs(2) assms(4) by (auto simp: Suc_le_eq)
  have ht: "h < length (m_blocks t)" "bhash (m_blocks t ! h) = f x" using x(2) chain_index [OF C(2)] by auto
  have hx: "?n - x = h"
    using same_height [OF C(1, 2) inj C(3, 4) assms(7, 8), of "?n - x" h] ht xr by (auto simp: f_def)
  then have hs: "h < ?n" using xr by auto
  have same: "\<forall>j \<le> h. bei_bl (m_blocks s ! j) = bei_bl (m_blocks t ! j)"
    using common_below [OF C(1, 2) inj C(3, 4) hs ht(1)] ht(2) hx by (simp add: f_def)
  have "bhash (m_blocks s ! j) \<notin> bhash ` set (m_blocks t)" if j: "h < j" "j < ?n" "?n \<le> j + 11" for j
  proof -
    have "?n - j \<in> set offs" using offs(4) j by auto
    moreover have "?n - j < x" using hx j xr by auto
    moreover have "sorted_wrt (<) (offs @ [?n])" using offs(2, 3) by (auto simp: sorted_wrt_append)
    then have "\<forall>z \<in> set zs. x < z" unfolding x(1) by (simp add: sorted_wrt_append)
    ultimately have "?n - j \<in> set ys" using x(1) by (metis Un_iff insert_iff less_asym' less_irrefl_nat list.simps(15) set_append)
    then have "m_blocks_index t (f (?n - j)) = None" using x(3) by blast
    then have none: "m_blocks_index t (bhash (m_blocks s ! j)) = None" using j by (simp add: f_def)
    show ?thesis
    proof
      assume "bhash (m_blocks s ! j) \<in> bhash ` set (m_blocks t)"
      then obtain i where "i < length (m_blocks t)" "bhash (m_blocks t ! i) = bhash (m_blocks s ! j)" by (auto simp: in_set_conv_nth)
      then have "m_blocks_index t (bhash (m_blocks s ! j)) = Some i" using chain_index [OF C(2)] by blast
      then show False using none by simp
    qed
  qed
  then show ?thesis using offs(1) find hs ht(1) same by (auto simp: ids_def)
qed

lemma init_chains: "chains_ok U V (blockchain_storage_init t)"
  by (simp add: chains_ok_def store_ok_init main_ok_def alt_ok_def)

lemma first_universe: "universe_ok {first_miner_tx} {first_block []}"
  by (simp add: universe_ok_def first_block_def)

lemma first_chain:
  "\<exists>s. chains_ok {first_miner_tx} {first_block []} s \<and> map bei_bl (m_blocks s) = [first_block []]"
proof -
  obtain bvc' s' where h: "handle_block_to_main_chain first_env (first_block []) bvc_init (blockchain_storage_init True) = (True, bvc', s')"
    using first_block_accepted by blast
  have "first_block [] \<in> {first_block []}" by simp
  note H = handle_block_chains [OF first_universe init_chains this h]
  show ?thesis by (rule exI [of _ s'], rule conjI [OF H(1)]) (simp add: H(5))
qed

theorem split_point_found_witness:
  "\<exists>s ids. map bei_bl (m_blocks s) = [first_block []] \<and> get_short_chain_history s = Some ids \<and> find_blockchain_supplement s ids = Some 0"
proof -
  obtain s where s: "chains_ok {first_miner_tx} {first_block []} s" "map bei_bl (m_blocks s) = [first_block []]"
    using first_chain by (elim exE conjE)
  have "length (map bei_bl (m_blocks s)) = 1" unfolding s(2) by simp
  then have l: "length (m_blocks s) = 1" by simp
  then have ne: "m_blocks s \<noteq> []" and le: "length (m_blocks s) \<le> 2 ^ 64" by auto
  from split_point_found [OF first_universe s(1) s(1) ne ne refl le le]
  obtain ids h where "get_short_chain_history s = Some ids" "find_blockchain_supplement s ids = Some h" "h < length (m_blocks s)"
    by (elim exE conjE)
  then show ?thesis using s(2) unfolding l by (intro exI [of _ s] exI [of _ ids]) simp
qed

subsection \<open>Random outputs\<close>

text \<open>An output offered to a wallet is the output of the chain that it claims to be, and it may be spent.\<close>

definition real_out :: "u64 \<Rightarrow> blockchain_storage \<Rightarrow> (hash \<times> transaction) list \<Rightarrow> u64 \<Rightarrow> out_entry \<Rightarrow> bool" where
  "real_out now s l amt e \<longleftrightarrow> (\<exists>h j tx. global_amount_index e < length (out_refs amt l)
     \<and> out_refs amt l ! global_amount_index e = (h, j) \<and> (h, tx) \<in> set l \<and> j < length (vout tx)
     \<and> vout tx ! j = \<lparr>amount = amt, target = txout_to_key (out_key_of e)\<rparr> \<and> is_tx_spendtime_unlocked s now (unlock_time tx))"

lemma find_end_le: "find_end_loop s outs n \<le> n"
  by (induction n) (auto split: option.splits intro: le_SucI)

lemma add_out_real:
  assumes led: "ledger_ok s l" and outs: "m_outputs s amt = Some outs" "i < length outs"
    and add: "add_out_to_get_random_outs now s outs i = Some e"
  shows "real_out now s l amt e" "global_amount_index e = i"
proof -
  have refs: "outs = out_refs amt l" using ledger_okD(6) [OF led, of amt] outs(1) by (simp add: idx_def)
  obtain h j where hj: "outs ! i = (h, j)" by fastforce
  then have "(h, j) \<in> set (out_refs amt l)" using outs(2) refs by (metis nth_mem)
  then obtain tx where tx: "(h, tx) \<in> set l" "j < length (vout tx)" "amount (vout tx ! j) = amt"
    using out_refs_in_ledger by blast
  have get: "get_tx s h = Some tx" using ledger_get_tx [OF led] tx(1) by blast
  then obtain ce where ce: "m_transactions s h = Some ce" "ce_tx ce = tx" by (auto simp: get_tx_def)
  then obtain key where key: "target (vout tx ! j) = txout_to_key key" "is_tx_spendtime_unlocked s now (unlock_time tx)"
      "e = \<lparr>global_amount_index = i, out_key_of = key\<rparr>"
    using add hj by (auto simp: add_out_to_get_random_outs_def output_of_def split: if_splits txout_target.splits)
  then have "vout tx ! j = \<lparr>amount = amt, target = txout_to_key key\<rparr>" using tx(3) by (cases "vout tx ! j") simp
  then show "real_out now s l amt e" "global_amount_index e = i"
    using key tx hj refs outs(2) by (auto simp: real_out_def)
qed

lemma random_outs_loop_real:
  assumes led: "ledger_ok s l" and amt: "m_outputs s amt = Some amount_outs" "lim \<le> length amount_outs"
  shows "random_outs_loop now s amount_outs cnt lim rnd used tc outs = Some (outs', rnd') \<Longrightarrow>
    length outs \<le> cnt \<Longrightarrow> distinct (map global_amount_index outs) \<Longrightarrow> global_amount_index ` set outs \<subseteq> used \<Longrightarrow> (\<forall>e \<in> set outs. real_out now s l amt e) \<Longrightarrow>
    length outs' \<le> cnt \<and> distinct (map global_amount_index outs') \<and> (\<forall>e \<in> set outs'. real_out now s l amt e)"
proof (induction rnd arbitrary: used tc outs)
  case (Cons r rnd)
  show ?case
  proof (cases "length outs \<noteq> cnt \<and> tc < lim")
    case True
    define i where "i = unat r mod lim"
    have i: "i < length amount_outs" using True amt(2) unfolding i_def by (metis less_le_trans mod_less_divisor not_less_zero gr_zeroI)
    show ?thesis
    proof (cases "i \<in> used")
      case False
      define outs2 where "outs2 = (case add_out_to_get_random_outs now s amount_outs i of None \<Rightarrow> outs | Some oen \<Rightarrow> outs @ [oen])"
      have nxt: "random_outs_loop now s amount_outs cnt lim rnd (insert i used) (tc + 1) outs2 = Some (outs', rnd')"
        using Cons.prems(1) True False by (simp add: i_def [symmetric] outs2_def Let_def)
      have "length outs2 \<le> cnt" "distinct (map global_amount_index outs2)" "global_amount_index ` set outs2 \<subseteq> insert i used"
          "\<forall>e \<in> set outs2. real_out now s l amt e"
        using Cons.prems(2-5) True False add_out_real [OF led amt(1) i] by (auto simp: outs2_def split: option.splits)
      then show ?thesis using Cons.IH [OF nxt] by blast
    qed (use Cons.IH [of used tc outs] Cons.prems True in \<open>simp add: i_def Let_def\<close>)
  qed (use Cons.prems in auto)
qed (auto split: if_splits)

lemma all_outs_real:
  assumes led: "ledger_ok s l" and amt: "m_outputs s amt = Some amount_outs" "lim \<le> length amount_outs"
  shows "(\<forall>e \<in> set (List.map_filter (add_out_to_get_random_outs now s amount_outs) [0..<lim]). real_out now s l amt e)
    \<and> distinct (map global_amount_index (List.map_filter (add_out_to_get_random_outs now s amount_outs) [0..<lim]))
    \<and> length (List.map_filter (add_out_to_get_random_outs now s amount_outs) [0..<lim]) \<le> lim"
  using amt(2)
proof (induction lim)
  case (Suc n)
  let ?f = "add_out_to_get_random_outs now s amount_outs"
  have snoc: "List.map_filter ?f [0..<Suc n] = List.map_filter ?f [0..<n] @ (case ?f n of None \<Rightarrow> [] | Some e \<Rightarrow> [e])"
    by (simp add: map_filter_def split: option.split)
  have idx: "global_amount_index e < n" if "e \<in> set (List.map_filter ?f [0..<n])" for e
  proof -
    from that obtain x where x: "x < n" "?f x = Some e" by (auto simp: map_filter_def)
    then have "global_amount_index e = x" using Suc.prems by (intro add_out_real(2) [OF led amt(1) _ x(2)]) simp
    then show ?thesis using x(1) by simp
  qed
  show ?case
  proof (cases "?f n")
    case None
    then show ?thesis using Suc unfolding snoc by simp
  next
    case (Some e)
    have n: "n < length amount_outs" using Suc.prems by simp
    have "global_amount_index e \<notin> global_amount_index ` set (List.map_filter ?f [0..<n])"
      using idx add_out_real(2) [OF led amt(1) n Some] by (metis imageE less_irrefl)
    then show ?thesis using Suc add_out_real(1) [OF led amt(1) n Some] Some unfolding snoc by simp
  qed
qed (simp add: map_filter_def)

text \<open>
  C15. The outputs \<open>get_random_outs_for_amounts\<close> offers for the ring of a wallet are real: for every requested
  amount there are at most \<open>outs_count\<close> of them, no global index occurs twice, and each key is that of the
  output of the ledger with this amount and global index, in a transaction that is unlocked.
\<close>

theorem random_outs_real:
  assumes "ledger_ok s l" "get_random_outs_for_amounts now s outs_count amts rnd = Some res"
  shows "map ofa_amount res = amts \<and> (\<forall>r \<in> set res. length (ofa_outs r) \<le> outs_count
    \<and> distinct (map global_amount_index (ofa_outs r)) \<and> (\<forall>e \<in> set (ofa_outs r). real_out now s l (ofa_amount r) e))"
  using assms(2)
proof (induction amts arbitrary: rnd res)
  case (Cons amt amts)
  note led = assms(1)
  obtain r rnd' res' where r: "random_outs_for_amount now s outs_count amt rnd = Some (r, rnd')"
      "get_random_outs_for_amounts now s outs_count amts rnd' = Some res'" "res = r # res'"
    using Cons.prems by (auto split: option.splits)
  have "ofa_amount r = amt \<and> length (ofa_outs r) \<le> outs_count
    \<and> distinct (map global_amount_index (ofa_outs r)) \<and> (\<forall>e \<in> set (ofa_outs r). real_out now s l amt e)"
  proof (cases "m_outputs s amt")
    case (Some amount_outs)
    define lim where "lim = find_end_of_allowed_index s amount_outs"
    have lim: "lim \<le> length amount_outs" by (simp add: lim_def find_end_of_allowed_index_def find_end_le)
    show ?thesis
    proof (cases "length amount_outs > outs_count")
      case True
      then obtain outs where o: "random_outs_loop now s amount_outs outs_count lim rnd {} 0 [] = Some (outs, rnd')" "r = \<lparr>ofa_amount = amt, ofa_outs = outs\<rparr>"
        using r(1) Some by (auto simp: random_outs_for_amount_def lim_def [symmetric])
      then show ?thesis using random_outs_loop_real [OF led Some lim o(1)] by simp
    next
      case False
      then show ?thesis using all_outs_real [OF led Some lim, of now] r(1) Some lim
        by (auto simp: random_outs_for_amount_def lim_def [symmetric] Let_def)
    qed
  qed (use r(1) in \<open>auto simp: random_outs_for_amount_def\<close>)
  then show ?case using Cons.IH [OF r(2)] r(3) by auto
qed simp

definition deep_chain :: blockchain_storage where
  "deep_chain = (snd (add_transaction_from_block first_miner_tx (get_transaction_hash first_miner_tx) 0 47 (blockchain_storage_init True)))
     \<lparr>m_blocks := replicate 70 future_bei\<rparr>"

lemma deep_chain_ledger: "ledger_ok deep_chain [(get_transaction_hash first_miner_tx, first_miner_tx)]"
proof -
  let ?s = "blockchain_storage_init True" and ?h = "get_transaction_hash first_miner_tx"
  have cb: "is_coinbase first_miner_tx" by (simp add: is_coinbase_def first_miner_tx_def)
  obtain s1 where s1: "add_transaction_from_block first_miner_tx ?h 0 47 ?s = (True, s1)"
    using add_transaction_succeeds [of first_miner_tx ?s ?h 0 47] cb coinbase_no_images [OF cb]
    by (cases "add_transaction_from_block first_miner_tx ?h 0 47 ?s") simp
  have "ledger_ok s1 ([] @ [(?h, first_miner_tx)])"
    using add_transaction_True(1) [OF _ _ _ s1, of "[]"] store_okD(2) [OF store_ok_init] cb by simp
  then show ?thesis using s1 by (simp add: deep_chain_def)
qed

theorem random_outs_real_witness:
  "\<exists>r. get_random_outs_for_amounts 0 deep_chain 1 [17592186044415] [] = Some [r]
     \<and> length (ofa_outs r) = 1
     \<and> (\<forall>e \<in> set (ofa_outs r). real_out 0 deep_chain [(get_transaction_hash first_miner_tx, first_miner_tx)] 17592186044415 e)"
proof -
  have "\<exists>r. get_random_outs_for_amounts 0 deep_chain 1 [17592186044415] [] = Some [r] \<and> length (ofa_outs r) = 1 \<and> ofa_amount r = 17592186044415"
    by (simp add: random_outs_for_amount_def deep_chain_def add_transaction_from_block_def blockchain_storage_init_def
        first_miner_tx_def push_transaction_to_global_outs_index_def find_end_of_allowed_index_def get_current_blockchain_height_def
        CRYPTONOTE_MINED_MONEY_UNLOCK_WINDOW_def add_out_to_get_random_outs_def output_of_def is_tx_spendtime_unlocked_def
        CRYPTONOTE_MAX_BLOCK_NUMBER_def CRYPTONOTE_LOCKED_TX_ALLOWED_DELTA_BLOCKS_def map_filter_def Let_def)
  then obtain r where r: "get_random_outs_for_amounts 0 deep_chain 1 [17592186044415] [] = Some [r]" "length (ofa_outs r) = 1"
      "ofa_amount r = 17592186044415" by (elim exE conjE)
  show ?thesis using random_outs_real [OF deep_chain_ledger r(1)] r by simp
qed

text \<open>
  C40. The answer to a wallet that asks for blocks from a height of its own choice: a start height within
  the chain is answered with the next \<open>max_count\<close> blocks and all their transactions, in every state
  the node reaches, while for a height above the size of the chain the code reads beyond its end.
\<close>

theorem supplement_blocks_served:
  assumes "store_ok U s" "0 < start"
  shows "(unat start \<le> length (m_blocks s) \<longrightarrow> (\<exists>bs. find_blockchain_supplement_blocks s start ids n
        = Some (Some (unat start, get_current_blockchain_height s, bs))
      \<and> map fst bs = map bei_bl (take n (drop (unat start) (m_blocks s)))
      \<and> (\<forall>(b, txs) \<in> set bs. map (get_tx s) (tx_hashes b) = map Some txs)))
    \<and> (length (m_blocks s) < unat start \<longrightarrow> 0 < n \<longrightarrow> find_blockchain_supplement_blocks s start ids n = None)"
proof -
  have txs: "\<exists>txs. bc_get_transactions s hs = (txs, []) \<and> map (get_tx s) hs = map Some txs" if "\<forall>h \<in> set hs. get_tx s h \<noteq> None" for hs
    using that by (induction hs) (auto simp: get_tx_def)
  have loop: "\<exists>bs. supplement_loop s i n = Some (Some bs) \<and> map fst bs = map bei_bl (take n (drop i (m_blocks s)))
      \<and> (\<forall>(b, txs) \<in> set bs. map (get_tx s) (tx_hashes b) = map Some txs)" if "i \<le> length (m_blocks s)" for i n
    using that
  proof (induction n arbitrary: i)
    case (Suc n)
    show ?case
    proof (cases "i = length (m_blocks s)")
      case False
      let ?b = "bei_bl (m_blocks s ! i)"
      have i: "i < length (m_blocks s)" using False Suc.prems by simp
      then have "block_ok s ?b" using store_okD(3) [OF assms(1)] by simp
      then have "\<forall>h \<in> set (tx_hashes ?b). get_tx s h \<noteq> None" by (auto simp: block_ok_def)
      from txs [OF this] obtain txs where txs: "bc_get_transactions s (tx_hashes ?b) = (txs, [])" "map (get_tx s) (tx_hashes ?b) = map Some txs" by blast
      obtain bs where bs: "supplement_loop s (i + 1) n = Some (Some bs)" "map fst bs = map bei_bl (take n (drop (i + 1) (m_blocks s)))"
          "\<forall>(b, txs) \<in> set bs. map (get_tx s) (tx_hashes b) = map Some txs"
        using Suc.IH [of "i + 1"] i by auto
      have "take (Suc n) (drop i (m_blocks s)) = (m_blocks s ! i) # take n (drop (i + 1) (m_blocks s))"
        using i by (simp add: Cons_nth_drop_Suc [symmetric])
      then show ?thesis using i txs bs by (intro exI [of _ "(?b, txs) # bs"]) (simp add: Let_def)
    qed simp
  qed simp
  have "supplement_loop s (unat start) n = None" if "length (m_blocks s) < unat start" "0 < n"
    using that by (cases n) auto
  then show ?thesis using loop [of "unat start" n] assms(2)
    by (auto simp: find_blockchain_supplement_blocks_def)
qed

theorem supplement_blocks_served_witness:
  "find_blockchain_supplement_blocks (blockchain_storage_init True) 5 [] 1 = None"
  using supplement_blocks_served [OF store_ok_init [of "{}"], of 5 True "[]" 1] by simp

end
