(* ===== verification/Node.thy ===== *)
theory Node
  imports Chain_Queries
begin

text \<open>
  The node around the chain: the block template (\<open>create_block_template\<close> of
  \<open>src/cryptonote_core/blockchain_storage.cpp\<close>), the template the miner works on
  (\<open>src/cryptonote_core/miner.cpp\<close>) and the entry points of \<open>src/cryptonote_core/cryptonote_core.cpp\<close> for
  transactions and blocks that arrive as bytes or are found by the miner. The pool is the field
  \<open>m_tx_pool\<close> of the storage that refers to it. Random numbers, the checkpoint file and the DNS answers
  are arguments. The result \<open>None\<close> of an operation means undefined behaviour or an exceeded depth of
  nested switches, as for the alternative chains.
\<close>

definition CRYPTONOTE_MAX_BLOCK_SIZE :: nat where "CRYPTONOTE_MAX_BLOCK_SIZE = 500000000"
definition CRYPTONOTE_MAX_TX_SIZE :: nat where "CRYPTONOTE_MAX_TX_SIZE = 1000000000"

definition get_max_block_size :: nat where "get_max_block_size = CRYPTONOTE_MAX_BLOCK_SIZE"
definition get_max_tx_size :: nat where "get_max_tx_size = CRYPTONOTE_MAX_TX_SIZE"

subsection \<open>The block template\<close>

abbreviation blob_size64 :: "transaction \<Rightarrow> u64" where
  "blob_size64 tx \<equiv> of_nat (get_object_blobsize tx)"

text \<open>The loop that fits the size of the coinbase transaction; \<open>rnd n\<close> is the randomness of a try, \<open>n\<close> tries before the last one.\<close>

fun template_loop :: "'p ge_ops \<Rightarrow> (nat \<Rightarrow> 512 word) \<Rightarrow> u64 \<Rightarrow> u64 \<Rightarrow> u64 \<Rightarrow> u64 \<Rightarrow> account_public_address \<Rightarrow> blob \<Rightarrow> u64
    \<Rightarrow> nat \<Rightarrow> u64 \<Rightarrow> transaction \<Rightarrow> transaction option" where
  "template_loop G rnd height median_size coins fee miner_address ex_nonce txs_size 0 cumulative_size tx = None"
| "template_loop G rnd height median_size coins fee miner_address ex_nonce txs_size (Suc n) cumulative_size tx =
     (case construct_miner_tx G (rnd n) height median_size coins cumulative_size fee miner_address tx ex_nonce 11 of
        None \<Rightarrow> None
      | Some tx \<Rightarrow>
          let coinbase_blob_size = blob_size64 tx
          in if coinbase_blob_size > cumulative_size - txs_size
             then template_loop G rnd height median_size coins fee miner_address ex_nonce txs_size n (txs_size + coinbase_blob_size) tx
             else if coinbase_blob_size < cumulative_size - txs_size then
               let delta = cumulative_size - txs_size - coinbase_blob_size;
                   tx = tx\<lparr>extra := extra tx @ replicate (unat delta) 0\<rparr>
               in if cumulative_size \<noteq> txs_size + blob_size64 tx then
                    if cumulative_size + 1 \<noteq> txs_size + blob_size64 tx then None
                    else
                      let tx = tx\<lparr>extra := butlast (extra tx)\<rparr>
                      in if cumulative_size \<noteq> txs_size + blob_size64 tx
                         then template_loop G rnd height median_size coins fee miner_address ex_nonce txs_size n (cumulative_size + (delta - 1)) tx
                         else Some tx
                  else Some tx
             else if cumulative_size \<noteq> txs_size + blob_size64 tx then None
             else Some tx)"

text \<open>
  The argument \<open>b\<close> is the block the caller passes, whose nonce and transaction hashes are kept; the
  result is the block, its difficulty and its height, with the state of the pool after the checks. The
  code reads the last block of the chain, which has at least its genesis block; the first \<open>None\<close> covers
  the empty chain.
\<close>

definition create_block_template :: "'p chain_env \<Rightarrow> (nat \<Rightarrow> 512 word) \<Rightarrow> block \<Rightarrow> account_public_address \<Rightarrow> blob \<Rightarrow> blockchain_storage
    \<Rightarrow> (block \<times> u64 \<times> u64) option \<times> blockchain_storage" where
  "create_block_template env rnd b miner_address ex_nonce s =
     (let b = b\<lparr>major_version := CURRENT_BLOCK_MAJOR_VERSION, minor_version := CURRENT_BLOCK_MINOR_VERSION,
                prev_id := get_tail_id s, timestamp := env_now env\<rparr>;
          height = get_current_blockchain_height s;
          diffic = get_difficulty_for_next_block s
      in if diffic = 0 \<or> m_blocks s = [] then (None, s)
         else
           let median_size = m_current_block_cumul_sz_limit s div 2;
               coins = already_generated_coins (last (m_blocks s));
               ((txs_size, fee, hashes), p) = fill_block_template (chain_view_of env s) median_size (tx_hashes b) (m_tx_pool s);
               s = s\<lparr>m_tx_pool := p\<rparr>
           in case construct_miner_tx (env_ge env) (rnd 10) height median_size coins txs_size fee miner_address (miner_tx b) ex_nonce 11 of
                None \<Rightarrow> (None, s)
              | Some tx \<Rightarrow>
                  (case template_loop (env_ge env) rnd height median_size coins fee miner_address ex_nonce txs_size 10 (txs_size + blob_size64 tx) tx of
                     None \<Rightarrow> (None, s)
                   | Some tx \<Rightarrow> (Some (b\<lparr>miner_tx := tx, tx_hashes := hashes\<rparr>, diffic, height), s)))"

subsection \<open>The template of the miner\<close>

record miner =
  m_stop :: bool
  m_template :: block
  m_template_no :: u32
  m_diffic :: u64
  m_height :: u64
  m_starter_nonce :: u32
  m_mine_address :: account_public_address
  m_extra_messages :: "blob list"
  current_extra_message_index :: u64
  m_pausers_count :: int

definition set_block_template :: "u32 \<Rightarrow> block \<Rightarrow> u64 \<Rightarrow> u64 \<Rightarrow> miner \<Rightarrow> miner" where
  "set_block_template rnd bl di height m =
     m\<lparr>m_template := bl, m_diffic := di, m_height := height, m_template_no := m_template_no m + 1, m_starter_nonce := rnd\<rparr>"

definition is_mining :: "miner \<Rightarrow> bool" where
  "is_mining m \<longleftrightarrow> \<not> m_stop m"

definition empty_block :: block where
  "empty_block = \<lparr>major_version = 0, minor_version = 0, timestamp = 0, prev_id = 0, nonce = 0, miner_tx = set_null, tx_hashes = []\<rparr>"

definition request_block_template :: "'p chain_env \<Rightarrow> (nat \<Rightarrow> 512 word) \<Rightarrow> u32 \<Rightarrow> miner \<Rightarrow> blockchain_storage \<Rightarrow> bool \<times> miner \<times> blockchain_storage" where
  "request_block_template env rnd start_nonce m s =
     (let extra_nonce = (if m_extra_messages m \<noteq> [] \<and> unat (current_extra_message_index m) < length (m_extra_messages m)
                         then m_extra_messages m ! unat (current_extra_message_index m) else []);
          (r, s) = create_block_template env rnd empty_block (m_mine_address m) extra_nonce s
      in case r of
           None \<Rightarrow> (False, m, s)
         | Some (bl, di, height) \<Rightarrow> (True, set_block_template start_nonce bl di height m, s))"

definition on_block_chain_update :: "'p chain_env \<Rightarrow> (nat \<Rightarrow> 512 word) \<Rightarrow> u32 \<Rightarrow> miner \<Rightarrow> blockchain_storage \<Rightarrow> bool \<times> miner \<times> blockchain_storage" where
  "on_block_chain_update env rnd start_nonce m s =
     (if \<not> is_mining m then (True, m, s) else request_block_template env rnd start_nonce m s)"

definition pause :: "miner \<Rightarrow> miner" where
  "pause m = m\<lparr>m_pausers_count := m_pausers_count m + 1\<rparr>"

definition resume :: "miner \<Rightarrow> miner" where
  "resume m = m\<lparr>m_pausers_count := (if m_pausers_count m - 1 < 0 then 0 else m_pausers_count m - 1)\<rparr>"

definition send_stop_signal :: "miner \<Rightarrow> miner" where
  "send_stop_signal m = m\<lparr>m_stop := True\<rparr>"

text \<open>The search for a nonce, with the nonce where it stops.\<close>

function find_nonce_for_given_block :: "(blob \<Rightarrow> hash) \<Rightarrow> block \<Rightarrow> u64 \<Rightarrow> u64 \<Rightarrow> bool \<times> block" where
  "find_nonce_for_given_block cn_slow_hash bl diffic height =
     (if nonce bl \<noteq> 0xffffffff then
        if check_hash (get_block_longhash cn_slow_hash bl height) diffic then (True, bl)
        else find_nonce_for_given_block cn_slow_hash (bl\<lparr>nonce := nonce bl + 1\<rparr>) diffic height
      else (False, bl))"
  by pat_completeness auto
termination
proof (relation "measure (\<lambda>(_, bl, _, _). 0xffffffff - unat (nonce bl))", goal_cases)
  case (2 cn_slow_hash bl diffic height)
  have "unat (nonce bl) \<noteq> 0xffffffff" using 2(1) by (simp add: word_unat_eq_iff)
  then have "unat (nonce bl) < 0xffffffff" using unat_lt_32 [of "nonce bl"] by linarith
  moreover from this have "unat (nonce bl + 1) = Suc (unat (nonce bl))" by (simp add: unat_word_ariths)
  ultimately show ?case by simp
qed simp

declare find_nonce_for_given_block.simps [simp del]

subsection \<open>The core\<close>

record core =
  core_storage :: blockchain_storage
  core_miner :: miner
  m_last_dns_checkpoints_update :: int
  m_last_json_checkpoints_update :: int

text \<open>What a step of the core gets from outside.\<close>

record core_input =
  in_hashlines :: "(u64 \<times> blob) list option"
  in_query :: "bool \<Rightarrow> nat \<Rightarrow> blob list \<times> bool \<times> bool"
  in_first_index :: nat
  in_random :: "nat \<Rightarrow> 512 word"
  in_start_nonce :: u32

fun keyimages_diff_loop :: "key_image set \<Rightarrow> txin list \<Rightarrow> bool" where
  "keyimages_diff_loop ki [] = True"
| "keyimages_diff_loop ki (txin_to_key amt offs k # ins) = (if k \<in> ki then False else keyimages_diff_loop (insert k ki) ins)"
| "keyimages_diff_loop ki (_ # ins) = False"

definition check_tx_inputs_keyimages_diff :: "transaction \<Rightarrow> bool" where
  "check_tx_inputs_keyimages_diff tx = keyimages_diff_loop {} (vin tx)"

definition check_tx_semantic :: "'p ge_ops \<Rightarrow> blockchain_storage \<Rightarrow> transaction \<Rightarrow> bool \<Rightarrow> bool" where
  "check_tx_semantic G s tx keeped_by_block =
     (if vin tx = [] then False
      else if \<not> check_inputs_types_supported tx then False
      else if \<not> check_outs_valid G tx then False
      else if \<not> check_money_overflow tx then False
      else
        let amount_in = (case get_inputs_money_amount tx of None \<Rightarrow> 0 | Some a \<Rightarrow> a);
            amount_out = get_outs_money_amount tx
        in if amount_in \<le> amount_out then False
           else if \<not> keeped_by_block
              \<and> blob_size64 tx \<ge> m_current_block_cumul_sz_limit s - CRYPTONOTE_COINBASE_BLOB_RESERVED_SIZE then False
           else check_tx_inputs_keyimages_diff tx)"

definition core_add_new_tx :: "'p chain_env \<Rightarrow> transaction \<Rightarrow> hash \<Rightarrow> u64 \<Rightarrow> tx_verification_context \<Rightarrow> bool \<Rightarrow> blockchain_storage
    \<Rightarrow> bool \<times> tx_verification_context \<times> blockchain_storage" where
  "core_add_new_tx env tx tx_hash blob_size tvc keeped_by_block s =
     (if pool_have_tx (m_tx_pool s) tx_hash then (True, tvc, s)
      else if have_tx s tx_hash then (True, tvc, s)
      else
        let (r, tvc, p) = add_tx_with_id (chain_view_of env s) (env_now env) tx tx_hash blob_size tvc keeped_by_block (m_tx_pool s)
        in (r, tvc, s\<lparr>m_tx_pool := p\<rparr>))"

definition handle_incoming_tx :: "'p chain_env \<Rightarrow> blob \<Rightarrow> bool \<Rightarrow> blockchain_storage \<Rightarrow> bool \<times> tx_verification_context \<times> blockchain_storage" where
  "handle_incoming_tx env tx_blob keeped_by_block s =
     (let failed = (False, tvc_init\<lparr>m_verifivation_failed := True\<rparr>, s)
      in if length tx_blob > get_max_tx_size then failed
         else case parse_and_validate_tx_from_blob tx_blob of
           None \<Rightarrow> failed
         | Some (tx, tx_hash, tx_prefixt_hash) \<Rightarrow>
             if \<not> check_tx_semantic (env_ge env) s tx keeped_by_block then failed
             else core_add_new_tx env tx tx_hash (of_nat (length tx_blob)) tvc_init keeped_by_block s)"

text \<open>\<open>time(NULL)\<close> is a signed number of seconds. A failure also makes the process stop itself.\<close>

definition core_update_checkpoints :: "'p chain_env \<Rightarrow> core_input \<Rightarrow> core \<Rightarrow> (bool \<times> core) option" where
  "core_update_checkpoints env inp c =
     (let now = sint (env_now env);
          upd = (\<lambda>check_dns. update_checkpoints env (in_hashlines inp) (in_query inp) (in_first_index inp) check_dns (core_storage c))
      in if now - m_last_dns_checkpoints_update c \<ge> 3600 then
           map_option (\<lambda>(r, s). (r, c\<lparr>core_storage := s, m_last_dns_checkpoints_update := now, m_last_json_checkpoints_update := now\<rparr>)) (upd True)
         else if now - m_last_json_checkpoints_update c \<ge> 600 then
           map_option (\<lambda>(r, s). (r, c\<lparr>core_storage := s, m_last_json_checkpoints_update := now\<rparr>)) (upd False)
         else Some (True, c))"

definition update_miner_block_template :: "'p chain_env \<Rightarrow> core_input \<Rightarrow> core \<Rightarrow> core" where
  "update_miner_block_template env inp c =
     (let (_, m, s) = on_block_chain_update env (in_random inp) (in_start_nonce inp) (core_miner c) (core_storage c)
      in c\<lparr>core_miner := m, core_storage := s\<rparr>)"

definition handle_incoming_block :: "nat \<Rightarrow> 'p chain_env \<Rightarrow> core_input \<Rightarrow> blob \<Rightarrow> block_verification_context \<Rightarrow> bool \<Rightarrow> core
    \<Rightarrow> (bool \<times> block_verification_context \<times> core) option" where
  "handle_incoming_block depth env inp block_blob bvc update_miner_blocktemplate c =
     (case core_update_checkpoints env inp c of
        None \<Rightarrow> None
      | Some (r, c) \<Rightarrow>
          if \<not> r then Some (False, bvc, c)
          else if length block_blob > get_max_block_size then Some (False, set_failed bvc_init, c)
          else case parse_and_validate_block_from_blob block_blob of
            None \<Rightarrow> Some (False, set_failed bvc_init, c)
          | Some b \<Rightarrow>
              (case add_new_block depth env b bvc_init (core_storage c) of
                 None \<Rightarrow> None
               | Some (_, bvc, s) \<Rightarrow>
                   let c = c\<lparr>core_storage := s\<rparr>;
                       c = (if update_miner_blocktemplate \<and> m_added_to_main_chain bvc then update_miner_block_template env inp c else c)
                   in Some (True, bvc, c)))"

definition check_incoming_block_size :: "blob \<Rightarrow> bool" where
  "check_incoming_block_size block_blob = (if length block_blob > get_max_block_size then False else True)"

text \<open>A block the miner found. The second part of the result is the message for the peers, if there is one.\<close>

definition handle_block_found :: "nat \<Rightarrow> 'p chain_env \<Rightarrow> core_input \<Rightarrow> block \<Rightarrow> core \<Rightarrow> (bool \<times> block_complete_entry option \<times> core) option" where
  "handle_block_found depth env inp b c =
     (let c = c\<lparr>core_miner := pause (core_miner c)\<rparr>
      in case add_new_block depth env b bvc_init (core_storage c) of
           None \<Rightarrow> None
         | Some (_, bvc, s) \<Rightarrow>
             let c = update_miner_block_template env inp (c\<lparr>core_storage := s\<rparr>);
                 c = c\<lparr>core_miner := resume (core_miner c)\<rparr>
             in if bvc_verifivation_failed bvc then Some (False, None, c)
                else if m_added_to_main_chain bvc then
                  let (txs, missed_txs) = bc_get_transactions (core_storage c) (tx_hashes b)
                  in if missed_txs \<noteq> [] \<and> get_block_id_by_height (core_storage c) (get_block_height b) \<noteq> get_block_hash b
                     then Some (True, None, c)
                     else if \<not> (length txs = length (tx_hashes b) \<and> missed_txs = []) then Some (False, None, c)
                     else Some (True, Some \<lparr>bce_block = block_to_blob b, bce_txs = map tx_to_blob txs\<rparr>, c)
                else Some (False, None, c))"

subsection \<open>The shape of a coinbase transaction\<close>

definition coinbase_amounts :: "u64 \<Rightarrow> u64 list" where
  "coinbase_amounts v = merge_outs 11 (map chunk_amount (decompose_amount_into_digits v DEFAULT_DUST_THRESHOLD))"

definition coinbase_shape :: "u64 \<Rightarrow> u64 list \<Rightarrow> nat \<Rightarrow> transaction \<Rightarrow> bool" where
  "coinbase_shape h as n tx \<longleftrightarrow> version tx = 1 \<and> unlock_time tx = h + CRYPTONOTE_MINED_MONEY_UNLOCK_WINDOW \<and> vin tx = [txin_gen h]
     \<and> map amount (vout tx) = as \<and> (\<forall>ot \<in> set (vout tx). \<exists>k. target ot = txout_to_key k) \<and> length (extra tx) = n"

lemma coinbase_amounts_sum:
  "sum_list (coinbase_amounts v) = v" "length (coinbase_amounts v) \<le> 11" "sum_list (map unat (coinbase_amounts v)) = unat v"
  using miner_amounts [of 11 v DEFAULT_DUST_THRESHOLD] by (simp_all add: coinbase_amounts_def)

lemma coinbase_outs:
  assumes "coinbase_shape h (coinbase_amounts v) n tx"
  shows "get_outs_money_amount tx = v" "sum_outputs tx = unat v" "check_outs_overflow tx"
proof -
  have as: "map amount (vout tx) = coinbase_amounts v" using assms by (simp add: coinbase_shape_def)
  have "sum_outputs tx = sum_list (map unat (map amount (vout tx)))" by (simp add: sum_outputs_def comp_def)
  then show s: "sum_outputs tx = unat v" unfolding as by (simp add: coinbase_amounts_sum)
  then show "check_outs_overflow tx" by (simp add: check_outs_overflow_def check_outs_overflow_loop_iff sum_outputs_def)
  have "unat (get_outs_money_amount tx) = unat v" using get_outs_money_amount_sum [of tx] s by simp
  then show "get_outs_money_amount tx = v" by (simp add: word_unat_eq_iff)
qed

lemma miner_outs_shape:
  "miner_outs G a sec no as = Some outs \<Longrightarrow> map amount outs = as \<and> (\<forall>ot \<in> set outs. \<exists>k. target ot = txout_to_key k)"
  by (induction as arbitrary: no outs) (auto simp: bind_eq_Some_conv)

lemma construct_miner_shape:
  assumes "construct_miner_tx G tmp h med coins sz fee a tx ex 11 = Some tx'"
  shows "\<exists>reward. get_block_reward med sz coins = Some reward
    \<and> coinbase_shape h (coinbase_amounts (reward + fee)) (33 + (if ex \<noteq> [] then 2 + length ex else 0)) tx' \<and> signatures tx' = signatures tx"
proof -
  obtain txpub txsec where k: "keypair_generate G tmp = Some (txpub, txsec)"
    using assms unfolding construct_miner_tx_def by (cases "keypair_generate G tmp") auto
  define E where "E = (if ex \<noteq> [] then add_extra_nonce_to_tx_extra (add_tx_pub_key_to_extra [] txpub) ex
        else Some (add_tx_pub_key_to_extra [] txpub))"
  obtain ext where E: "E = Some ext"
    using assms k unfolding construct_miner_tx_def by (cases E) (simp_all add: E_def)
  obtain reward where r: "get_block_reward med sz coins = Some reward"
    using assms k E unfolding construct_miner_tx_def by (cases "get_block_reward med sz coins") (simp_all add: E_def [symmetric])
  obtain outs where outs: "miner_outs G a txsec 0 (coinbase_amounts (reward + fee)) = Some outs"
    using assms k E r unfolding construct_miner_tx_def
    by (cases "miner_outs G a txsec 0 (coinbase_amounts (reward + fee))") (simp_all add: E_def [symmetric] coinbase_amounts_def Let_def)
  have tx': "tx' = tx\<lparr>version := CURRENT_TRANSACTION_VERSION, unlock_time := h + CRYPTONOTE_MINED_MONEY_UNLOCK_WINDOW,
                 vin := [txin_gen h], vout := outs, extra := ext\<rparr>"
    using assms k E r outs unfolding construct_miner_tx_def
    by (simp add: E_def [symmetric] coinbase_amounts_def Let_def split: if_splits)
  have "length ext = 33 + (if ex \<noteq> [] then 2 + length ex else 0)"
    using E unfolding E_def by (auto simp: add_extra_nonce_to_tx_extra_def add_tx_pub_key_to_extra_def split: if_splits)
  then show ?thesis using r tx' miner_outs_shape [OF outs]
    by (simp add: coinbase_shape_def CURRENT_TRANSACTION_VERSION_def)
qed

lemma write_fields_length:
  "\<forall>w \<in> set ws. snd w \<Longrightarrow> length (fst (write_fields ws)) = sum_list (map (\<lambda>w. length (fst w)) ws) \<and> snd (write_fields ws)"
  by (induction ws) (auto simp: write_fields_Cons)

lemma length_wr_uint8: "length (fst (wr_uint (v :: u8))) = 1"
  by (simp add: wr_uint_def)

lemma vector_length:
  "\<forall>x \<in> set xs. snd (wr x) \<Longrightarrow> length (fst (wr_vector wr xs))
     = length (write_varint (unat (of_nat (length xs) :: u64))) + sum_list (map (\<lambda>x. length (fst (wr x))) xs) \<and> snd (wr_vector wr xs)"
  using write_fields_length [of "wr_varint (of_nat (length xs) :: u64) # map wr xs"]
  by (auto simp: wr_vector_def fst_wr_varint comp_def)

text \<open>The size of a coinbase transaction depends on its shape only.\<close>

abbreviation varint_size :: "nat \<Rightarrow> nat" where
  "varint_size i \<equiv> length (write_varint i)"

lemma coinbase_size:
  assumes "coinbase_shape h as n tx" "signatures tx = []"
  shows "get_object_blobsize tx = 3 + varint_size (unat (h + CRYPTONOTE_MINED_MONEY_UNLOCK_WINDOW)) + varint_size (unat h)
    + varint_size (unat (of_nat (length as) :: u64)) + sum_list (map (\<lambda>a. varint_size (unat a) + 33) as)
    + varint_size (unat (of_nat n :: u64)) + n"
proof -
  have tx: "version tx = 1" "unlock_time tx = h + CRYPTONOTE_MINED_MONEY_UNLOCK_WINDOW" "vin tx = [txin_gen h]" "map amount (vout tx) = as"
      "\<forall>ot \<in> set (vout tx). \<exists>k. target ot = txout_to_key k" "length (extra tx) = n"
    using assms(1) by (auto simp: coinbase_shape_def)
  have out: "length (fst (wr_tx_out ot)) = varint_size (unat (amount ot)) + 33 \<and> snd (wr_tx_out ot)" if "ot \<in> set (vout tx)" for ot
    using tx(5) that by (auto simp: wr_tx_out_def write_fields_Cons fst_wr_varint wr_tag_def length_wr_uint8)
  have outs: "length (fst (wr_vector wr_tx_out (vout tx))) = varint_size (unat (of_nat (length as) :: u64)) + sum_list (map (\<lambda>a. varint_size (unat a) + 33) as)
      \<and> snd (wr_vector wr_tx_out (vout tx))"
  proof -
    have "map (\<lambda>x. length (fst (wr_tx_out x))) (vout tx) = map (\<lambda>a. varint_size (unat a) + 33) as"
      using out unfolding tx(4) [symmetric] by simp
    moreover have "length (vout tx) = length as" using tx(4) by (metis length_map)
    ultimately show ?thesis using vector_length [of "vout tx" wr_tx_out] out by simp
  qed
  have ext: "length (fst (wr_vector wr_uint (extra tx))) = varint_size (unat (of_nat n :: u64)) + n \<and> snd (wr_vector wr_uint (extra tx))"
    using vector_length [of "extra tx" wr_uint] tx(6) by (simp add: length_wr_uint8 sum_list_triv)
  have "length (fst (wr_vector wr_txin (vin tx))) = 2 + varint_size (unat h) \<and> snd (wr_vector wr_txin (vin tx))"
    using vector_length [of "vin tx" wr_txin]
    by (simp add: tx(3) write_fields_Cons fst_wr_varint wr_tag_def length_wr_uint8 varint_length_step [of 1] varint_length_step [of "Suc 0"])
  then show ?thesis using outs ext assms(2) tx(1-3)
    by (simp add: get_object_blobsize_def tx_to_blob_def wr_transaction_def wr_transaction_prefix_def write_fields_Cons fst_wr_varint
        CURRENT_TRANSACTION_VERSION_def wr_signatures_def varint_length_step [of 1] varint_length_step [of "Suc 0"])
qed

lemma varint_size_bound: "i < 128 ^ Suc n \<Longrightarrow> varint_size i \<le> Suc n"
proof (induction n arbitrary: i)
  case (Suc n)
  have "i div 128 < 128 ^ Suc n" using Suc.prems by (simp add: less_mult_imp_div_less mult.commute)
  then show ?case using Suc.IH [of "i div 128"] varint_length_step [of i] by simp
qed (simp add: varint_length_step)

lemma varint_size_64: "varint_size (unat (x :: u64)) \<le> 10"
proof -
  have "unat x < 128 ^ Suc 9" using unat_lt_64 [of x] by (simp del: unat_lt_64)
  then show ?thesis using varint_size_bound [of "unat x" 9] by simp
qed

lemma coinbase_size_bound:
  assumes "coinbase_shape h as n tx" "signatures tx = []" "length as \<le> 11" "n \<le> 290"
  shows "get_object_blobsize tx \<le> 1000"
proof -
  have "sum_list (map (\<lambda>a. varint_size (unat a) + 33) as) \<le> sum_list (map (\<lambda>a :: u64. 43) as)"
    using varint_size_64 by (intro sum_list_mono) simp
  also have "\<dots> \<le> 473" using assms(3) by (simp add: sum_list_triv)
  finally have s: "sum_list (map (\<lambda>a. varint_size (unat a) + 33) as) \<le> 473" .
  note v = varint_size_64 [of "h + CRYPTONOTE_MINED_MONEY_UNLOCK_WINDOW"] varint_size_64 [of h]
    varint_size_64 [of "of_nat (length as)"] varint_size_64 [of "of_nat n"]
  show ?thesis unfolding coinbase_size [OF assms(1, 2)] using s v assms(4) by linarith
qed

subsection \<open>The template\<close>

lemma template_step:
  assumes "template_loop G rnd h med coins fee a ex txs_size (Suc n) cum tx = Some tx'"
    and "construct_miner_tx G (rnd n) h med coins cum fee a tx ex 11 = Some tx1"
  shows "(\<exists>cum2 tx2. template_loop G rnd h med coins fee a ex txs_size n cum2 tx2 = Some tx')
    \<or> cum = txs_size + blob_size64 tx' \<and> tx'\<lparr>extra := []\<rparr> = tx1\<lparr>extra := []\<rparr>"
proof -
  define sz1 where "sz1 = blob_size64 tx1"
  define tx2 where "tx2 = tx1\<lparr>extra := extra tx1 @ replicate (unat (cum - txs_size - sz1)) 0\<rparr>"
  define tx3 where "tx3 = tx2\<lparr>extra := butlast (extra tx2)\<rparr>"
  have same: "tx2\<lparr>extra := []\<rparr> = tx1\<lparr>extra := []\<rparr>" "tx3\<lparr>extra := []\<rparr> = tx1\<lparr>extra := []\<rparr>" by (simp_all add: tx2_def tx3_def)
  note eq = assms(1) [simplified template_loop.simps assms(2) option.case Let_def, folded sz1_def, folded tx2_def, folded tx3_def]
  consider "sz1 > cum - txs_size" | "\<not> sz1 > cum - txs_size" "sz1 < cum - txs_size" | "\<not> sz1 > cum - txs_size" "\<not> sz1 < cum - txs_size" by blast
  then show ?thesis
  proof cases
    case 1
    then show ?thesis using eq by auto
  next
    case 2
    then show ?thesis using eq same by (auto split: if_splits)
  next
    case 3
    then show ?thesis using eq by (auto simp: sz1_def split: if_splits)
  qed
qed

lemma template_loop_shape:
  assumes "template_loop G rnd h med coins fee a ex txs_size n cum tx = Some tx'"
  shows "\<exists>reward m. get_block_reward med (txs_size + blob_size64 tx') coins = Some reward \<and> coinbase_shape h (coinbase_amounts (reward + fee)) m tx'"
  using assms
proof (induction n arbitrary: cum tx)
  case (Suc n)
  obtain tx1 where c: "construct_miner_tx G (rnd n) h med coins cum fee a tx ex 11 = Some tx1"
    using Suc.prems by (cases "construct_miner_tx G (rnd n) h med coins cum fee a tx ex 11") simp_all
  obtain reward m where r: "get_block_reward med cum coins = Some reward" and sh: "coinbase_shape h (coinbase_amounts (reward + fee)) m tx1"
    using construct_miner_shape [OF c] by blast
  from template_step [OF Suc.prems c] show ?case
  proof (elim disjE exE conjE)
    assume cum: "cum = txs_size + blob_size64 tx'" and same: "tx'\<lparr>extra := []\<rparr> = tx1\<lparr>extra := []\<rparr>"
    have "coinbase_shape h (coinbase_amounts (reward + fee)) 0 (tx'\<lparr>extra := []\<rparr>)" unfolding same using sh by (simp add: coinbase_shape_def)
    then show ?case using r cum by (intro exI [of _ reward] exI [of _ "length (extra tx')"]) (simp add: coinbase_shape_def)
  qed (rule Suc.IH)
qed simp

lemma zone_reward:
  "get_block_reward (if med \<le> CRYPTONOTE_BLOCK_GRANTED_FULL_REWARD_ZONE then CRYPTONOTE_BLOCK_GRANTED_FULL_REWARD_ZONE else med) sz coins
   = get_block_reward med sz coins"
  by (cases "med = CRYPTONOTE_BLOCK_GRANTED_FULL_REWARD_ZONE") (auto simp: get_block_reward_def Let_def)

lemma small_block_reward:
  assumes "sz \<le> med" "sz' \<le> med"
  shows "get_block_reward med sz coins = get_block_reward med sz' coins" "\<exists>r. get_block_reward med sz coins = Some r"
  using assms by (auto simp: get_block_reward_def Let_def)

text \<open>The limit of the block size is that of the present chain, as after every added block.\<close>

definition limit_current :: "blockchain_storage \<Rightarrow> bool" where
  "limit_current s \<longleftrightarrow> m_current_block_cumul_sz_limit s = m_current_block_cumul_sz_limit (update_next_comulative_size_limit s)
     \<and> median (the (get_last_n_blocks_sizes s CRYPTONOTE_REWARD_BLOCKS_WINDOW)) < 2 ^ 63"

lemma half_double_64: "(x :: u64) < 2 ^ 63 \<Longrightarrow> x * 2 div 2 = x"
proof -
  assume "x < 2 ^ 63"
  then have "unat x < 2 ^ 63" by (simp add: word_less_nat_alt)
  then have "unat (x * 2) = unat x * 2" by (simp add: unat_word_ariths)
  then have "unat (x * 2 div 2) = unat x" by (simp add: unat_div)
  then show ?thesis by (simp add: word_unat_eq_iff)
qed

lemma limit_current_reward:
  assumes "limit_current s"
  shows "get_block_reward (m_current_block_cumul_sz_limit s div 2) sz coins
     = get_block_reward (median (the (get_last_n_blocks_sizes s CRYPTONOTE_REWARD_BLOCKS_WINDOW))) sz coins"
proof -
  let ?m = "median (the (get_last_n_blocks_sizes s CRYPTONOTE_REWARD_BLOCKS_WINDOW))"
  define z where "z = (if ?m \<le> CRYPTONOTE_BLOCK_GRANTED_FULL_REWARD_ZONE then CRYPTONOTE_BLOCK_GRANTED_FULL_REWARD_ZONE else ?m)"
  have z: "z < 2 ^ 63" using assms by (simp add: z_def limit_current_def CRYPTONOTE_BLOCK_GRANTED_FULL_REWARD_ZONE_def)
  obtain v where "get_last_n_blocks_sizes s CRYPTONOTE_REWARD_BLOCKS_WINDOW = Some v" using last_sizes_Some by blast
  then have "m_current_block_cumul_sz_limit s = z * 2"
    using assms by (simp add: limit_current_def update_next_comulative_size_limit_def z_def Let_def)
  then have "m_current_block_cumul_sz_limit s div 2 = z" using half_double_64 [OF z] by simp
  then show ?thesis using zone_reward [of ?m sz coins] by (simp add: z_def)
qed

lemma construct_miner_succeeds:
  assumes "address_ok G a" "length ex \<le> 255" "get_block_reward med sz coins = Some reward"
  shows "\<exists>tx'. construct_miner_tx G tmp h med coins sz fee a tx ex 11 = Some tx'"
proof -
  have "(1 :: nat) \<le> 11" by simp
  from construct_miner_tx_ok [OF assms(1) this assms(2, 3), of tmp h fee tx] show ?thesis by blast
qed

lemma template_loop_small:
  assumes "address_ok G a" "length ex \<le> 255" "signatures tx = []" "unat txs_size + 1000 \<le> unat med"
    and tx0: "construct_miner_tx G r0 h med coins txs_size fee a tx ex 11 = Some tx0"
  shows "\<exists>tx'. template_loop G rnd h med coins fee a ex txs_size (Suc n) (txs_size + blob_size64 tx0) tx0 = Some tx'"
proof -
  let ?m = "33 + (if ex \<noteq> [] then 2 + length ex else 0)"
  obtain reward where r: "get_block_reward med txs_size coins = Some reward"
    and sh: "coinbase_shape h (coinbase_amounts (reward + fee)) ?m tx0" and sg: "signatures tx0 = []"
    using construct_miner_shape [OF tx0] assms(3) by auto
  have small: "get_object_blobsize tx0 \<le> 1000" using coinbase_size_bound [OF sh sg coinbase_amounts_sum(2)] assms(2) by simp
  define cum where "cum = txs_size + blob_size64 tx0"
  have "unat (blob_size64 tx0) = get_object_blobsize tx0" using small by (simp add: unat_of_nat take_bit_nat_eq_self)
  then have "unat cum = unat txs_size + get_object_blobsize tx0"
    using small assms(4) unat_lt_64 [of med] by (simp add: cum_def unat_add_64 del: unat_lt_64)
  then have le: "cum \<le> med" "txs_size \<le> med" using small assms(4) by (simp_all add: word_le_nat_alt)
  have r1: "get_block_reward med cum coins = Some reward" using small_block_reward(1) [OF le] r by simp
  obtain tx1 where tx1: "construct_miner_tx G (rnd n) h med coins cum fee a tx0 ex 11 = Some tx1"
    using construct_miner_succeeds [OF assms(1, 2) r1] by blast
  have "coinbase_shape h (coinbase_amounts (reward + fee)) ?m tx1" "signatures tx1 = []"
    using construct_miner_shape [OF tx1] r1 sg by auto
  then have "get_object_blobsize tx1 = get_object_blobsize tx0" using coinbase_size [OF sh sg] coinbase_size by simp
  then have eq: "blob_size64 tx1 = cum - txs_size" "cum = txs_size + blob_size64 tx1" by (simp_all add: cum_def)
  then show ?thesis using tx1 unfolding cum_def [symmetric] by (simp add: Let_def)
qed

lemma create_block_template_cases:
  assumes fill: "fill_block_template (chain_view_of env s) (m_current_block_cumul_sz_limit s div 2) (tx_hashes b) (m_tx_pool s) = ((txs_size, fee, hashes), p)"
    and ok: "get_difficulty_for_next_block s \<noteq> 0" "m_blocks s \<noteq> []"
  shows "create_block_template env rnd b a ex s =
    (case construct_miner_tx (env_ge env) (rnd 10) (get_current_blockchain_height s) (m_current_block_cumul_sz_limit s div 2)
            (already_generated_coins (last (m_blocks s))) txs_size fee a (miner_tx b) ex 11 of
       None \<Rightarrow> (None, s\<lparr>m_tx_pool := p\<rparr>)
     | Some tx \<Rightarrow>
         (case template_loop (env_ge env) rnd (get_current_blockchain_height s) (m_current_block_cumul_sz_limit s div 2)
                 (already_generated_coins (last (m_blocks s))) fee a ex txs_size 10 (txs_size + blob_size64 tx) tx of
            None \<Rightarrow> (None, s\<lparr>m_tx_pool := p\<rparr>)
          | Some tx \<Rightarrow> (Some (b\<lparr>major_version := CURRENT_BLOCK_MAJOR_VERSION, minor_version := CURRENT_BLOCK_MINOR_VERSION,
                prev_id := get_tail_id s, timestamp := env_now env, miner_tx := tx, tx_hashes := hashes\<rparr>,
              get_difficulty_for_next_block s, get_current_blockchain_height s), s\<lparr>m_tx_pool := p\<rparr>)))"
  using fill ok unfolding create_block_template_def Let_def by (simp split: option.split)

text \<open>What a template has to satisfy: it extends the chain, and the checks of the coinbase transaction will accept it.\<close>

definition template_ok :: "'p chain_env \<Rightarrow> blockchain_storage \<Rightarrow> u64 \<Rightarrow> u64 \<Rightarrow> block \<Rightarrow> bool" where
  "template_ok env s txs_size fee bl \<longleftrightarrow> prev_id bl = get_tail_id s \<and> timestamp bl = env_now env
     \<and> prevalidate_miner_transaction bl (get_current_blockchain_height s)
     \<and> validate_miner_transaction s bl (txs_size + blob_size64 (miner_tx bl)) fee (already_generated_coins (last (m_blocks s))) \<noteq> None"

lemma shape_template_ok:
  assumes "limit_current s" "prev_id bl = get_tail_id s" "timestamp bl = env_now env"
    and r: "get_block_reward (m_current_block_cumul_sz_limit s div 2) (txs_size + blob_size64 (miner_tx bl)) (already_generated_coins (last (m_blocks s))) = Some reward"
    and sh: "coinbase_shape (get_current_blockchain_height s) (coinbase_amounts (reward + fee)) m (miner_tx bl)"
  shows "template_ok env s txs_size fee bl"
proof -
  note outs = coinbase_outs [OF sh]
  have "prevalidate_miner_transaction bl (get_current_blockchain_height s)"
    using sh outs(3) by (simp add: prevalidate_miner_transaction_def coinbase_shape_def)
  moreover obtain v where "get_last_n_blocks_sizes s CRYPTONOTE_REWARD_BLOCKS_WINDOW = Some v" using last_sizes_Some by blast
  then have "validate_miner_transaction s bl (txs_size + blob_size64 (miner_tx bl)) fee (already_generated_coins (last (m_blocks s))) = Some reward"
    using r outs(1) unfolding limit_current_reward [OF assms(1)] by (simp add: validate_miner_transaction_def Let_def foldl_outs_money)
  ultimately show ?thesis using assms(2, 3) by (simp add: template_ok_def)
qed

text \<open>
  C8. The block template: whatever \<open>create_block_template\<close> returns extends the present chain with the
  transactions the pool selected, and its coinbase transaction has exactly the size and the amount
  that the validation of the block will ask for. It does return a template for every valid
  address when the selected transactions leave 1000 bytes below the median block size.
\<close>

theorem block_template_ready:
  assumes "fill_block_template (chain_view_of env s) (m_current_block_cumul_sz_limit s div 2) (tx_hashes b) (m_tx_pool s) = ((txs_size, fee, hashes), p)"
    and "get_difficulty_for_next_block s \<noteq> 0" "m_blocks s \<noteq> []" "limit_current s"
  shows "(\<forall>bl d h s'. create_block_template env rnd b a ex s = (Some (bl, d, h), s') \<longrightarrow>
        tx_hashes bl = hashes \<and> template_ok env s txs_size fee bl)
    \<and> (address_ok (env_ge env) a \<and> length ex \<le> 255 \<and> signatures (miner_tx b) = []
        \<and> unat txs_size + 1000 \<le> unat (m_current_block_cumul_sz_limit s div 2)
        \<longrightarrow> fst (create_block_template env rnd b a ex s) \<noteq> None)"
proof (intro conjI allI impI)
  fix bl d h s' assume t: "create_block_template env rnd b a ex s = (Some (bl, d, h), s')"
  note eq = create_block_template_cases [OF assms(1-3), of rnd a ex]
  from t obtain cum tx tx' where loop: "template_loop (env_ge env) rnd (get_current_blockchain_height s) (m_current_block_cumul_sz_limit s div 2)
        (already_generated_coins (last (m_blocks s))) fee a ex txs_size 10 cum tx = Some tx'"
    and bl: "bl = b\<lparr>major_version := CURRENT_BLOCK_MAJOR_VERSION, minor_version := CURRENT_BLOCK_MINOR_VERSION,
        prev_id := get_tail_id s, timestamp := env_now env, miner_tx := tx', tx_hashes := hashes\<rparr>"
    unfolding eq by (auto split: option.splits)
  from template_loop_shape [OF loop] obtain reward m
    where r: "get_block_reward (m_current_block_cumul_sz_limit s div 2) (txs_size + blob_size64 tx') (already_generated_coins (last (m_blocks s))) = Some reward"
    and sh: "coinbase_shape (get_current_blockchain_height s) (coinbase_amounts (reward + fee)) m tx'" by blast
  show "tx_hashes bl = hashes" by (simp add: bl)
  show "template_ok env s txs_size fee bl" by (rule shape_template_ok [OF assms(4), where reward = reward and m = m]) (simp_all add: bl r sh)
next
  assume small: "address_ok (env_ge env) a \<and> length ex \<le> 255 \<and> signatures (miner_tx b) = []
        \<and> unat txs_size + 1000 \<le> unat (m_current_block_cumul_sz_limit s div 2)"
  let ?med = "m_current_block_cumul_sz_limit s div 2" and ?coins = "already_generated_coins (last (m_blocks s))"
  have "txs_size \<le> ?med" using small by (simp add: word_le_nat_alt)
  then obtain reward where r: "get_block_reward ?med txs_size ?coins = Some reward" using small_block_reward(2) [of txs_size ?med txs_size ?coins] by blast
  obtain tx0 where tx0: "construct_miner_tx (env_ge env) (rnd 10) (get_current_blockchain_height s) ?med ?coins txs_size fee a (miner_tx b) ex 11 = Some tx0"
    using construct_miner_succeeds [OF _ _ r] small by blast
  obtain tx' where "template_loop (env_ge env) rnd (get_current_blockchain_height s) ?med ?coins fee a ex txs_size (Suc 9) (txs_size + blob_size64 tx0) tx0 = Some tx'"
    using template_loop_small [OF _ _ _ _ tx0, of rnd 9] small by blast
  then show "fst (create_block_template env rnd b a ex s) \<noteq> None"
    unfolding create_block_template_cases [OF assms(1-3), of rnd a ex] using tx0 by simp
qed

definition genesis_storage :: blockchain_storage where
  "genesis_storage = (blockchain_storage_init True)\<lparr>m_blocks := [future_bei], m_current_block_cumul_sz_limit := 40000\<rparr>"

theorem block_template_ready_witness:
  "\<exists>bl d h s'. create_block_template first_env (\<lambda>_. 3) empty_block (m_account_address z_account) [1, 2] genesis_storage = (Some (bl, d, h), s')
     \<and> tx_hashes bl = [] \<and> template_ok first_env genesis_storage 0 0 bl"
proof -
  let ?s = genesis_storage
  have lim: "m_current_block_cumul_sz_limit ?s div 2 = 20000" by (simp add: genesis_storage_def)
  have fill: "fill_block_template (chain_view_of first_env ?s) (m_current_block_cumul_sz_limit ?s div 2) (tx_hashes empty_block) (m_tx_pool ?s)
      = ((0, 0, []), m_tx_pool ?s)"
    by (simp add: fill_block_template_def genesis_storage_def blockchain_storage_init_def empty_block_def)
  have d: "get_difficulty_for_next_block ?s \<noteq> 0"
    unfolding get_difficulty_for_next_block_def by (simp add: genesis_storage_def DIFFICULTY_BLOCKS_COUNT_def Let_def, code_simp)
  have cur: "limit_current ?s"
    by (simp add: limit_current_def update_next_comulative_size_limit_def genesis_storage_def get_last_n_blocks_sizes_def
        get_backward_blocks_sizes_def CRYPTONOTE_REWARD_BLOCKS_WINDOW_def median_def future_bei_def CRYPTONOTE_BLOCK_GRANTED_FULL_REWARD_ZONE_def)
  have ne: "m_blocks ?s \<noteq> []" by (simp add: genesis_storage_def)
  have a: "address_ok (env_ge first_env) (m_account_address z_account)"
    using account_ok_address [OF z_laws z_account_ok] by (simp add: first_env_def)
  note R = block_template_ready [OF fill d ne cur, of "\<lambda>_. 3" "m_account_address z_account" "[1, 2]"]
  have "signatures (miner_tx empty_block) = []" by (simp add: empty_block_def set_null_def)
  then have "fst (create_block_template first_env (\<lambda>_. 3) empty_block (m_account_address z_account) [1, 2] ?s) \<noteq> None"
    using conjunct2 [OF R] a lim by simp
  then obtain bl d h s' where t: "create_block_template first_env (\<lambda>_. 3) empty_block (m_account_address z_account) [1, 2] ?s = (Some (bl, d, h), s')"
    by (cases "create_block_template first_env (\<lambda>_. 3) empty_block (m_account_address z_account) [1, 2] ?s") auto
  show ?thesis using t conjunct1 [OF R] by blast
qed

subsection \<open>What the core relies on\<close>

text \<open>
  The core reaches the chain and the pool through four operations. A property of the storage that
  they keep, for the transactions and blocks of a run, is kept by every entry point of the core.
\<close>

locale storage_invariant =
  fixes inv :: "blockchain_storage \<Rightarrow> bool"
    and known_tx :: "transaction \<Rightarrow> bool"
    and known_block :: "block \<Rightarrow> bool"
    and G :: "'p ge_ops"
  assumes inv_add_tx: "inv s \<Longrightarrow> known_tx tx \<Longrightarrow> distinct (tx_images tx) \<Longrightarrow> env_ge env = G
      \<Longrightarrow> core_add_new_tx env tx (get_transaction_hash tx) blob_size tvc kept s = (r, tvc', s') \<Longrightarrow> inv s'"
    and inv_add_block: "inv s \<Longrightarrow> known_block b \<Longrightarrow> env_ge env = G
      \<Longrightarrow> add_new_block depth env b bvc s = Some (r', bvc', s') \<Longrightarrow> inv s'"
    and inv_checkpoints: "inv s \<Longrightarrow> env_ge env = G
      \<Longrightarrow> update_checkpoints env hashlines query first_index check_dns s = Some (r'', s') \<Longrightarrow> inv s'"
    and inv_template: "inv s \<Longrightarrow> env_ge env = G \<Longrightarrow> inv (snd (create_block_template env rnd b0 a ex s))"
begin

lemma request_inv:
  assumes "inv s" "env_ge env = G"
  shows "inv (snd (snd (request_block_template env rnd n m s)))"
proof -
  define ex where "ex = (if m_extra_messages m \<noteq> [] \<and> unat (current_extra_message_index m) < length (m_extra_messages m)
                         then m_extra_messages m ! unat (current_extra_message_index m) else [])"
  obtain r s' where "create_block_template env rnd empty_block (m_mine_address m) ex s = (r, s')" by fastforce
  moreover from this have "inv s'" using inv_template [OF assms, of rnd empty_block "m_mine_address m" ex] by simp
  ultimately show ?thesis unfolding request_block_template_def Let_def ex_def [symmetric] by (simp split: option.split)
qed

lemma update_miner_inv: "inv (core_storage c) \<Longrightarrow> env_ge env = G \<Longrightarrow> inv (core_storage (update_miner_block_template env inp c))"
  using request_inv [of "core_storage c" env "in_random inp" "in_start_nonce inp" "core_miner c"]
  by (simp add: update_miner_block_template_def on_block_chain_update_def case_prod_unfold Let_def)

lemma update_points_inv:
  "inv (core_storage c) \<Longrightarrow> env_ge env = G \<Longrightarrow> core_update_checkpoints env inp c = Some (r, c') \<Longrightarrow> inv (core_storage c')"
  by (auto simp: core_update_checkpoints_def Let_def dest: inv_checkpoints split: if_splits)

lemma incoming_tx_inv:
  assumes "inv s" "env_ge env = G" "handle_incoming_tx env tx_blob kept s = (r, tvc, s')"
    and known: "\<And>tx h p. parse_and_validate_tx_from_blob tx_blob = Some (tx, h, p) \<Longrightarrow> known_tx tx \<and> h = get_transaction_hash tx"
    and images: "\<And>tx. check_tx_inputs_keyimages_diff tx \<Longrightarrow> distinct (tx_images tx)"
  shows "inv s'"
proof -
  show ?thesis
  proof (cases "length tx_blob > get_max_tx_size \<or> parse_and_validate_tx_from_blob tx_blob = None")
    case True
    then have "s' = s" using assms(3) unfolding handle_incoming_tx_def Let_def by (cases "length tx_blob > get_max_tx_size") simp_all
    then show ?thesis using assms(1) by simp
  next
    case False
    then obtain tx h p where tx: "parse_and_validate_tx_from_blob tx_blob = Some (tx, h, p)" by auto
    have eq: "(if \<not> check_tx_semantic (env_ge env) s tx kept then (False, tvc_init\<lparr>m_verifivation_failed := True\<rparr>, s)
        else core_add_new_tx env tx h (of_nat (length tx_blob)) tvc_init kept s) = (r, tvc, s')"
      using assms(3) False tx unfolding handle_incoming_tx_def Let_def by simp
    show ?thesis
    proof (cases "check_tx_semantic (env_ge env) s tx kept")
      case True
      have "check_tx_inputs_keyimages_diff tx" using True unfolding check_tx_semantic_def Let_def by (simp split: if_splits)
      then have "distinct (tx_images tx)" by (rule images)
      moreover have "core_add_new_tx env tx (get_transaction_hash tx) (of_nat (length tx_blob)) tvc_init kept s = (r, tvc, s')"
        using eq True known [OF tx] by simp
      ultimately show ?thesis using inv_add_tx [OF assms(1)] known [OF tx] assms(2) by blast
    qed (use eq assms(1) in simp)
  qed
qed

lemma incoming_block_inv:
  assumes "inv (core_storage c)" "env_ge env = G" "handle_incoming_block depth env inp blob bvc upd c = Some (r, bvc', c')"
    and known: "\<And>b. parse_and_validate_block_from_blob blob = Some b \<Longrightarrow> known_block b"
  shows "inv (core_storage c')"
proof -
  obtain r1 c1 where c1: "core_update_checkpoints env inp c = Some (r1, c1)"
    using assms(3) by (cases "core_update_checkpoints env inp c") (auto simp: handle_incoming_block_def)
  have i1: "inv (core_storage c1)" using update_points_inv [OF assms(1, 2) c1] .
  from assms(3) c1 consider "c' = c1"
    | b r2 bvc2 s2 where "parse_and_validate_block_from_blob blob = Some b" "add_new_block depth env b bvc_init (core_storage c1) = Some (r2, bvc2, s2)"
        "c' = (if upd \<and> m_added_to_main_chain bvc2 then update_miner_block_template env inp (c1\<lparr>core_storage := s2\<rparr>) else c1\<lparr>core_storage := s2\<rparr>)"
    by (auto simp: handle_incoming_block_def Let_def split: if_splits option.splits)
  then show ?thesis
  proof cases
    case 2
    have "inv (core_storage (c1\<lparr>core_storage := s2\<rparr>))" using inv_add_block [OF i1 known [OF 2(1)] assms(2) 2(2)] by simp
    then show ?thesis using update_miner_inv assms(2) by (simp add: 2(3))
  qed (use i1 in simp)
qed

lemma block_found_inv:
  assumes "inv (core_storage c)" "env_ge env = G" "known_block b" "handle_block_found depth env inp b c = Some (r, msg, c')"
  shows "inv (core_storage c')"
proof -
  let ?c = "c\<lparr>core_miner := pause (core_miner c)\<rparr>"
  obtain r2 bvc s where a: "add_new_block depth env b bvc_init (core_storage ?c) = Some (r2, bvc, s)"
    using assms(4) by (cases "add_new_block depth env b bvc_init (core_storage ?c)") (auto simp: handle_block_found_def)
  define c2 where "c2 = update_miner_block_template env inp (?c\<lparr>core_storage := s\<rparr>)"
  have "inv s" using inv_add_block [OF _ assms(3, 2) a] assms(1) by simp
  then have "inv (core_storage c2)" using update_miner_inv assms(2) by (simp add: c2_def)
  moreover have "core_storage c' = core_storage c2"
    using assms(4) a unfolding handle_block_found_def Let_def
    by (auto simp: c2_def split: if_splits prod.splits)
  ultimately show ?thesis by simp
qed

end

subsection \<open>The storage keeps its invariant\<close>

lemma chains_ok_pool:
  assumes "chains_ok U V s" "pool_clean p" "ran (pool_get_transaction p) \<subseteq> U"
    and "\<And>h. pool_get_transaction p h \<noteq> None \<Longrightarrow> get_tx s h = None"
  shows "chains_ok U V (s\<lparr>m_tx_pool := p\<rparr>)"
proof -
  note C = chains_okD [OF assms(1)] and S = store_okD [OF chains_okD(1) [OF assms(1)]]
  have "ledger_of (s\<lparr>m_tx_pool := p\<rparr>) = ledger_of s" by (simp add: ledger_of_def chain_ids_def)
  then have "store_ok U (s\<lparr>m_tx_pool := p\<rparr>)"
    using S(1-3, 6) assms(2-4) by (auto simp: store_ok_def chain_ok_def block_ok_def pool_part_ok_def)
  then show ?thesis using C(2, 3) by (simp add: chains_ok_def main_ok_def)
qed

lemma map_option_map_of: "map_option f (map_of xs k) = map_of (map (\<lambda>e. (fst e, f (snd e))) xs) k"
  by (induction xs) auto

lemma fill_template_pool:
  assumes "fill_block_template cv median_size hashes p = (r, p')"
  shows "pool_get_transaction p' = pool_get_transaction p"
proof -
  let ?l = "fill_block_loop cv median_size (130 * median_size div 100 - CRYPTONOTE_COINBASE_BLOB_RESERVED_SIZE)
    (pool_transactions p) ({}, 0, 0, hashes)"
  have p': "pool_transactions p' = snd ?l"
    using assms by (auto simp: fill_block_template_def Let_def split: prod.splits)
  note kept = fill_block_loop_kept [of cv median_size _ "pool_transactions p" "({}, 0, 0, hashes)"]
  have "map (\<lambda>e. (fst e, td_tx (snd e))) (snd ?l) = map (\<lambda>e. (fst e, td_tx (snd e))) (pool_transactions p)"
    using arg_cong [OF kept, of "map (\<lambda>x. (fst (fst x), fst (snd (fst x))))"] by (simp add: comp_def)
  then show ?thesis by (simp add: fun_eq_iff pool_get_transaction_def p' map_option_map_of)
qed

lemma create_template_chains:
  assumes "chains_ok U V s"
  shows "chains_ok U V (snd (create_block_template env rnd b a ex s))"
proof -
  obtain txs_size fee hashes p where fill: "fill_block_template (chain_view_of env s) (m_current_block_cumul_sz_limit s div 2) (tx_hashes b) (m_tx_pool s)
      = ((txs_size, fee, hashes), p)" by (metis prod.collapse)
  note S = store_okD [OF chains_okD(1) [OF assms]]
  have "chains_ok U V (s\<lparr>m_tx_pool := p\<rparr>)"
    using fill_block_template_clean [OF S(4) fill] S(5, 7) assms fill_template_pool [OF fill] by (intro chains_ok_pool) auto
  moreover have "snd (create_block_template env rnd b a ex s) \<in> {s, s\<lparr>m_tx_pool := p\<rparr>}"
    using fill by (auto simp: create_block_template_def Let_def split: option.splits)
  ultimately show ?thesis using assms by auto
qed

lemma keyimages_diff_iff:
  "keyimages_diff_loop ki ins \<longleftrightarrow> list_all is_txin_to_key ins \<and> distinct (ins_images ins) \<and> set (ins_images ins) \<inter> ki = {}"
  by (induction ki ins rule: keyimages_diff_loop.induct) auto

lemma add_new_tx_chains:
  assumes "chains_ok U V s" "tx \<in> U" "distinct (tx_images tx)"
    and add: "core_add_new_tx env tx (get_transaction_hash tx) blob_size tvc kept s = (r, tvc', s')"
  shows "chains_ok U V s'"
proof (cases "pool_have_tx (m_tx_pool s) (get_transaction_hash tx) \<or> have_tx s (get_transaction_hash tx)")
  case True
  then show ?thesis using add assms(1) by (auto simp: core_add_new_tx_def split: if_splits)
next
  case False
  let ?h = "get_transaction_hash tx"
  note S = store_okD [OF chains_okD(1) [OF assms(1)]]
  obtain p where p: "add_tx_with_id (chain_view_of env s) (env_now env) tx ?h blob_size tvc kept (m_tx_pool s) = (r, tvc', p)" "s' = s\<lparr>m_tx_pool := p\<rparr>"
    using add False by (auto simp: core_add_new_tx_def Let_def split: prod.splits)
  have new: "?h \<notin> fst ` set (pool_transactions (m_tx_pool s))" using False by (auto simp: pool_have_tx_def map_of_eq_None_iff)
  have free: "get_tx s ?h = None" using False by (simp add: have_tx_def get_tx_def)
  have "pool_get_transaction p = pool_of s \<or> pool_get_transaction p = (pool_of s)(?h \<mapsto> tx)"
    using add_tx_cases [OF p(1)]
  proof (elim disjE conjE exE)
    fix d assume "td_tx d = tx" "pool_transactions p = pool_transactions (m_tx_pool s) @ [(?h, d)]"
    then show ?thesis by (simp add: pool_get_transaction_def fun_eq_iff map_of_snoc [OF new] del: map_of_append)
  qed simp_all
  then have sub: "pool_get_transaction p k = Some t \<Longrightarrow> k = ?h \<and> t = tx \<or> pool_of s k = Some t" for k t by (auto split: if_splits)
  have "ran (pool_get_transaction p) \<subseteq> U"
  proof
    fix t assume "t \<in> ran (pool_get_transaction p)"
    then obtain k where "pool_get_transaction p k = Some t" by (auto simp: ran_def)
    then show "t \<in> U" using sub [of k t] S(7) assms(2) by (auto intro: ranI)
  qed
  moreover have "get_tx s k = None" if "pool_get_transaction p k \<noteq> None" for k
    using that sub [of k] free S(5) [of k] by auto
  ultimately show ?thesis using chains_ok_pool [OF assms(1) add_tx_clean [OF S(4) assms(3) p(1)]] p(2) by simp
qed

interpretation node: storage_invariant
    "\<lambda>s. universe_ok U V \<longrightarrow> chains_ok U V s" "\<lambda>tx. tx \<in> U" "\<lambda>b. b \<in> V" G for U V and G :: "'p ge_ops"
proof (unfold_locales, goal_cases)
  case (1 s tx env blob_size tvc kept r tvc' s')
  then show ?case using add_new_tx_chains [of U V s tx env blob_size tvc kept r tvc' s'] by simp
next
  case (2 s b env depth bvc r bvc' s')
  then show ?case using add_new_block_chains [of U V s b depth env bvc r bvc' s'] by simp
next
  case (3 s env hashlines query first_index check_dns r s')
  then show ?case using update_checkpoints_chains [of U V s env hashlines query first_index check_dns r s'] by simp
next
  case (4 s env rnd b a ex)
  then show ?case using create_template_chains [of U V s env rnd b a ex] by simp
qed

subsection \<open>Two byte strings for one transaction\<close>

lemma rd_varint_one: "rd_varint (1 # rest) = Some (1 :: u64, rest)" "rd_varint (0x81 # 0 # rest) = Some (1 :: u64, rest)"
  by (simp_all add: rd_varint_def read_varint_eval)

lemma rd_transaction_one: "rd_transaction (0x81 # 0 # rest) = rd_transaction (1 # rest)"
  by (simp add: rd_transaction_def rd_varint_one)

text \<open>
  C21. The id of a transaction is that of the bytes it arrives in, and these are not unique: writing the
  version as a varint of two bytes gives another byte string that is read as the same transaction, with
  its own hash as the id. The check that the transaction is known compares the ids, so that the second
  copy of a transaction of the pool or the chain is not recognised by \<open>core_add_new_tx\<close>, unless the two strings
  have the same hash; the checks of its inputs decide about it.
\<close>

theorem tx_blob_malleable:
  assumes "parse_and_validate_tx_from_blob (1 # rest) = Some (tx, h, p)"
    and "length rest + 2 \<le> get_max_tx_size" "check_tx_semantic (env_ge env) s tx kept"
    and "\<not> pool_have_tx (m_tx_pool s) (cn_fast_hash (0x81 # 0 # rest))" "\<not> have_tx s (cn_fast_hash (0x81 # 0 # rest))"
  shows "parse_and_validate_tx_from_blob (0x81 # 0 # rest) = Some (tx, cn_fast_hash (0x81 # 0 # rest), p)
    \<and> handle_incoming_tx env (0x81 # 0 # rest) kept s
      = (let (r, tvc, q) = add_tx_with_id (chain_view_of env s) (env_now env) tx (cn_fast_hash (0x81 # 0 # rest)) (of_nat (length rest + 2)) tvc_init kept (m_tx_pool s)
         in (r, tvc, s\<lparr>m_tx_pool := q\<rparr>))"
proof -
  have parse: "parse_and_validate_tx_from_blob (0x81 # 0 # rest) = Some (tx, cn_fast_hash (0x81 # 0 # rest), p)"
    using assms(1) by (auto simp: parse_and_validate_tx_from_blob_def parse_all_def rd_transaction_one split: Option.bind_splits)
  show ?thesis
    using parse assms(2-5) by (simp add: handle_incoming_tx_def core_add_new_tx_def Let_def)
qed

definition bare_tx :: transaction where
  "bare_tx = \<lparr>version = 1, unlock_time = 0, vin = [txin_to_key 5 [] 0], vout = [], extra = [], signatures = [[]]\<rparr>"

lemma bare_tx_parsed: "parse_and_validate_tx_from_blob (1 # [0, 1, 2, 5, 0] @ bytes_of_word 32 (0 :: 256 word) @ [0, 0])
    = Some (bare_tx, cn_fast_hash (1 # [0, 1, 2, 5, 0] @ bytes_of_word 32 (0 :: 256 word) @ [0, 0]), get_transaction_prefix_hash bare_tx)"
proof -
  have blob: "fst (wr_transaction bare_tx) = 1 # [0, 1, 2, 5, 0] @ bytes_of_word 32 (0 :: 256 word) @ [0, 0]"
    and ok: "snd (wr_transaction bare_tx)"
    by (simp_all add: bare_tx_def wr_transaction_def wr_transaction_prefix_def wr_signatures_def wr_vector_def wr_tag_def wr_uint_def wr_pod_def
        write_fields_Cons fst_wr_varint write_varint.simps CURRENT_TRANSACTION_VERSION_def)
  have "sizes_tx bare_tx" by (simp add: bare_tx_def sizes_tx_def)
  from rd_transaction_wr [OF this ok, of "[]"]
  have "parse_all rd_transaction (1 # [0, 1, 2, 5, 0] @ bytes_of_word 32 (0 :: 256 word) @ [0, 0]) = Some bare_tx"
    unfolding blob by (simp add: parse_all_def as_loaded_def loaded_signatures_def bare_tx_def)
  then show ?thesis by (simp add: parse_and_validate_tx_from_blob_def)
qed

theorem tx_blob_malleable_witness:
  "parse_and_validate_tx_from_blob (0x81 # 0 # [0, 1, 2, 5, 0] @ bytes_of_word 32 (0 :: 256 word) @ [0, 0])
    = Some (bare_tx, cn_fast_hash (0x81 # 0 # [0, 1, 2, 5, 0] @ bytes_of_word 32 (0 :: 256 word) @ [0, 0]), get_transaction_prefix_hash bare_tx)"
proof -
  have "check_tx_semantic (env_ge first_env) (blockchain_storage_init True) bare_tx True"
    by (simp add: check_tx_semantic_def bare_tx_def check_inputs_types_supported_def check_outs_valid_def check_money_overflow_def
        check_inputs_overflow_def check_outs_overflow_def get_inputs_money_amount_def get_outs_money_amount_def check_tx_inputs_keyimages_diff_def)
  moreover have "\<not> pool_have_tx (m_tx_pool (blockchain_storage_init True)) x" "\<not> have_tx (blockchain_storage_init True) x" for x
    by (simp_all add: blockchain_storage_init_def pool_have_tx_def have_tx_def)
  moreover have "length ([0, 1, 2, 5, 0] @ bytes_of_word 32 (0 :: 256 word) @ [0, 0 :: u8]) + 2 \<le> get_max_tx_size"
    by (simp add: get_max_tx_size_def CRYPTONOTE_MAX_TX_SIZE_def)
  ultimately show ?thesis using tx_blob_malleable [OF bare_tx_parsed] by blast
qed

end
