(* ===== verification/Spec2Isabelle.thy ===== *)
theory Spec2Isabelle
  imports Prelude Int_Util Varint Keccak Tree_Hash Base58 Difficulty Binary_Archive
    Cryptonote_Basic Emission Tx_Extra Scalar_Ops Crypto String_Tools Format_Utils
    Account Tx_Construct Checkpoints Tx_Pool Blockchain Main_Chain Alternatives Chain_Queries Node
begin

text \<open>
  A model of the consensus core of the bitmonero node, with the theorems that make it correct. Paths are
  relative to the directory \<open>src/\<close> of the repository unless they start with \<open>contrib/\<close>.

  \<^bold>\<open>The program.\<close> A node keeps a block chain (\<open>cryptonote_core/blockchain_storage.cpp\<close>) and a pool of
  transactions that wait for a block (\<open>tx_pool.cpp\<close>). Bytes that arrive from peers are parsed by the
  binary archive (\<open>serialization/\<close>) and handed to the core (\<open>cryptonote_core.cpp\<close>), which checks what needs
  no chain and passes transactions to the pool and blocks to the storage. The storage checks a block,
  takes its transactions out of the pool, checks their ring signatures (\<open>crypto/\<close>) and extends its
  indices, or keeps the block as an alternative and switches chains when the alternative becomes the
  harder one. The miner asks the storage for a template and gives found blocks to the core.

  \<^bold>\<open>Theories and sources.\<close>
  \<^item> \<^theory_text>\<open>Prelude\<close>: machine types and facts on words and lists.
  \<^item> \<^theory_text>\<open>Int_Util\<close>, \<^theory_text>\<open>Varint\<close>, \<^theory_text>\<open>Base58\<close>: \<open>common/int-util.h\<close>, \<open>common/varint.h\<close>, \<open>common/base58.cpp\<close>, whose
    round trips are those of the locale \<open>codec\<close>.
  \<^item> \<^theory_text>\<open>Keccak\<close>, \<^theory_text>\<open>Tree_Hash\<close>: \<open>crypto/keccak.c\<close>, \<open>hash.c\<close>, \<open>tree-hash.c\<close>. The in-place code equals the
    permutation, the sponge and the Merkle tree in their textbook form.
  \<^item> \<^theory_text>\<open>Scalar_Ops\<close>, \<^theory_text>\<open>Crypto\<close>: the \<open>sc_\<close> functions of \<open>crypto/crypto-ops.c\<close>, and \<open>crypto/crypto.cpp\<close>. The scalar
    routines never overflow and compute modulo the group order; signatures and ring signatures that the
    code makes are accepted by its verifiers, and a receiver derives the key of an output sent to it.
  \<^item> \<^theory_text>\<open>Binary_Archive\<close>, \<^theory_text>\<open>Cryptonote_Basic\<close>, \<^theory_text>\<open>Tx_Extra\<close>: \<open>serialization/\<close>, \<open>cryptonote_basic.h\<close>,
    \<open>tx_extra.h\<close>; readers, writers and their round trips. The locale \<open>serializable\<close> carries them.
  \<^item> \<^theory_text>\<open>Difficulty\<close>, \<^theory_text>\<open>Emission\<close>: \<open>difficulty.cpp\<close> and the block reward of \<open>cryptonote_basic_impl.cpp\<close>.
  \<^item> \<^theory_text>\<open>String_Tools\<close>, \<^theory_text>\<open>Format_Utils\<close>, \<^theory_text>\<open>Account\<close>, \<^theory_text>\<open>Tx_Construct\<close>: conversions of
    \<open>contrib/epee/include/string_tools.h\<close>, \<open>cryptonote_format_utils.cpp\<close> and \<open>account.cpp\<close>. Block ids commit to the
    block, amounts are checked exactly, and transactions the node builds pass its own checks and are
    found by their receivers.
  \<^item> \<^theory_text>\<open>Checkpoints\<close>: \<open>checkpoints.cpp\<close> and \<open>checkpoints_create.cpp\<close> on the interface \<open>point_map\<close>.
  \<^item> \<^theory_text>\<open>Tx_Pool\<close>: \<open>tx_pool.cpp\<close>; the index of key images is exact and templates are free of conflicts. It sees
    the chain through the record \<open>chain_view\<close>.
  \<^item> \<^theory_text>\<open>Blockchain\<close>, \<^theory_text>\<open>Main_Chain\<close>, \<^theory_text>\<open>Alternatives\<close>, \<^theory_text>\<open>Chain_Queries\<close>: \<open>blockchain_storage.cpp\<close>, with the state
    as the record \<open>blockchain_storage\<close>, which contains the pool the code refers to. An accepted block passed
    every check and creates no money beyond the emission; a rejected one leaves the tables as they were. The
    chain takes its transactions from the pool through the interface \<open>tx_source\<close>. The answers to peers and
    wallets are correct.
  \<^item> \<^theory_text>\<open>Node\<close>: \<open>create_block_template\<close>, the template of \<open>miner.cpp\<close> and the entry points of
    \<open>cryptonote_core.cpp\<close>. The locale \<open>storage_invariant\<close> states what the core needs of the storage for a
    property to survive every entry point; it is interpreted on the invariant \<open>chains_ok\<close>.
  \<^item> This theory: the runs of a node and the invariant of every state they reach.

  \<^bold>\<open>Conventions and bounds.\<close> Errors are \<open>False\<close> or \<open>None\<close> as the code returns them; \<open>None\<close> also stands for undefined
  behaviour, with the place named where it is used. Loops are structural or have a termination proof. Three
  loops have a number of steps as an argument: the tries of the block template, which are ten as in the
  code; the nesting of chain switches, \<open>depth\<close>, since a switch puts the blocks of the old chain back as
  alternatives and these may switch again, where \<open>None\<close> means that the nesting went deeper; and the random draws of the ring outputs, which are
  a list, since the code draws until it has enough. The invariants speak of a set \<open>U\<close> of transactions and a
  set \<open>V\<close> of blocks of a run and assume that no two of them have the same hash (\<open>universe_ok\<close>).

  \<^bold>\<open>Parameters.\<close> Curve points are the record \<open>ge_ops\<close>; theorems that need the group laws name them as a
  hypothesis, and witnesses use the additive group of integers modulo the group order. The slow hash, the
  clock, random numbers, the content of the checkpoint file and the DNS answers are arguments.

  \<^bold>\<open>Not modelled.\<close> Field and curve arithmetic; the slow hash and the hashes below it; files, logs,
  locks and threads (operations are atomic, as the locks of the code make them); the network
  (\<open>p2p/\<close>, \<open>cryptonote_protocol/\<close>), the servers (\<open>rpc/\<close>, \<open>ipc/\<close>), the daemon, the wallets, the mnemonics and the
  tools; boost and JSON archives. The runs below leave out the expiry of pool transactions, which leaves
  stale key images behind (\<^theory_text>\<open>Tx_Pool\<close> shows it), and bytes that are not the writer's form of a
  transaction, which have another id (\<^theory_text>\<open>Node\<close> shows it).
\<close>

section \<open>Runs of a node\<close>

text \<open>
  The states a node reaches from an empty storage through its entry points. \<open>U\<close> and \<open>V\<close> are the
  transactions and blocks of the run; the transactions arrive in the bytes the writer produces for
  them, so that their id is that of these bytes. The clock, the proof of work, the random numbers, the
  checkpoint file and the DNS answers may be different in every step.
\<close>

inductive node_reachable :: "transaction set \<Rightarrow> block set \<Rightarrow> 'p ge_ops \<Rightarrow> core \<Rightarrow> bool" for U V G where
  start: "core_storage c = blockchain_storage_init t \<Longrightarrow> node_reachable U V G c"
| incoming_tx: "node_reachable U V G c \<Longrightarrow> env_ge env = G
    \<Longrightarrow> \<forall>tx h p. parse_and_validate_tx_from_blob tx_blob = Some (tx, h, p) \<longrightarrow> tx \<in> U \<and> h = get_transaction_hash tx
    \<Longrightarrow> handle_incoming_tx env tx_blob kept (core_storage c) = (r, tvc, s)
    \<Longrightarrow> node_reachable U V G (c\<lparr>core_storage := s\<rparr>)"
| incoming_block: "node_reachable U V G c \<Longrightarrow> env_ge env = G
    \<Longrightarrow> \<forall>b. parse_and_validate_block_from_blob block_blob = Some b \<longrightarrow> b \<in> V
    \<Longrightarrow> handle_incoming_block depth env inp block_blob bvc upd c = Some (r, bvc', c')
    \<Longrightarrow> node_reachable U V G c'"
| block_found: "node_reachable U V G c \<Longrightarrow> env_ge env = G \<Longrightarrow> b \<in> V
    \<Longrightarrow> handle_block_found depth env inp b c = Some (r, msg, c')
    \<Longrightarrow> node_reachable U V G c'"
| new_template: "node_reachable U V G c \<Longrightarrow> env_ge env = G
    \<Longrightarrow> node_reachable U V G (update_miner_block_template env inp c)"

lemma node_chains:
  assumes "universe_ok U V" "node_reachable U V (G :: 'p ge_ops) c"
  shows "chains_ok U V (core_storage c)"
proof -
  have "universe_ok U V \<longrightarrow> chains_ok U V (core_storage c)"
    using assms(2)
  proof (induction rule: node_reachable.induct)
    case (start c t)
    then show ?case by (simp add: init_chains)
  next
    case (incoming_tx c env tx_blob kept r tvc s)
    have "distinct (tx_images tx)" if "check_tx_inputs_keyimages_diff tx" for tx
      using that by (simp add: check_tx_inputs_keyimages_diff_def keyimages_diff_iff)
    then show ?case
      using node.incoming_tx_inv [OF incoming_tx(5, 2, 4)] incoming_tx(3) by simp
  next
    case (incoming_block c env block_blob depth inp bvc upd r bvc' c')
    show ?case using node.incoming_block_inv [OF incoming_block(5, 2, 4)] incoming_block(3) by simp
  next
    case (block_found c env b depth inp r msg c')
    show ?case using node.block_found_inv [OF block_found(5, 2, 3, 4)] .
  next
    case (new_template c env inp)
    show ?case using node.update_miner_inv [OF new_template(3, 2)] .
  qed
  then show ?thesis using assms(1) by simp
qed


definition quiet_miner :: miner where
  "quiet_miner = \<lparr>m_stop = True, m_template = empty_block, m_template_no = 0, m_diffic = 0, m_height = 0, m_starter_nonce = 0,
     m_mine_address = m_account_address z_account, m_extra_messages = [], current_extra_message_index = 0, m_pausers_count = 0\<rparr>"

definition fresh_core :: core where
  "fresh_core = \<lparr>core_storage = blockchain_storage_init True, core_miner = quiet_miner,
     m_last_dns_checkpoints_update = 0, m_last_json_checkpoints_update = 0\<rparr>"

lemma handle_block_found_returns:
  assumes "add_new_block depth env b bvc_init (core_storage c) = Some (r, bvc, s)"
  shows "\<exists>r msg c'. handle_block_found depth env inp b c = Some (r, msg, c')
    \<and> core_storage c' = core_storage (update_miner_block_template env inp (c\<lparr>core_miner := pause (core_miner c), core_storage := s\<rparr>))"
proof -
  let ?c = "update_miner_block_template env inp (c\<lparr>core_miner := pause (core_miner c), core_storage := s\<rparr>)"
  let ?c' = "?c\<lparr>core_miner := resume (core_miner ?c)\<rparr>"
  have "Ex Not" "\<exists>r. r" by blast+
  then have "\<exists>r msg. handle_block_found depth env inp b c = Some (r, msg, ?c')"
    using assms unfolding handle_block_found_def Let_def by (simp split: prod.split)
  then show ?thesis by force
qed

lemma first_block_found:
  "\<exists>r msg c. handle_block_found 0 first_env inp (first_block []) fresh_core = Some (r, msg, c)
     \<and> map bei_bl (m_blocks (core_storage c)) = [first_block []]"
proof -
  obtain bvc' s' where h: "handle_block_to_main_chain first_env (first_block []) bvc_init (blockchain_storage_init True) = (True, bvc', s')"
    using first_block_accepted by blast
  have "first_block [] \<in> {first_block []}" by simp
  note H = handle_block_chains [OF first_universe init_chains this h]
  have st: "core_storage fresh_core = blockchain_storage_init True" "core_miner fresh_core = quiet_miner" by (simp_all add: fresh_core_def)
  have "\<not> have_block (blockchain_storage_init True) (get_block_hash (first_block []))"
    by (simp add: have_block_def blockchain_storage_init_def)
  moreover have "prev_id (first_block []) = get_tail_id (blockchain_storage_init True)"
    by (simp add: first_block_def get_tail_id_def)
  ultimately have add: "add_new_block 0 first_env (first_block []) bvc_init (blockchain_storage_init True) = Some (True, bvc', s')"
    using h by (simp add: add_new_block_def handle_block_to_main_chain_def)
  have upd: "core_storage (update_miner_block_template env inp (fresh_core\<lparr>core_miner := pause quiet_miner, core_storage := s\<rparr>)) = s" for env :: "zpoint chain_env" and inp s
    by (simp add: update_miner_block_template_def on_block_chain_update_def is_mining_def pause_def quiet_miner_def)
  obtain r msg c where c: "handle_block_found 0 first_env inp (first_block []) fresh_core = Some (r, msg, c)" "core_storage c = s'"
    using handle_block_found_returns [of 0 first_env "first_block []" fresh_core True bvc' s' inp] add unfolding st upd by (elim meta_impE exE conjE)
  have "map bei_bl (m_blocks s') = [first_block []]" by (simp add: H(5))
  then show ?thesis using c by (intro exI [of _ r] exI [of _ msg] exI [of _ c]) simp
qed


end
